(* ===== verification/Prelude.thy ===== *)
theory Prelude
  imports Main "HOL-Library.Multiset" "HOL-Library.AList" "HOL-Library.Char_ord"
    "HOL-Library.List_Lexorder"
begin

text \<open>
  What the components share: the parts of the Go language and of its standard library that
  the program uses, and the generic lemmas about them.

  \<^item> Go strings and byte slices are byte sequences: \<open>string\<close>, a list of 8-bit characters,
    ordered byte by byte as Go orders them.
  \<^item> A run-time panic and a loop that never ends are values of \<open>fault\<close>; a function that
    appends findings returns \<open>fault + finding list\<close>, and consecutive statements and loops
    of such functions are \<open>run_all\<close>, which stops at the first fault.
  \<^item> A Go map built by assignments is an association list with distinct keys; ranging over
    it visits the keys in an order the language leaves open, which is a parameter
    (\<open>numOrder\<close>, \<open>strOrder\<close> of \<open>go_env\<close>), one order for every place a range statement
    is executed. \<open>fair_env\<close> is what the language guarantees: every key exactly once.
  \<^item> \<open>fmt.Sprintf\<close> is \<open>sprintf\<close>, for the verbs the program uses.
\<close>

named_theorems run_simps \<open>rewriting of sequenced runs\<close>
named_theorems fair_intros \<open>consequences of a fair iteration order\<close>

subsection \<open>Faults and sequenced runs\<close>

datatype fault = Panic string | Hang

type_synonym 'a run = "fault + 'a list"

fun run_all :: "'a run list \<Rightarrow> 'a run" where
  "run_all [] = Inr []"
| "run_all (x # xs) =
     (case x of Inl p \<Rightarrow> Inl p
      | Inr a \<Rightarrow> (case run_all xs of Inl p \<Rightarrow> Inl p | Inr b \<Rightarrow> Inr (a @ b)))"

definition run_ok :: "'a run \<Rightarrow> bool" where
  "run_ok r = (case r of Inl _ \<Rightarrow> False | Inr _ \<Rightarrow> True)"

definition out :: "'a run \<Rightarrow> 'a list" where
  "out r = (case r of Inl _ \<Rightarrow> [] | Inr xs \<Rightarrow> xs)"

definition same_run :: "'a run \<Rightarrow> 'a run \<Rightarrow> bool" where
  "same_run r s = (run_ok r = run_ok s \<and> (run_ok r \<longrightarrow> mset (out r) = mset (out s)))"

subsection \<open>The open choices of the Go run time\<close>

record go_env =
  numOrder :: "string \<Rightarrow> nat \<Rightarrow> int list \<Rightarrow> int list"
  strOrder :: "string \<Rightarrow> nat \<Rightarrow> string list \<Rightarrow> string list"
  quoteWide :: "string \<Rightarrow> string"
  showFloat :: "nat \<Rightarrow> int \<Rightarrow> string"

definition fair_env :: "go_env \<Rightarrow> bool" where
  "fair_env e \<longleftrightarrow>
     (\<forall>site i ks. mset (numOrder e site i ks) = mset ks) \<and>
     (\<forall>site i ks. mset (strOrder e site i ks) = mset ks)"

definition range_map :: "('k list \<Rightarrow> 'k list) \<Rightarrow> ('k \<times> 'v) list \<Rightarrow> ('k \<times> 'v) list" where
  "range_map ord m = map (\<lambda>k. (k, the (map_of m k))) (ord (map fst m))"

definition put_all :: "('v \<Rightarrow> 'k) \<Rightarrow> 'v list \<Rightarrow> ('k \<times> 'v) list" where
  "put_all key xs = fold (\<lambda>x m. AList.update (key x) x m) xs []"

subsection \<open>Strings and formatting\<close>

definition hasPrefix :: "string \<Rightarrow> string \<Rightarrow> bool" where
  "hasPrefix s p = (take (length p) s = p)"

definition digit :: "nat \<Rightarrow> char" where
  "digit n = char_of (48 + n)"

fun show_nat :: "nat \<Rightarrow> string" where
  "show_nat n = (if n < 10 then [digit n] else show_nat (n div 10) @ [digit (n mod 10)])"

declare show_nat.simps [simp del]

definition itoa :: "int \<Rightarrow> string" where
  "itoa i = (if i < 0 then ''-'' @ show_nat (nat (- i)) else show_nat (nat i))"

definition hex_digit :: "nat \<Rightarrow> char" where
  "hex_digit n = (if n < 10 then char_of (48 + n) else char_of (87 + n))"

definition show_bool :: "bool \<Rightarrow> string" where
  "show_bool b = (if b then ''true'' else ''false'')"

definition quote_char :: "char \<Rightarrow> string" where
  "quote_char c =
     (let n = (of_char c :: nat) in
      if c = CHR 0x22 \<or> c = CHR 0x5C then [CHR 0x5C, c]
      else if 32 \<le> n \<and> n < 127 then [c]
      else if n = 7 then [CHR 0x5C, CHR ''a''] else if n = 8 then [CHR 0x5C, CHR ''b'']
      else if n = 12 then [CHR 0x5C, CHR ''f''] else if n = 10 then [CHR 0x5C, CHR ''n'']
      else if n = 13 then [CHR 0x5C, CHR ''r''] else if n = 9 then [CHR 0x5C, CHR ''t'']
      else if n = 11 then [CHR 0x5C, CHR ''v'']
      else [CHR 0x5C, CHR ''x'', hex_digit (n div 16), hex_digit (n mod 16)])"

definition quote :: "go_env \<Rightarrow> string \<Rightarrow> string" where
  "quote e s =
     (if list_all (\<lambda>c. (of_char c :: nat) < 128) s
      then [CHR 0x22] @ concat (map quote_char s) @ [CHR 0x22] else quoteWide e s)"

datatype fmt_arg = AStr string | AInt int | ABool bool

fun fmt_one :: "go_env \<Rightarrow> char \<Rightarrow> fmt_arg \<Rightarrow> string" where
  "fmt_one e v (AStr s) = (if v = CHR ''q'' then quote e s else s)"
| "fmt_one e v (AInt i) = itoa i"
| "fmt_one e v (ABool b) = show_bool b"

fun sprintf :: "go_env \<Rightarrow> string \<Rightarrow> fmt_arg list \<Rightarrow> string" where
  "sprintf e [] as = []"
| "sprintf e [c] as = (if c = CHR ''%'' then ''%!(NOVERB)'' else [c])"
| "sprintf e (c # v # cs) as =
     (if c = CHR ''%'' then
        (case as of [] \<Rightarrow> ''%!'' @ [v] @ ''(MISSING)'' @ sprintf e cs []
         | a # as' \<Rightarrow> fmt_one e v a @ sprintf e cs as')
      else c # sprintf e (v # cs) as)"

declare sprintf.simps [simp del]

subsection \<open>Lemmas: sequenced runs\<close>

lemma run_ok_simps [simp, run_simps]: "run_ok (Inr xs)" "\<not> run_ok (Inl p)"
  by (simp_all add: run_ok_def)

lemma out_simps [simp, run_simps]: "out (Inr xs) = xs" "out (Inl p) = []"
  by (simp_all add: out_def)

lemma run_okE: "run_ok r \<Longrightarrow> r = Inr (out r)"
  by (cases r) simp_all

lemma run_ok_run_all [simp]: "run_ok (run_all rs) \<longleftrightarrow> (\<forall>r \<in> set rs. run_ok r)"
  by (induction rs) (auto split: sum.splits simp: run_ok_def)

lemma out_run_all [simp]:
  "run_ok (run_all rs) \<Longrightarrow> out (run_all rs) = concat (map out rs)"
proof (induction rs)
  case (Cons r rs)
  then obtain xs ys where "r = Inr xs" "run_all rs = Inr ys"
    by (cases r; cases "run_all rs") (auto dest: run_okE simp del: run_ok_run_all)
  with Cons show ?case by (auto simp del: run_ok_run_all)
qed simp

lemma run_all_Inr_iff:
  "run_all rs = Inr xs \<longleftrightarrow> (\<forall>r \<in> set rs. run_ok r) \<and> xs = concat (map out rs)"
proof -
  have "run_all rs = Inr xs \<longleftrightarrow> run_ok (run_all rs) \<and> xs = out (run_all rs)"
    by (cases "run_all rs") (auto simp del: run_ok_run_all out_run_all)
  then show ?thesis by auto
qed

lemma run_all_append:
  "run_ok (run_all (rs @ ss)) \<longleftrightarrow> run_ok (run_all rs) \<and> run_ok (run_all ss)"
  by auto

lemma run_all_map_Inr [simp, run_simps]: "run_all (map (\<lambda>x. Inr (f x)) xs) = Inr (concat (map f xs))"
  by (induction xs) auto

declare run_all.simps(2) [simp del]

lemma same_run_refl [simp]: "same_run r r"
  by (simp add: same_run_def)

lemma same_run_sym: "same_run r s \<Longrightarrow> same_run s r"
  by (auto simp: same_run_def)

lemma same_run_trans: "same_run r s \<Longrightarrow> same_run s t \<Longrightarrow> same_run r t"
  by (auto simp: same_run_def)

lemma same_run_Inr [simp]: "same_run (Inr xs) (Inr ys) \<longleftrightarrow> mset xs = mset ys"
  by (simp add: same_run_def)

lemma same_run_set: "same_run r s \<Longrightarrow> run_ok r \<Longrightarrow> set (out r) = set (out s)"
  unfolding same_run_def by (metis set_mset_mset)

lemma mset_concat_perm:
  "mset xss = mset yss \<Longrightarrow> mset (concat xss) = mset (concat yss)"
  by (metis mset_concat mset_map sum_mset_sum_list)

lemma same_run_perm:
  assumes "mset rs = mset ss"
  shows "same_run (run_all rs) (run_all ss)"
proof -
  from assms have sets: "set rs = set ss" by (metis set_mset_mset)
  have "mset (map out rs) = mset (map out ss)" using assms by simp
  then have "mset (concat (map out rs)) = mset (concat (map out ss))"
    by (rule mset_concat_perm)
  with sets show ?thesis by (auto simp: same_run_def)
qed

lemma same_run_pointwise:
  assumes "list_all2 same_run rs ss"
  shows "same_run (run_all rs) (run_all ss)"
proof -
  from assms have "(\<forall>r \<in> set rs. run_ok r) = (\<forall>s \<in> set ss. run_ok s) \<and>
      ((\<forall>r \<in> set rs. run_ok r) \<longrightarrow> mset (concat (map out rs)) = mset (concat (map out ss)))"
    by (induction rule: list_all2_induct) (auto simp: same_run_def)
  then show ?thesis by (simp add: same_run_def)
qed

lemma same_run_map:
  assumes "mset xs = mset ys" and "\<And>x. x \<in> set xs \<Longrightarrow> same_run (f x) (g x)"
  shows "same_run (run_all (map f xs)) (run_all (map g ys))"
proof -
  have "same_run (run_all (map f xs)) (run_all (map g xs))"
    using assms(2) by (intro same_run_pointwise) (auto simp: list_all2_conv_all_nth)
  moreover have "same_run (run_all (map g xs)) (run_all (map g ys))"
    using assms(1) by (intro same_run_perm) simp
  ultimately show ?thesis by (rule same_run_trans)
qed

subsection \<open>Lemmas: maps and the order of ranging over them\<close>

lemma fair_numOrder [fair_intros]: "fair_env e \<Longrightarrow> mset (numOrder e s i ks) = mset ks"
  by (simp add: fair_env_def)

lemma fair_strOrder [fair_intros]: "fair_env e \<Longrightarrow> mset (strOrder e s i ks) = mset ks"
  by (simp add: fair_env_def)

lemma mset_range_map:
  assumes "distinct (map fst m)" and "mset (ord (map fst m)) = mset (map fst m)"
  shows "mset (range_map ord m) = mset m"
proof -
  have "mset (range_map ord m) = image_mset (\<lambda>k. (k, the (map_of m k))) (mset (map fst m))"
    using assms(2) by (simp add: range_map_def)
  also have "\<dots> = mset (map (\<lambda>kv. (fst kv, the (map_of m (fst kv)))) m)"
    by (simp add: multiset.map_comp comp_def)
  also have "map (\<lambda>kv. (fst kv, the (map_of m (fst kv)))) m = m"
    using assms(1) by (intro map_idI) (auto simp: map_of_is_SomeI)
  finally show ?thesis .
qed

lemma set_range_map:
  assumes "distinct (map fst m)" and "mset (ord (map fst m)) = mset (map fst m)"
  shows "set (range_map ord m) = set m"
  using mset_range_map [of m ord] assms by (metis set_mset_mset)

declare map_of_eq_Some_iff [simp del] Some_eq_map_of_iff [simp del]

lemma put_all_snoc: "put_all key (xs @ [x]) = AList.update (key x) x (put_all key xs)"
  by (simp add: put_all_def)

lemma distinct_put_all [simp]: "distinct (map fst (put_all key xs))"
proof (induction xs rule: rev_induct)
  case (snoc x xs)
  then show ?case by (simp add: put_all_snoc distinct_update)
qed (simp add: put_all_def)

lemma keys_put_all [simp]: "fst ` set (put_all key xs) = key ` set xs"
proof (induction xs rule: rev_induct)
  case (snoc x xs)
  then show ?case
    by (simp add: put_all_snoc update_conv' flip: dom_map_of_conv_image_fst)
qed (simp add: put_all_def)

lemma put_all_SomeD: "map_of (put_all key xs) k = Some x \<Longrightarrow> x \<in> set xs \<and> key x = k"
proof (induction xs rule: rev_induct)
  case (snoc y xs)
  then show ?case by (auto simp: put_all_snoc update_conv' split: if_splits)
qed (simp add: put_all_def)

lemma put_all_None_iff [simp]: "map_of (put_all key xs) k = None \<longleftrightarrow> k \<notin> key ` set xs"
  by (simp add: map_of_eq_None_iff)

lemma in_put_all: "(k, x) \<in> set (put_all key xs) \<longleftrightarrow> map_of (put_all key xs) k = Some x"
  by (simp add: map_of_eq_Some_iff)

lemma put_all_memD: "(k, x) \<in> set (put_all key xs) \<Longrightarrow> x \<in> set xs \<and> key x = k"
  by (rule put_all_SomeD) (rule in_put_all [THEN iffD1])

lemma put_all_unique:
  assumes "distinct (map key xs)" and "x \<in> set xs"
  shows "map_of (put_all key xs) (key x) = Some x"
proof -
  from assms(2) have "map_of (put_all key xs) (key x) \<noteq> None" by auto
  then obtain y where y: "map_of (put_all key xs) (key x) = Some y" by blast
  then have "y \<in> set xs \<and> key y = key x" by (rule put_all_SomeD)
  with assms have "y = x" by (metis distinct_map inj_on_def)
  with y show ?thesis by simp
qed

subsection \<open>Lemmas: strings\<close>

lemma hasPrefix_iff: "hasPrefix s p \<longleftrightarrow> (\<exists>t. s = p @ t)"
  unfolding hasPrefix_def by (metis append_eq_conv_conj)

lemma show_nat_nonempty [simp]: "show_nat n \<noteq> []"
  by (subst show_nat.simps) simp

lemma itoa_nonempty [simp]: "itoa i \<noteq> []"
  by (simp add: itoa_def)

subsection \<open>A concrete run time\<close>

definition plain_env :: go_env where
  "plain_env = \<lparr>numOrder = (\<lambda>_ _ ks. ks), strOrder = (\<lambda>_ _ ks. ks), quoteWide = (\<lambda>s. s),
     showFloat = (\<lambda>_ _. [])\<rparr>"

lemma fair_plain_env [simp]: "fair_env plain_env"
  by (simp add: plain_env_def fair_env_def)

end
