(* ===== verification/Compat_Types.thy ===== *)
theory Compat_Types
  imports Prelude
begin

text \<open>
  The evidence types of \<open>internal/compat/types.go\<close>: severities, dimensions, verdicts,
  findings, reports, samples and diffs, and \<open>verdictOf\<close>, which turns findings into a
  verdict. Severities and verdicts are linearly ordered by how bad they are. The locale
  \<open>verdict_aggregator\<close> is the contract of every loop that aggregates findings into a
  verdict: \<open>verdictOf\<close> here and the loop of \<open>consumerImpact\<close> in the service both satisfy
  it, and share its lemmas (independence of the order, monotonicity, what each verdict means).
\<close>

subsection \<open>Severities, dimensions, verdicts\<close>

datatype severity = SeverityInfo | SeverityWarn | SeverityFail

datatype dimension = DimensionWire | DimensionJSON | DimensionBoth

datatype verdict = VerdictCompatible | VerdictNeedsReview | VerdictIncompatible

fun severity_str :: "severity \<Rightarrow> string" where
  "severity_str SeverityFail = ''FAIL''"
| "severity_str SeverityWarn = ''WARN''"
| "severity_str SeverityInfo = ''INFO''"

fun dimension_str :: "dimension \<Rightarrow> string" where
  "dimension_str DimensionWire = ''WIRE''"
| "dimension_str DimensionJSON = ''JSON''"
| "dimension_str DimensionBoth = ''BOTH''"

fun verdict_str :: "verdict \<Rightarrow> string" where
  "verdict_str VerdictCompatible = ''COMPATIBLE''"
| "verdict_str VerdictNeedsReview = ''NEEDS_REVIEW''"
| "verdict_str VerdictIncompatible = ''INCOMPATIBLE''"

fun severity_rank :: "severity \<Rightarrow> nat" where
  "severity_rank SeverityInfo = 0"
| "severity_rank SeverityWarn = 1"
| "severity_rank SeverityFail = 2"

fun verdict_rank :: "verdict \<Rightarrow> nat" where
  "verdict_rank VerdictCompatible = 0"
| "verdict_rank VerdictNeedsReview = 1"
| "verdict_rank VerdictIncompatible = 2"

fun severity_verdict :: "severity \<Rightarrow> verdict" where
  "severity_verdict SeverityInfo = VerdictCompatible"
| "severity_verdict SeverityWarn = VerdictNeedsReview"
| "severity_verdict SeverityFail = VerdictIncompatible"

instantiation severity :: linorder
begin

definition less_eq_severity :: "severity \<Rightarrow> severity \<Rightarrow> bool" where
  "less_eq_severity a b = (severity_rank a \<le> severity_rank b)"

definition less_severity :: "severity \<Rightarrow> severity \<Rightarrow> bool" where
  "less_severity a b = (severity_rank a < severity_rank b)"

instance
proof
  fix a b :: severity
  show "a \<le> b \<Longrightarrow> b \<le> a \<Longrightarrow> a = b"
    by (cases a; cases b) (simp_all add: less_eq_severity_def)
qed (auto simp: less_eq_severity_def less_severity_def)

end

instantiation verdict :: linorder
begin

definition less_eq_verdict :: "verdict \<Rightarrow> verdict \<Rightarrow> bool" where
  "less_eq_verdict a b = (verdict_rank a \<le> verdict_rank b)"

definition less_verdict :: "verdict \<Rightarrow> verdict \<Rightarrow> bool" where
  "less_verdict a b = (verdict_rank a < verdict_rank b)"

instance
proof
  fix a b :: verdict
  show "a \<le> b \<Longrightarrow> b \<le> a \<Longrightarrow> a = b"
    by (cases a; cases b) (simp_all add: less_eq_verdict_def)
qed (auto simp: less_eq_verdict_def less_verdict_def)

end

subsection \<open>Findings, reports, samples\<close>

record finding =
  f_Code :: string
  f_Severity :: severity
  f_Dimension :: dimension
  f_Message :: string
  f_Path :: string
  f_Detail :: string

definition add_finding :: "string \<Rightarrow> severity \<Rightarrow> dimension \<Rightarrow> string \<Rightarrow> string \<Rightarrow> string \<Rightarrow> finding" where
  "add_finding code sev dim msg path detail =
     \<lparr>f_Code = code, f_Severity = sev, f_Dimension = dim, f_Message = msg, f_Path = path,
      f_Detail = detail\<rparr>"

record diff =
  d_Path :: string
  d_Old :: string
  d_New :: string

record sample =
  s_Name :: string
  s_Message :: string
  s_Encoding :: string
  s_Data :: string

record sample_result =
  sr_Name :: string
  sr_Message :: string
  sr_Encoding :: string
  sr_Status :: string
  sr_WireEqual :: bool
  sr_JSONEqual :: bool
  sr_Diffs :: "diff list"
  sr_Error :: string

record report =
  rep_Verdict :: verdict
  rep_Findings :: "finding list"
  rep_Samples :: "sample_result list"

subsection \<open>Aggregation\<close>

fun verdictOf_loop :: "verdict \<Rightarrow> finding list \<Rightarrow> verdict" where
  "verdictOf_loop v [] = v"
| "verdictOf_loop v (f # fs) =
     (case f_Severity f of
        SeverityFail \<Rightarrow> VerdictIncompatible
      | SeverityWarn \<Rightarrow> verdictOf_loop VerdictNeedsReview fs
      | SeverityInfo \<Rightarrow> verdictOf_loop v fs)"

definition verdictOf :: "finding list \<Rightarrow> verdict" where
  "verdictOf findings = verdictOf_loop VerdictCompatible findings"

lemma finding_sel [simp]:
  "f_Code (add_finding c s d m p t) = c" "f_Severity (add_finding c s d m p t) = s"
  "f_Dimension (add_finding c s d m p t) = d" "f_Message (add_finding c s d m p t) = m"
  "f_Path (add_finding c s d m p t) = p" "f_Detail (add_finding c s d m p t) = t"
  by (simp_all add: add_finding_def)

lemma verdict_top [simp]: "v \<le> VerdictIncompatible"
  by (cases v) (simp_all add: less_eq_verdict_def)

lemma verdict_bot [simp]: "VerdictCompatible \<le> v"
  by (cases v) (simp_all add: less_eq_verdict_def)

lemma verdict_max_top [simp]:
  "max VerdictIncompatible v = VerdictIncompatible" "max v VerdictIncompatible = VerdictIncompatible"
  by (simp_all add: max_absorb1 max_absorb2)

lemma verdict_max_bot [simp]:
  "max VerdictCompatible v = v" "max v VerdictCompatible = v"
  by (simp_all add: max_absorb1 max_absorb2)

lemma verdict_le_bot [simp]: "v \<le> VerdictCompatible \<longleftrightarrow> v = VerdictCompatible"
  by (cases v) (simp_all add: less_eq_verdict_def)

lemma verdict_top_le [simp]: "VerdictIncompatible \<le> v \<longleftrightarrow> v = VerdictIncompatible"
  by (cases v) (simp_all add: less_eq_verdict_def)

lemma severity_verdict_mono: "severity_verdict s \<le> severity_verdict t \<longleftrightarrow> s \<le> t"
  by (cases s; cases t) (simp_all add: less_eq_verdict_def less_eq_severity_def)

lemma severity_verdict_inj [simp]: "severity_verdict s = severity_verdict t \<longleftrightarrow> s = t"
  by (cases s; cases t) simp_all

locale verdict_aggregator =
  fixes agg :: "finding list \<Rightarrow> verdict"
  assumes agg_Nil: "agg [] = VerdictCompatible"
    and agg_Cons: "agg (f # fs) = max (severity_verdict (f_Severity f)) (agg fs)"
begin

lemma agg_append: "agg (fs @ gs) = max (agg fs) (agg gs)"
  by (induction fs) (simp_all add: agg_Nil agg_Cons max.assoc)

lemma agg_le_iff: "agg fs \<le> v \<longleftrightarrow> (\<forall>f \<in> set fs. severity_verdict (f_Severity f) \<le> v)"
  by (induction fs) (simp_all add: agg_Nil agg_Cons)

lemma agg_mono: "set fs \<subseteq> set gs \<Longrightarrow> agg fs \<le> agg gs"
  using agg_le_iff [of gs "agg gs"] by (auto simp: agg_le_iff)

lemma agg_set: "set fs = set gs \<Longrightarrow> agg fs = agg gs"
  by (intro antisym agg_mono) simp_all

lemma agg_perm: "mset fs = mset gs \<Longrightarrow> agg fs = agg gs"
  by (intro agg_set) (metis set_mset_mset)

lemma agg_compatible: "agg fs = VerdictCompatible \<longleftrightarrow> (\<forall>f \<in> set fs. f_Severity f = SeverityInfo)"
  using agg_le_iff [of fs VerdictCompatible] severity_verdict_inj [of _ SeverityInfo] by simp

lemma agg_incompatible: "agg fs = VerdictIncompatible \<longleftrightarrow> (\<exists>f \<in> set fs. f_Severity f = SeverityFail)"
proof -
  have "severity_verdict s \<le> VerdictNeedsReview \<longleftrightarrow> s \<noteq> SeverityFail" for s
    by (cases s) (simp_all add: less_eq_verdict_def)
  moreover have "v \<le> VerdictNeedsReview \<longleftrightarrow> v \<noteq> VerdictIncompatible" for v
    by (cases v) (simp_all add: less_eq_verdict_def)
  ultimately show ?thesis using agg_le_iff [of fs VerdictNeedsReview] by auto
qed

lemma agg_needs_review:
  "agg fs = VerdictNeedsReview \<longleftrightarrow>
     (\<forall>f \<in> set fs. f_Severity f \<noteq> SeverityFail) \<and> (\<exists>f \<in> set fs. f_Severity f = SeverityWarn)"
  using agg_compatible [of fs] agg_incompatible [of fs]
  by (cases "agg fs") (auto, (metis severity.exhaust)+)

end

lemma verdictOf_loop_max:
  "v \<noteq> VerdictIncompatible \<Longrightarrow> verdictOf_loop v fs = max v (verdictOf_loop VerdictCompatible fs)"
proof (induction fs arbitrary: v)
  case (Cons f fs)
  from Cons.prems have nr: "max v VerdictNeedsReview = VerdictNeedsReview"
    by (cases v) (simp_all add: max_def less_eq_verdict_def)
  show ?case
    using Cons.IH [of v] Cons.IH [of VerdictNeedsReview] Cons.prems
    by (cases "f_Severity f") (simp_all add: nr flip: max.assoc)
qed simp

interpretation vo: verdict_aggregator verdictOf
proof
  fix f fs
  show "verdictOf (f # fs) = max (severity_verdict (f_Severity f)) (verdictOf fs)"
    using verdictOf_loop_max [of VerdictNeedsReview fs]
    by (cases "f_Severity f") (simp_all add: verdictOf_def)
qed (simp add: verdictOf_def)

subsection \<open>Findings without a warning or a failure\<close>

definition all_info :: "finding list \<Rightarrow> bool" where
  "all_info fs \<longleftrightarrow> (\<forall>f \<in> set fs. f_Severity f = SeverityInfo)"

definition no_fail :: "finding list \<Rightarrow> bool" where
  "no_fail fs \<longleftrightarrow> (\<forall>f \<in> set fs. f_Severity f \<noteq> SeverityFail)"

lemma all_info_simps [simp]:
  "all_info []" "all_info (f # fs) \<longleftrightarrow> f_Severity f = SeverityInfo \<and> all_info fs"
  "all_info (fs @ gs) \<longleftrightarrow> all_info fs \<and> all_info gs"
  "all_info (concat (map g xs)) \<longleftrightarrow> (\<forall>x \<in> set xs. all_info (g x))"
  by (auto simp: all_info_def)

lemma no_fail_simps [simp]:
  "no_fail []" "no_fail (f # fs) \<longleftrightarrow> f_Severity f \<noteq> SeverityFail \<and> no_fail fs"
  "no_fail (fs @ gs) \<longleftrightarrow> no_fail fs \<and> no_fail gs"
  "no_fail (concat (map g xs)) \<longleftrightarrow> (\<forall>x \<in> set xs. no_fail (g x))"
  by (auto simp: no_fail_def)

lemma all_info_no_fail: "all_info fs \<Longrightarrow> no_fail fs"
  by (simp add: all_info_def no_fail_def)

lemma verdictOf_compatible: "verdictOf fs = VerdictCompatible \<longleftrightarrow> all_info fs"
  by (simp add: all_info_def vo.agg_compatible)

lemma verdictOf_incompatible: "verdictOf fs = VerdictIncompatible \<longleftrightarrow> \<not> no_fail fs"
  by (auto simp: no_fail_def vo.agg_incompatible)

lemma all_info_set: "set fs = set gs \<Longrightarrow> all_info fs = all_info gs"
  by (simp add: all_info_def)

lemma no_fail_set: "set fs = set gs \<Longrightarrow> no_fail fs = no_fail gs"
  by (simp add: no_fail_def)

text \<open>
  \<open>verdictOf\<close> returns INCOMPATIBLE exactly when some finding is FAIL, NEEDS_REVIEW exactly
  when none is FAIL and some is WARN, and COMPATIBLE exactly when every finding is INFO:
  nothing unproven counts as a pass, and neither the order nor the number of findings matters.
\<close>
theorem verdictOf_meaning:
  "verdictOf fs =
     (if SeverityFail \<in> f_Severity ` set fs then VerdictIncompatible
      else if SeverityWarn \<in> f_Severity ` set fs then VerdictNeedsReview
      else VerdictCompatible)"
  using vo.agg_incompatible [of fs] vo.agg_needs_review [of fs]
  by (cases "verdictOf fs") (auto simp: image_iff eq_commute split: if_splits)

end
