(* ===== verification/Descriptors.thy ===== *)
theory Descriptors
  imports Compat_Types
begin

text \<open>
  The descriptor interface the checker reads (package \<open>protoreflect\<close>): one record or
  datatype per descriptor, one field per accessor the program calls, and the registry
  \<open>protoregistry.Files\<close> as a record of its three lookup operations. Descriptors come from
  the compiler, which is not part of the program: they are data and parameters here, and
  what the checker relies on (paths and full names identify what they name) is the predicate
  \<open>files_ok\<close>. \<open>mk_files\<close> builds a registry from a list of files, with the iteration order
  of the list; it is used to run the checker on concrete schemas.
\<close>

datatype kind =
    BoolKind | EnumKind | Int32Kind | Sint32Kind | Uint32Kind | Int64Kind | Sint64Kind
  | Uint64Kind | Sfixed32Kind | Fixed32Kind | FloatKind | Sfixed64Kind | Fixed64Kind
  | DoubleKind | StringKind | BytesKind | MessageKind | GroupKind

fun kind_String :: "kind \<Rightarrow> string" where
  "kind_String BoolKind = ''bool''"
| "kind_String EnumKind = ''enum''"
| "kind_String Int32Kind = ''int32''"
| "kind_String Sint32Kind = ''sint32''"
| "kind_String Uint32Kind = ''uint32''"
| "kind_String Int64Kind = ''int64''"
| "kind_String Sint64Kind = ''sint64''"
| "kind_String Uint64Kind = ''uint64''"
| "kind_String Sfixed32Kind = ''sfixed32''"
| "kind_String Fixed32Kind = ''fixed32''"
| "kind_String FloatKind = ''float''"
| "kind_String Sfixed64Kind = ''sfixed64''"
| "kind_String Fixed64Kind = ''fixed64''"
| "kind_String DoubleKind = ''double''"
| "kind_String StringKind = ''string''"
| "kind_String BytesKind = ''bytes''"
| "kind_String MessageKind = ''message''"
| "kind_String GroupKind = ''group''"

datatype cardinality = Optional | Required | Repeated

datatype syntax_level = Proto2 | Proto3 | Editions

text \<open>
  The dynamic values a \<open>protoreflect.Value\<close> holds for scalars, with their Go types. Floats
  are bit patterns. \<open>VInvalid\<close> is the empty \<open>Value\<close> (its \<open>Interface()\<close> is nil), which
  \<open>Default()\<close> returns for repeated and message fields.
\<close>

datatype goval =
    VBool bool | VInt32 int | VInt64 int | VUint32 int | VUint64 int
  | VFloat32 int | VFloat64 int | VString string | VBytes string | VEnum int | VInvalid

record enum_value =
  ev_Name :: string
  ev_Number :: int

record enum_desc =
  ed_FullName :: string
  ed_Syntax :: syntax_level
  ed_Values :: "enum_value list"
  ed_ReservedRanges :: "(int \<times> int) list"
  ed_ReservedNames :: "string list"

record oneof_desc =
  od_Name :: string
  od_IsSynthetic :: bool
  od_FieldsLen :: nat

text \<open>The key and value types of a map field, from its generated entry message.\<close>

record map_entry =
  me_Key :: kind
  me_Value :: kind
  me_ValueEnum :: enum_desc
  me_ValueMessage :: string

record field_desc =
  fd_Name :: string
  fd_Number :: int
  fd_JSONName :: string
  fd_Kind :: kind
  fd_Cardinality :: cardinality
  fd_MapEntry :: "map_entry option"
  fd_IsPacked :: bool
  fd_HasDefault :: bool
  fd_Default :: goval
  fd_ContainingOneof :: "oneof_desc option"
  fd_Enum :: enum_desc
  fd_Message :: string

definition IsMap :: "field_desc \<Rightarrow> bool" where
  "IsMap fd = (fd_MapEntry fd \<noteq> None)"

definition IsList :: "field_desc \<Rightarrow> bool" where
  "IsList fd = (fd_Cardinality fd = Repeated \<and> \<not> IsMap fd)"

definition no_enum :: enum_desc where
  "no_enum = \<lparr>ed_FullName = '''', ed_Syntax = Proto3, ed_Values = [], ed_ReservedRanges = [],
     ed_ReservedNames = []\<rparr>"

text \<open>
  \<open>MapKey()\<close> and \<open>MapValue()\<close>: the two fields of the entry message, always called
  \<open>key\<close> (number 1) and \<open>value\<close> (number 2) and always singular. The program calls them
  on map fields only.
\<close>

definition entry_field :: "string \<Rightarrow> int \<Rightarrow> kind \<Rightarrow> enum_desc \<Rightarrow> string \<Rightarrow> field_desc" where
  "entry_field name num k ed msg =
     \<lparr>fd_Name = name, fd_Number = num, fd_JSONName = name, fd_Kind = k, fd_Cardinality = Optional,
      fd_MapEntry = None, fd_IsPacked = False, fd_HasDefault = False, fd_Default = VInvalid,
      fd_ContainingOneof = None, fd_Enum = ed, fd_Message = msg\<rparr>"

definition MapKey :: "field_desc \<Rightarrow> field_desc" where
  "MapKey fd = (case fd_MapEntry fd of
     None \<Rightarrow> fd | Some me \<Rightarrow> entry_field ''key'' 1 (me_Key me) no_enum [])"

definition MapValue :: "field_desc \<Rightarrow> field_desc" where
  "MapValue fd = (case fd_MapEntry fd of
     None \<Rightarrow> fd
   | Some me \<Rightarrow> entry_field ''value'' 2 (me_Value me) (me_ValueEnum me) (me_ValueMessage me))"

definition enum_ByNumber :: "enum_desc \<Rightarrow> int \<Rightarrow> enum_value option" where
  "enum_ByNumber ed num = find (\<lambda>v. ev_Number v = num) (ed_Values ed)"

datatype message_desc = MessageDesc
  (md_FullName: string)
  (md_IsMapEntry: bool)
  (md_Fields: "field_desc list")
  (md_Oneofs: "oneof_desc list")
  (md_ReservedRanges: "(int \<times> int) list")
  (md_ReservedNames: "string list")
  (md_Enums: "enum_desc list")
  (md_Messages: "message_desc list")

definition fields_ByNumber :: "message_desc \<Rightarrow> int \<Rightarrow> field_desc option" where
  "fields_ByNumber md num = find (\<lambda>f. fd_Number f = num) (md_Fields md)"

record file_desc =
  file_Path :: string
  file_Package :: string
  file_Messages :: "message_desc list"
  file_Enums :: "enum_desc list"

datatype descriptor = DMessage message_desc | DEnum enum_desc | DOther

record files =
  RangeFiles :: "file_desc list"
  FindFileByPath :: "string \<Rightarrow> file_desc option"
  FindDescriptorByName :: "string \<Rightarrow> descriptor option"

subsection \<open>The declarations of a closure\<close>

fun all_messages :: "message_desc \<Rightarrow> message_desc list" where
  "all_messages (MessageDesc n me fs os rr rn es ms) =
     MessageDesc n me fs os rr rn es ms # concat (map all_messages ms)"

definition file_messages :: "file_desc \<Rightarrow> message_desc list" where
  "file_messages fd = concat (map all_messages (file_Messages fd))"

definition file_enums :: "file_desc \<Rightarrow> enum_desc list" where
  "file_enums fd = file_Enums fd @ concat (map md_Enums (file_messages fd))"

definition files_ok :: "files \<Rightarrow> bool" where
  "files_ok F \<longleftrightarrow>
     distinct (map file_Path (RangeFiles F)) \<and>
     (\<forall>p fd. FindFileByPath F p = Some fd \<longleftrightarrow> fd \<in> set (RangeFiles F) \<and> file_Path fd = p) \<and>
     (\<forall>n md. FindDescriptorByName F n = Some (DMessage md) \<longleftrightarrow>
        md_FullName md = n \<and> (\<exists>fd \<in> set (RangeFiles F). md \<in> set (file_messages fd))) \<and>
     (\<forall>n ed. FindDescriptorByName F n = Some (DEnum ed) \<longleftrightarrow>
        ed_FullName ed = n \<and> (\<exists>fd \<in> set (RangeFiles F). ed \<in> set (file_enums fd)))"

definition mk_files :: "file_desc list \<Rightarrow> files" where
  "mk_files fs =
     \<lparr>RangeFiles = fs,
      FindFileByPath = (\<lambda>p. find (\<lambda>fd. file_Path fd = p) fs),
      FindDescriptorByName = (\<lambda>n.
        case find (\<lambda>md. md_FullName md = n) (concat (map file_messages fs)) of
          Some md \<Rightarrow> Some (DMessage md)
        | None \<Rightarrow> map_option DEnum (find (\<lambda>ed. ed_FullName ed = n) (concat (map file_enums fs))))\<rparr>"

definition distinct_decls :: "file_desc list \<Rightarrow> bool" where
  "distinct_decls fs \<longleftrightarrow>
     distinct (map file_Path fs) \<and>
     distinct (map md_FullName (concat (map file_messages fs)) @
               map ed_FullName (concat (map file_enums fs)))"

lemma find_unique:
  assumes "distinct (map k xs)"
  shows "find (\<lambda>x. k x = a) xs = Some x \<longleftrightarrow> x \<in> set xs \<and> k x = a"
  using assms by (induction xs) auto

lemma files_ok_mk_files:
  assumes "distinct_decls fs"
  shows "files_ok (mk_files fs)"
proof -
  let ?ms = "concat (map file_messages fs)" and ?es = "concat (map file_enums fs)"
  from assms have paths: "distinct (map file_Path fs)"
    and ms: "distinct (map md_FullName ?ms)" and es: "distinct (map ed_FullName ?es)"
    and disj: "md_FullName ` set ?ms \<inter> ed_FullName ` set ?es = {}"
    by (auto simp: distinct_decls_def)
  let ?F = "FindDescriptorByName (mk_files fs)"
  have msg: "?F n = Some (DMessage md) \<longleftrightarrow> find (\<lambda>m. md_FullName m = n) ?ms = Some md" for n md
    by (auto simp: mk_files_def split: option.splits)
  have none: "find (\<lambda>m. md_FullName m = n) ?ms = None"
    if "find (\<lambda>e. ed_FullName e = n) ?es = Some ed" for n ed
    using that disj find_unique [OF es, of n ed] by (fastforce simp: find_None_iff)
  have enum: "?F n = Some (DEnum ed) \<longleftrightarrow> find (\<lambda>e. ed_FullName e = n) ?es = Some ed" for n ed
    using none [of n ed] by (auto simp: mk_files_def split: option.splits)
  have path: "FindFileByPath (mk_files fs) p = Some fd \<longleftrightarrow> fd \<in> set fs \<and> file_Path fd = p" for p fd
    using find_unique [OF paths] by (simp add: mk_files_def)
  show ?thesis
    unfolding files_ok_def path msg enum find_unique [OF ms] find_unique [OF es]
    using paths by (auto simp: mk_files_def)
qed

subsection \<open>Concrete fields\<close>

definition plain_field :: "string \<Rightarrow> int \<Rightarrow> kind \<Rightarrow> field_desc" where
  "plain_field name num k =
     \<lparr>fd_Name = name, fd_Number = num, fd_JSONName = name, fd_Kind = k, fd_Cardinality = Optional,
      fd_MapEntry = None, fd_IsPacked = False, fd_HasDefault = False, fd_Default = VInvalid,
      fd_ContainingOneof = None, fd_Enum = no_enum, fd_Message = ''''\<rparr>"

lemma plain_field_sel [simp]:
  "fd_Name (plain_field n i k) = n" "fd_Number (plain_field n i k) = i"
  "fd_JSONName (plain_field n i k) = n" "fd_Kind (plain_field n i k) = k"
  "fd_Cardinality (plain_field n i k) = Optional" "fd_MapEntry (plain_field n i k) = None"
  "\<not> fd_HasDefault (plain_field n i k)" "fd_ContainingOneof (plain_field n i k) = None"
  by (simp_all add: plain_field_def)

end
