(* ===== verification/Base64.thy ===== *)
theory Base64
  imports Prelude
begin

text \<open>
  The standard base64 encoding (\<open>base64.StdEncoding\<close> of the Go library), as the sample
  verifier uses it: \<open>EncodeToString\<close> to print bytes fields and \<open>DecodeString\<close> to read wire
  samples. Decoding goes quantum by quantum like the library: line breaks are skipped, padding
  is required, the unused low bits of the last quantum are ignored, and an error carries the
  offset of the offending byte.
\<close>

definition b64_alphabet :: string where
  "b64_alphabet = ''ABCDEFGHIJKLMNOPQRSTUVWXYZabcdefghijklmnopqrstuvwxyz0123456789+/''"

definition ord :: "char \<Rightarrow> nat" where
  "ord c = of_char c"

definition enc6 :: "nat \<Rightarrow> char" where
  "enc6 n = b64_alphabet ! (n mod 64)"

definition dec6 :: "char \<Rightarrow> nat option" where
  "dec6 c = map_of (zip b64_alphabet [0..<64]) c"

fun EncodeToString :: "string \<Rightarrow> string" where
  "EncodeToString [] = []"
| "EncodeToString [a] = [enc6 (ord a div 4), enc6 (ord a mod 4 * 16), CHR ''='', CHR ''='']"
| "EncodeToString [a, b] =
     [enc6 (ord a div 4), enc6 (ord a mod 4 * 16 + ord b div 16), enc6 (ord b mod 16 * 4), CHR ''='']"
| "EncodeToString (a # b # c # rest) =
     [enc6 (ord a div 4), enc6 (ord a mod 4 * 16 + ord b div 16),
      enc6 (ord b mod 16 * 4 + ord c div 64), enc6 (ord c mod 64)] @ EncodeToString rest"

definition is_newline :: "char \<Rightarrow> bool" where
  "is_newline c = (c = CHR 0x0A \<or> c = CHR 0x0D)"

fun skip_newlines :: "string \<Rightarrow> nat \<Rightarrow> string \<times> nat" where
  "skip_newlines [] si = ([], si)"
| "skip_newlines (c # cs) si = (if is_newline c then skip_newlines cs (Suc si) else (c # cs, si))"

definition quantum_bytes :: "nat list \<Rightarrow> string" where
  "quantum_bytes ds =
     (let d = (\<lambda>i. if i < length ds then ds ! i else 0);
          v = d 0 * 2 ^ 18 + d 1 * 2 ^ 12 + d 2 * 2 ^ 6 + d 3 in
      take (length ds - 1)
        [char_of (v div 2 ^ 16), char_of (v div 2 ^ 8), char_of v])"

text \<open>
  One quantum: the rest of the input and its offset, the total length, the sextets read so
  far. The result is an error offset, or the remaining input with its offset and the bytes.
\<close>

fun decodeQuantum :: "string \<Rightarrow> nat \<Rightarrow> nat \<Rightarrow> nat list \<Rightarrow> nat + (string \<times> nat \<times> string)" where
  "decodeQuantum [] si len ds =
     (if ds = [] then Inr ([], si, []) else
      if length ds \<ge> 4 then Inr ([], si, quantum_bytes ds) else Inl (si - length ds))"
| "decodeQuantum (c # cs) si len ds =
     (if length ds \<ge> 4 then Inr (c # cs, si, quantum_bytes ds) else
      case dec6 c of
        Some v \<Rightarrow> decodeQuantum cs (Suc si) len (ds @ [v])
      | None \<Rightarrow>
          if is_newline c then decodeQuantum cs (Suc si) len ds
          else if c \<noteq> CHR ''='' \<or> length ds < 2 then Inl si
          else
            (case (if length ds = 2 then
                     (case skip_newlines cs (Suc si) of
                        ([], s) \<Rightarrow> Inl len
                      | (p # ps, s) \<Rightarrow> if p \<noteq> CHR ''='' then Inl (s - 1) else Inr (ps, Suc s))
                   else Inr (cs, Suc si)) of
               Inl err \<Rightarrow> Inl err
             | Inr (rest, s) \<Rightarrow>
                 (case skip_newlines rest s of
                    ([], s') \<Rightarrow> Inr ([], s', quantum_bytes ds)
                  | (_ # _, s') \<Rightarrow> Inl s')))"

lemma skip_newlines_length: "length (fst (skip_newlines cs si)) \<le> length cs"
  by (induction cs si rule: skip_newlines.induct) auto

lemma decodeQuantum_consumes:
  "decodeQuantum cs si len ds = Inr (rest, si', bs) \<Longrightarrow>
     length rest \<le> length cs \<and> (length ds < 4 \<and> cs \<noteq> [] \<longrightarrow> length rest < length cs)"
proof (induction cs si len ds rule: decodeQuantum.induct)
  case (2 c cs si len ds)
  show ?case
  proof (cases "length ds \<ge> 4")
    case False
    show ?thesis
    proof (cases "dec6 c")
      case None
      then show ?thesis using 2 False
        by (fastforce split: if_splits sum.splits list.splits prod.splits)
    qed (use 2 False in fastforce)
  qed (use 2 in simp)
qed (auto split: if_splits)

function decode_from :: "string \<Rightarrow> nat \<Rightarrow> nat \<Rightarrow> nat + string" where
  "decode_from cs si len =
     (if cs = [] then Inr []
      else case decodeQuantum cs si len [] of
        Inl err \<Rightarrow> Inl err
      | Inr (rest, si', bs) \<Rightarrow>
          (case decode_from rest si' len of Inl err \<Rightarrow> Inl err | Inr tail \<Rightarrow> Inr (bs @ tail)))"
  by pat_completeness auto
termination
  by (relation "measure (\<lambda>(cs, _, _). length cs)") (auto dest: decodeQuantum_consumes)

declare decode_from.simps [simp del]

definition DecodeString :: "string \<Rightarrow> nat + string" where
  "DecodeString s = decode_from s 0 (length s)"

definition corrupt_input_error :: "go_env \<Rightarrow> nat \<Rightarrow> string" where
  "corrupt_input_error e n = sprintf e ''illegal base64 data at input byte %d'' [AInt (int n)]"

subsection \<open>Round trip\<close>

lemma ord_less [simp]: "ord c < 256"
  unfolding ord_def by (metis char_of_mod_256 mod_less_divisor of_char_of zero_less_numeral of_char_mod_256)

lemma char_of_ord [simp]: "char_of (ord c) = c"
  by (simp add: ord_def)

lemma dec6_enc6 [simp]: "n < 64 \<Longrightarrow> dec6 (enc6 n) = Some n"
proof -
  have "list_all (\<lambda>n. dec6 (enc6 n) = Some n) [0..<64]" by code_simp
  then show "n < 64 \<Longrightarrow> dec6 (enc6 n) = Some n" by (simp add: list_all_iff)
qed

lemma dec6_pad [simp]: "dec6 (CHR ''='') = None"
  by code_simp

lemma shuffle: "qa * 2 ^ 18 + (ra * 16 + qb) * 2 ^ 12 + (rb * 4 + qc) * 2 ^ 6 + rc =
    (qa * 4 + ra) * 65536 + (qb * 16 + rb) * 256 + (qc * 64 + rc)" for qa ra qb rb qc rc :: nat
  by (simp add: algebra_simps)

lemma unpack: "(a * 65536 + b * 256 + c) div 65536 = a" "(a * 65536 + b * 256 + c) div 256 mod 256 = b"
    "(a * 65536 + b * 256 + c) mod 256 = c" if "b < 256" "c < 256" for a b c :: nat
proof -
  have eq: "a * 65536 + b * 256 + c = (a * 256 + b) * 256 + c" by (simp add: algebra_simps)
  have "(b * 256 + c) div 65536 = 0" using that by simp
  then show "(a * 65536 + b * 256 + c) div 65536 = a"
    using div_mult_self3 [of 65536 a "b * 256 + c"] by (simp add: add.assoc)
  show "(a * 65536 + b * 256 + c) div 256 mod 256 = b"
    unfolding eq using that by (simp only: div_mult_self3) simp
  show "(a * 65536 + b * 256 + c) mod 256 = c"
    unfolding eq using that by (simp only: mod_mult_self3) simp
qed

lemma quantum4: "quantum_bytes [a div 4, a mod 4 * 16 + b div 16, b mod 16 * 4 + c div 64, c mod 64] =
    [char_of a, char_of b, char_of c]"
  if "a < 256" "b < 256" "c < 256" for a b c :: nat
proof -
  let ?v = "a div 4 * 2 ^ 18 + (a mod 4 * 16 + b div 16) * 2 ^ 12 + (b mod 16 * 4 + c div 64) * 2 ^ 6 + c mod 64"
  have v: "?v = a * 65536 + b * 256 + c" 
    using shuffle [of "a div 4" "a mod 4" "b div 16" "b mod 16" "c div 64" "c mod 64"]
    by (simp only: div_mult_mod_eq)
  have "?v div 2 ^ 16 = a" "?v div 2 ^ 8 mod 256 = b" "?v mod 256 = c"
    unfolding v using unpack [of b c a] that by simp_all
  then have "char_of (?v div 2 ^ 16) = char_of a" "char_of (?v div 2 ^ 8) = char_of b"
      "char_of ?v = (char_of c :: char)"
    by (metis char_of_mod_256)+
  then show ?thesis by (simp add: quantum_bytes_def Let_def)
qed

lemma quantum3: "quantum_bytes [a div 4, a mod 4 * 16 + b div 16, b mod 16 * 4] = [char_of a, char_of b]"
  if "a < 256" "b < 256" for a b :: nat
proof -
  let ?v = "a div 4 * 2 ^ 18 + (a mod 4 * 16 + b div 16) * 2 ^ 12 + b mod 16 * 4 * 2 ^ 6"
  have v: "?v = a * 65536 + b * 256"
    using shuffle [of "a div 4" "a mod 4" "b div 16" "b mod 16" 0 0]
    by (simp only: div_mult_mod_eq mult_0 add_0_right)
  have "?v div 2 ^ 16 = a" "?v div 2 ^ 8 mod 256 = b"
    unfolding v using unpack [of b 0 a] that by simp_all
  then have "char_of (?v div 2 ^ 16) = char_of a" "char_of (?v div 2 ^ 8) = (char_of b :: char)"
    by (metis char_of_mod_256)+
  then show ?thesis by (simp add: quantum_bytes_def Let_def)
qed

lemma quantum2: "quantum_bytes [a div 4, a mod 4 * 16] = [char_of a]" if "a < 256" for a :: nat
proof -
  let ?v = "a div 4 * 2 ^ 18 + a mod 4 * 16 * 2 ^ 12"
  have v: "?v = a * 65536" 
    using shuffle [of "a div 4" "a mod 4" 0 0 0 0] by (simp only: div_mult_mod_eq mult_0 add_0_right)
  have "?v div 2 ^ 16 = a" unfolding v by simp
  then show ?thesis by (simp add: quantum_bytes_def)
qed

lemma sextets: "x div 4 < 64" "x mod 4 * 16 + y div 16 < 64" "y mod 16 * 4 + z div 64 < 64"
    "z mod 64 < 64" "x mod 4 * 16 < 64" "y mod 16 * 4 < 64"
  if "x < 256" "y < 256" "z < 256" for x y z :: nat
proof -
  have d: "x div 4 < 64" "y div 16 < 16" "z div 64 < 4" using that by simp_all
  have m: "x mod 4 < 4" "y mod 16 < 16" "z mod 64 < 64" by simp_all
  from d m show "x div 4 < 64" "x mod 4 * 16 + y div 16 < 64" "y mod 16 * 4 + z div 64 < 64"
    "z mod 64 < 64" "x mod 4 * 16 < 64" "y mod 16 * 4 < 64" by linarith+
qed

lemma decode_encode_from: "decode_from (EncodeToString bs) si len = Inr bs"
proof (induction bs arbitrary: si rule: EncodeToString.induct)
  case 1
  show ?case by (simp add: decode_from.simps)
next
  case (2 a)
  show ?case
    using quantum2 [of "ord a"] sextets [of "ord a" "ord a" "ord a"]
    by (simp add: decode_from.simps is_newline_def)
next
  case (3 a b)
  show ?case
    using quantum3 [of "ord a" "ord b"] sextets [of "ord a" "ord b" "ord b"]
    by (simp add: decode_from.simps is_newline_def)
next
  case (4 a b c rest)
  have q: "decodeQuantum (EncodeToString (a # b # c # rest)) si len [] =
      Inr (EncodeToString rest, si + 4, [a, b, c])"
    using quantum4 [of "ord a" "ord b" "ord c"] 
      sextets [of "ord a" "ord b" "ord c"]
    by (cases "EncodeToString rest") simp_all
  show ?case
    by (subst decode_from.simps) (simp only: q, simp add: "4.IH")
qed

text \<open>
  Base64 round trip: \<open>DecodeString\<close> of \<open>EncodeToString\<close> gives back every byte sequence, so a
  wire sample that was encoded with the standard encoding reaches the parser unchanged.
\<close>
lemma base64_roundtrip: "DecodeString (EncodeToString bs) = Inr bs"
  by (simp add: DecodeString_def decode_encode_from)

end
