(* ===== verification/Format.thy ===== *)
theory Format
  imports Descriptors Base64
begin

text \<open>
  Dynamic values (\<open>protoreflect.Value\<close>, \<open>protoreflect.Message\<close>) and the formatting helpers at
  the end of \<open>internal/compat/sample.go\<close>, which the field checks share, with the comparison
  of two interface values as Go performs it (\<open>valuesEqual\<close> of \<open>field.go\<close>): values of
  different dynamic types are unequal, floats compare as IEEE numbers, and comparing two
  byte slices panics because slices are not comparable.
\<close>

datatype pvalue =
    PScalar goval
  | PMessage dmsg
  | PList "pvalue list"
  | PMap "(goval \<times> pvalue) list"
and dmsg = DMsg
  (dm_Descriptor: message_desc)
  (dm_Fields: "(field_desc \<times> pvalue) list")
  (dm_Unknown: string)

definition is_nan32 :: "int \<Rightarrow> bool" where
  "is_nan32 b = (b div 2 ^ 23 mod 256 = 255 \<and> b mod 2 ^ 23 \<noteq> 0)"

definition is_nan64 :: "int \<Rightarrow> bool" where
  "is_nan64 b = (b div 2 ^ 52 mod 2048 = 2047 \<and> b mod 2 ^ 52 \<noteq> 0)"

fun go_equal :: "goval \<Rightarrow> goval \<Rightarrow> fault + bool" where
  "go_equal (VBytes a) (VBytes b) = Inl (Panic ''runtime error: comparing uncomparable type []uint8'')"
| "go_equal (VFloat32 a) (VFloat32 b) =
     Inr (\<not> is_nan32 a \<and> \<not> is_nan32 b \<and> (a = b \<or> a mod 2 ^ 31 = 0 \<and> b mod 2 ^ 31 = 0))"
| "go_equal (VFloat64 a) (VFloat64 b) =
     Inr (\<not> is_nan64 a \<and> \<not> is_nan64 b \<and> (a = b \<or> a mod 2 ^ 63 = 0 \<and> b mod 2 ^ 63 = 0))"
| "go_equal a b = Inr (a = b)"

definition valuesEqual :: "goval \<Rightarrow> goval \<Rightarrow> fault + bool" where
  "valuesEqual a b = go_equal a b"

fun join :: "string \<Rightarrow> string list \<Rightarrow> string" where
  "join sep [] = []"
| "join sep [s] = s"
| "join sep (s # t # ss) = s @ sep @ join sep (t # ss)"

fun show_goval :: "go_env \<Rightarrow> goval \<Rightarrow> string" where
  "show_goval e (VBool b) = show_bool b"
| "show_goval e (VInt32 i) = itoa i"
| "show_goval e (VInt64 i) = itoa i"
| "show_goval e (VUint32 i) = itoa i"
| "show_goval e (VUint64 i) = itoa i"
| "show_goval e (VFloat32 b) = showFloat e 32 b"
| "show_goval e (VFloat64 b) = showFloat e 64 b"
| "show_goval e (VString s) = s"
| "show_goval e (VBytes bs) = ''['' @ join '' '' (map (\<lambda>c. show_nat (ord c)) bs) @ '']''"
| "show_goval e (VEnum i) = itoa i"
| "show_goval e VInvalid = ''<nil>''"

definition joinPath :: "string \<Rightarrow> string \<Rightarrow> string" where
  "joinPath base elem = (if base = '''' then elem else base @ ''.'' @ elem)"

definition mapKeyString :: "go_env \<Rightarrow> goval \<Rightarrow> string" where
  "mapKeyString e k = show_goval e k"

definition enumName :: "go_env \<Rightarrow> field_desc \<Rightarrow> int \<Rightarrow> string" where
  "enumName e fd num =
     (case enum_ByNumber (fd_Enum fd) num of
        Some ev \<Rightarrow> ev_Name ev
      | None \<Rightarrow> sprintf e ''<unknown:%d>'' [AInt num])"

definition formatEnum :: "go_env \<Rightarrow> field_desc \<Rightarrow> int \<Rightarrow> string" where
  "formatEnum e fd num = sprintf e ''%s(%d)'' [AStr (enumName e fd num), AInt num]"

text \<open>
  \<open>Value.Enum\<close> and \<open>Value.Bytes\<close> panic on a value of another type; \<open>Value.String\<close> formats it.
\<close>

definition formatValue :: "go_env \<Rightarrow> field_desc \<Rightarrow> goval \<Rightarrow> fault + string" where
  "formatValue e fd v =
     (case fd_Kind fd of
        EnumKind \<Rightarrow> (case v of VEnum n \<Rightarrow> Inr (formatEnum e fd n)
                     | _ \<Rightarrow> Inl (Panic ''type mismatch: cannot convert to enum''))
      | StringKind \<Rightarrow> Inr (sprintf e ''%q'' [AStr (show_goval e v)])
      | BytesKind \<Rightarrow> (case v of VBytes bs \<Rightarrow> Inr (EncodeToString bs)
                      | _ \<Rightarrow> Inl (Panic ''type mismatch: cannot convert to bytes''))
      | MessageKind \<Rightarrow> Inr ''{...}''
      | GroupKind \<Rightarrow> Inr ''{...}''
      | _ \<Rightarrow> Inr (show_goval e v))"

definition scalar_of :: "pvalue \<Rightarrow> goval" where
  "scalar_of v = (case v of PScalar g \<Rightarrow> g | _ \<Rightarrow> VInvalid)"

text \<open>
  The accessors \<open>Value.Map\<close>, \<open>Value.List\<close>, \<open>Value.Message\<close> and \<open>Value.Enum\<close>: each panics on a
  value of another type.
\<close>

definition value_Map :: "pvalue \<Rightarrow> fault + (goval \<times> pvalue) list" where
  "value_Map v = (case v of PMap kvs \<Rightarrow> Inr kvs | _ \<Rightarrow> Inl (Panic ''type mismatch: cannot convert to map''))"

definition value_List :: "pvalue \<Rightarrow> fault + pvalue list" where
  "value_List v = (case v of PList vs \<Rightarrow> Inr vs | _ \<Rightarrow> Inl (Panic ''type mismatch: cannot convert to list''))"

definition value_Message :: "pvalue \<Rightarrow> fault + dmsg" where
  "value_Message v = (case v of PMessage m \<Rightarrow> Inr m | _ \<Rightarrow> Inl (Panic ''type mismatch: cannot convert to message''))"

definition value_Enum :: "pvalue \<Rightarrow> fault + int" where
  "value_Enum v = (case v of PScalar (VEnum n) \<Rightarrow> Inr n
     | _ \<Rightarrow> Inl (Panic ''type mismatch: cannot convert to enum''))"

fun map_run :: "('a \<Rightarrow> fault + 'b) \<Rightarrow> 'a list \<Rightarrow> fault + 'b list" where
  "map_run f [] = Inr []"
| "map_run f (x # xs) =
     (case f x of Inl p \<Rightarrow> Inl p
      | Inr y \<Rightarrow> (case map_run f xs of Inl p \<Rightarrow> Inl p | Inr ys \<Rightarrow> Inr (y # ys)))"

definition formatField :: "go_env \<Rightarrow> field_desc \<Rightarrow> pvalue \<Rightarrow> fault + string" where
  "formatField e fd v =
     (if IsMap fd then
        (case value_Map v of
           Inl p \<Rightarrow> Inl p
         | Inr kvs \<Rightarrow>
             (case map_run (\<lambda>kv. case formatValue e (MapValue fd) (scalar_of (snd kv)) of
                    Inl p \<Rightarrow> Inl p
                  | Inr s \<Rightarrow> Inr (sprintf e ''%v: %s'' [AStr (show_goval e (fst kv)), AStr s])) (take 4 kvs) of
                Inl p \<Rightarrow> Inl p
              | Inr parts \<Rightarrow> Inr (''{'' @ join '', '' parts @ ''}'')))
      else if IsList fd then
        (case value_List v of
           Inl p \<Rightarrow> Inl p
         | Inr l \<Rightarrow>
             (case map_run (\<lambda>x. formatValue e fd (scalar_of x)) (take 4 l) of
                Inl p \<Rightarrow> Inl p
              | Inr parts \<Rightarrow>
                  Inr (''['' @ join '', ''
                    (parts @ (if length l > 4 then [sprintf e ''... +%d'' [AInt (int (length l) - 4)]] else []))
                    @ '']'')))
      else formatValue e fd (scalar_of v))"

lemma valuesEqual_refl:
  "valuesEqual v v = Inr True \<longleftrightarrow>
     (case v of VBytes _ \<Rightarrow> False | VFloat32 b \<Rightarrow> \<not> is_nan32 b | VFloat64 b \<Rightarrow> \<not> is_nan64 b | _ \<Rightarrow> True)"
  by (cases v) (simp_all add: valuesEqual_def)

end
