(* ===== verification/Schema.thy ===== *)
theory Schema
  imports Descriptors Format
begin

text \<open>
  \<open>internal/schema/schema.go\<close>: compiling submitted sources into a descriptor set with a content
  hash, and loading a stored descriptor set. The compiler, the descriptor codec and SHA-256 are
  not part of the program: they are the fields of \<open>toolchain\<close>, and \<open>toolchain_ok\<close> collects the
  documented behaviour the program relies on. A linked file is a tree over its imports, which
  the compiler guarantees to be acyclic; the compiler works on the map from paths to contents.
\<close>

record source_file =
  sf_Path :: string
  sf_Content :: string

datatype linked_file = LinkedFile
  (lf_Path: string)
  (lf_Imports: "linked_file list")
  (lf_Desc: file_desc)

record file_proto =
  fdp_Name :: string
  fdp_Rest :: string

text \<open>The error tree of the compiler: joined errors, errors with a position, other errors.\<close>

datatype compile_err = NilErr | Multi "compile_err list" | WithPos string string | Plain string

datatype schema_error =
    NoSources | EmptyPath | DuplicateSource string | CompileError compile_err
  | CanonicalizeFailed string string | MarshalSetFailed string
  | UnmarshalSetFailed string | LinkSetFailed string

record toolchain =
  protocompile :: "(string \<rightharpoonup> string) \<Rightarrow> string list \<Rightarrow> compile_err + linked_file list"
  toFileDescriptorProto :: "linked_file \<Rightarrow> file_proto"
  marshalFile :: "file_proto \<Rightarrow> string + string"
  sha256 :: "string \<Rightarrow> string"
  marshalSet :: "file_proto list \<Rightarrow> string + string"
  unmarshalSet :: "string \<Rightarrow> string + file_proto list"
  newFiles :: "file_proto list \<Rightarrow> string + files"

record compiled =
  c_DescriptorSet :: string
  c_Hash :: string
  c_OwnedPaths :: "string list"
  c_Files :: files

subsection \<open>Error texts\<close>

fun walk_err :: "compile_err \<Rightarrow> string list" where
  "walk_err NilErr = []"
| "walk_err (Multi errs) = concat (map walk_err errs)"
| "walk_err (WithPos pos text) = [''  '' @ pos @ '': '' @ text]"
| "walk_err (Plain text) = [''  '' @ text]"

definition FormatPositions :: "compile_err \<Rightarrow> string" where
  "FormatPositions err =
     (case walk_err err of
        [] \<Rightarrow> ''  unknown compilation error''
      | l # ls \<Rightarrow> fold (\<lambda>l out. out @ [CHR 0x0A] @ l) ls l)"

definition schema_Error :: "go_env \<Rightarrow> schema_error \<Rightarrow> string" where
  "schema_Error e err =
     (case err of
        NoSources \<Rightarrow> ''schema: no source files submitted''
      | EmptyPath \<Rightarrow> ''schema: source file with empty path''
      | DuplicateSource p \<Rightarrow> sprintf e ''schema: duplicate source file %q'' [AStr p]
      | CompileError c \<Rightarrow> ''proto compilation failed:'' @ [CHR 0x0A] @ FormatPositions c
      | CanonicalizeFailed n t \<Rightarrow> sprintf e ''schema: canonicalize %s: %w'' [AStr n, AStr t]
      | MarshalSetFailed t \<Rightarrow> sprintf e ''schema: marshal descriptor set: %w'' [AStr t]
      | UnmarshalSetFailed t \<Rightarrow> sprintf e ''schema: unmarshal descriptor set: %w'' [AStr t]
      | LinkSetFailed t \<Rightarrow> sprintf e ''schema: link descriptor set: %w'' [AStr t])"

subsection \<open>Compiling and loading\<close>

fun collect_sources :: "source_file list \<Rightarrow> (string \<rightharpoonup> string) \<Rightarrow> string list \<Rightarrow>
    schema_error + (string \<rightharpoonup> string) \<times> string list" where
  "collect_sources [] srcs entrypoints = Inr (srcs, entrypoints)"
| "collect_sources (f # fs) srcs entrypoints =
     (if sf_Path f = '''' then Inl EmptyPath
      else if srcs (sf_Path f) \<noteq> None then Inl (DuplicateSource (sf_Path f))
      else collect_sources fs (srcs(sf_Path f \<mapsto> sf_Content f)) (entrypoints @ [sf_Path f]))"

text \<open>The depth-first walk that appends every file after its imports; the state is the pair of
  the seen paths and the files appended so far.\<close>

fun add_file :: "linked_file \<Rightarrow> string list \<times> linked_file list \<Rightarrow> string list \<times> linked_file list" where
  "add_file (LinkedFile path imports desc) st =
     (if path \<in> set (fst st) then st
      else
        (let st' = fold add_file imports (path # fst st, snd st) in
         (fst st', snd st' @ [LinkedFile path imports desc])))"

definition file_closure :: "linked_file list \<Rightarrow> linked_file list" where
  "file_closure linked = snd (fold add_file linked ([], []))"

fun canonicalize :: "toolchain \<Rightarrow> file_proto list \<Rightarrow> schema_error + (string \<times> string) list" where
  "canonicalize tc [] = Inr []"
| "canonicalize tc (fdp # fdps) =
     (case marshalFile tc fdp of
        Inl err \<Rightarrow> Inl (CanonicalizeFailed (fdp_Name fdp) err)
      | Inr b \<Rightarrow> (case canonicalize tc fdps of Inl err \<Rightarrow> Inl err | Inr rest \<Rightarrow> Inr ((fdp_Name fdp, b) # rest)))"

definition hash_input :: "(string \<times> string) list \<Rightarrow> string" where
  "hash_input canonical = concat (map (\<lambda>(path, data). path @ [CHR 0x00] @ data @ [CHR 0x00]) canonical)"

definition Load :: "toolchain \<Rightarrow> string \<Rightarrow> schema_error + files" where
  "Load tc descriptorSet =
     (case unmarshalSet tc descriptorSet of
        Inl err \<Rightarrow> Inl (UnmarshalSetFailed err)
      | Inr fdset \<Rightarrow> (case newFiles tc fdset of Inl err \<Rightarrow> Inl (LinkSetFailed err) | Inr files \<Rightarrow> Inr files))"

definition Compile :: "toolchain \<Rightarrow> source_file list \<Rightarrow> schema_error + compiled" where
  "Compile tc files =
     (if files = [] then Inl NoSources
      else
      (case collect_sources files Map.empty [] of
        Inl err \<Rightarrow> Inl err
      | Inr (srcs, eps) \<Rightarrow>
      (let entrypoints = sort eps in
      (case protocompile tc srcs entrypoints of
        Inl err \<Rightarrow> Inl (CompileError err)
      | Inr linked \<Rightarrow>
      (let fdset = map (toFileDescriptorProto tc) (file_closure linked) in
      (case canonicalize tc fdset of
        Inl err \<Rightarrow> Inl err
      | Inr canonical \<Rightarrow>
      (case marshalSet tc fdset of
        Inl err \<Rightarrow> Inl (MarshalSetFailed err)
      | Inr setBytes \<Rightarrow>
      (case Load tc setBytes of
        Inl err \<Rightarrow> Inl err
      | Inr registry \<Rightarrow>
          Inr \<lparr>c_DescriptorSet = setBytes, c_Hash = sha256 tc (hash_input (sort_key fst canonical)),
            c_OwnedPaths = entrypoints, c_Files = registry\<rparr>))))))))"

subsection \<open>Submitted sources\<close>

definition valid_sources :: "source_file list \<Rightarrow> bool" where
  "valid_sources fs \<longleftrightarrow> fs \<noteq> [] \<and> (\<forall>f \<in> set fs. sf_Path f \<noteq> '''') \<and> distinct (map sf_Path fs)"

lemma collect_sources_ok:
  assumes "\<forall>f \<in> set fs. sf_Path f \<noteq> ''''" and "distinct (map sf_Path fs)"
    and "\<forall>f \<in> set fs. srcs (sf_Path f) = None"
  shows "collect_sources fs srcs eps =
    Inr (srcs ++ map_of (map (\<lambda>f. (sf_Path f, sf_Content f)) fs), eps @ map sf_Path fs)"
  using assms
proof (induction fs arbitrary: srcs eps)
  case (Cons f fs)
  have "sf_Path f \<notin> dom (map_of (map (\<lambda>f. (sf_Path f, sf_Content f)) fs))"
    using Cons.prems(2) by (auto simp: dom_map_of_conv_image_fst image_iff)
  then have "srcs(sf_Path f \<mapsto> sf_Content f) ++ map_of (map (\<lambda>f. (sf_Path f, sf_Content f)) fs) =
      srcs ++ (map_of (map (\<lambda>f. (sf_Path f, sf_Content f)) fs))(sf_Path f \<mapsto> sf_Content f)"
    by (auto simp: map_add_def fun_eq_iff split: option.splits)
  moreover have "collect_sources fs (srcs(sf_Path f \<mapsto> sf_Content f)) (eps @ [sf_Path f]) =
      Inr (srcs(sf_Path f \<mapsto> sf_Content f) ++ map_of (map (\<lambda>f. (sf_Path f, sf_Content f)) fs),
        (eps @ [sf_Path f]) @ map sf_Path fs)"
    using Cons.prems by (intro Cons.IH) (auto intro: rev_image_eqI)
  ultimately show ?case using Cons.prems by (simp del: fun_upd_apply)
qed simp

lemma collect_sources_bad:
  assumes "\<not> ((\<forall>f \<in> set fs. sf_Path f \<noteq> '''') \<and> distinct (map sf_Path fs) \<and>
    (\<forall>f \<in> set fs. srcs (sf_Path f) = None))"
  shows "collect_sources fs srcs eps = Inl EmptyPath \<or>
    (\<exists>p. collect_sources fs srcs eps = Inl (DuplicateSource p))"
  using assms
proof (induction fs arbitrary: srcs eps)
  case (Cons f fs)
  show ?case
  proof (cases "sf_Path f = '''' \<or> srcs (sf_Path f) \<noteq> None")
    case False
    then have "\<not> ((\<forall>f \<in> set fs. sf_Path f \<noteq> '''') \<and> distinct (map sf_Path fs) \<and>
        (\<forall>g \<in> set fs. (srcs(sf_Path f \<mapsto> sf_Content f)) (sf_Path g) = None))"
      using Cons.prems by (auto split: if_splits)
    from Cons.IH [OF this] False show ?thesis by (simp del: fun_upd_apply)
  qed auto
qed simp

lemma Compile_collects:
  assumes "valid_sources fs"
  shows "collect_sources fs Map.empty [] =
    Inr (map_of (map (\<lambda>f. (sf_Path f, sf_Content f)) fs), map sf_Path fs)"
  using assms collect_sources_ok [of fs Map.empty "[]"] by (simp add: valid_sources_def)

lemma Compile_Inr_valid:
  assumes "Compile tc fs = Inr c"
  shows "valid_sources fs"
proof (rule ccontr)
  assume "\<not> valid_sources fs"
  with assms collect_sources_bad [of fs Map.empty "[]"] show False
    by (auto simp: valid_sources_def Compile_def split: if_splits)
qed

subsection \<open>The closure is in topological order\<close>

fun reach :: "linked_file \<Rightarrow> linked_file list" where
  "reach (LinkedFile p imps d) = LinkedFile p imps d # concat (map reach imps)"

text \<open>Within one compilation a path names one file.\<close>

definition coherent :: "linked_file list \<Rightarrow> bool" where
  "coherent linked \<longleftrightarrow> (\<forall>f \<in> set (concat (map reach linked)). \<forall>g \<in> set (concat (map reach linked)).
     lf_Path f = lf_Path g \<longrightarrow> f = g)"

fun imports_first :: "string set \<Rightarrow> linked_file list \<Rightarrow> bool" where
  "imports_first done [] = True"
| "imports_first done (f # fs) =
     (lf_Path f \<notin> done \<and> lf_Path ` set (lf_Imports f) \<subseteq> done \<and> imports_first (insert (lf_Path f) done) fs)"

lemma imports_first_append [simp]:
  "imports_first D (xs @ ys) \<longleftrightarrow> imports_first D xs \<and> imports_first (D \<union> lf_Path ` set xs) ys"
  by (induction xs arbitrary: D) auto

lemma imports_first_distinct: "imports_first D xs \<Longrightarrow> distinct (map lf_Path xs) \<and> lf_Path ` set xs \<inter> D = {}"
  by (induction xs arbitrary: D) auto

lemma reach_self: "f \<in> set (reach f)"
  by (cases f) simp

lemma reach_trans: "g \<in> set (reach f) \<Longrightarrow> h \<in> set (reach g) \<Longrightarrow> h \<in> set (reach f)"
  by (induction f) auto

lemma reach_size: "g \<in> set (reach f) \<Longrightarrow> size g \<le> size f"
proof (induction f)
  case (LinkedFile p imps d)
  show ?case
  proof (cases "g = LinkedFile p imps d")
    case False
    with LinkedFile.prems obtain i where i: "i \<in> set imps" "g \<in> set (reach i)" by auto
    with LinkedFile.IH have "size g \<le> size i" by blast
    also have "size i \<le> size_list size imps" using i(1) by (simp add: size_list_estimation')
    finally show ?thesis by simp
  qed simp
qed

lemma import_not_ancestor:
  assumes "i \<in> set (lf_Imports f)" shows "f \<notin> set (reach i)"
proof
  assume "f \<in> set (reach i)"
  then have "size f \<le> size i" by (rule reach_size)
  also have "size i \<le> size_list size (lf_Imports f)" using assms by (simp add: size_list_estimation')
  also have "\<dots> < size f" by (cases f) simp
  finally show False by simp
qed

definition walk_inv :: "linked_file set \<Rightarrow> string set \<Rightarrow> string list \<times> linked_file list \<Rightarrow> bool" where
  "walk_inv U open st \<longleftrightarrow>
     set (fst st) = lf_Path ` set (snd st) \<union> open \<and> imports_first {} (snd st) \<and>
     set (snd st) \<subseteq> U \<and> (\<forall>g \<in> set (snd st). set (reach g) \<subseteq> set (snd st))"

lemma fold_add_file:
  assumes "\<And>i st. i \<in> set imps \<Longrightarrow> walk_inv U S st \<Longrightarrow>
      walk_inv U S (add_file i st) \<and> set (snd (add_file i st)) = set (snd st) \<union> set (reach i)"
    and "walk_inv U S st"
  shows "walk_inv U S (fold add_file imps st) \<and>
    set (snd (fold add_file imps st)) = set (snd st) \<union> set (concat (map reach imps))"
  using assms
proof (induction imps arbitrary: st)
  case (Cons i imps)
  have step: "walk_inv U S (add_file i st)" "set (snd (add_file i st)) = set (snd st) \<union> set (reach i)"
    using Cons.prems by auto
  from Cons.IH [OF Cons.prems(1) step(1)] step(2) show ?case by auto
qed simp

lemma walk_inv_append:
  assumes inv: "walk_inv U (insert (lf_Path f) S) st" and "lf_Path f \<notin> lf_Path ` set (snd st)"
    and "f \<in> U" and imps: "set (lf_Imports f) \<subseteq> set (snd st)"
  shows "walk_inv U S (fst st, snd st @ [f])"
proof -
  have "set (reach f) \<subseteq> insert f (set (snd st))"
    using inv imps by (cases f) (fastforce simp: walk_inv_def)
  then have "\<forall>g \<in> set (snd st @ [f]). set (reach g) \<subseteq> set (snd st @ [f])"
    using inv by (fastforce simp: walk_inv_def)
  with assms show ?thesis by (simp add: walk_inv_def image_mono)
qed

lemma add_file_inv:
  assumes "inj_on lf_Path U" and "set (reach f) \<subseteq> U" and "walk_inv U S st"
    and "lf_Path ` set (reach f) \<inter> S = {}"
  shows "walk_inv U S (add_file f st) \<and> set (snd (add_file f st)) = set (snd st) \<union> set (reach f)"
  using assms(2-4)
proof (induction f arbitrary: S st)
  case (LinkedFile p imps d)
  let ?f = "LinkedFile p imps d" and ?st = "(p # fst st, snd st)"
  have fU: "?f \<in> U" using LinkedFile.prems(1) by simp
  show ?case
  proof (cases "p \<in> set (fst st)")
    case True
    moreover have "p \<notin> S" using LinkedFile.prems(3) by auto
    ultimately obtain g where g: "g \<in> set (snd st)" "lf_Path g = p"
      using LinkedFile.prems(2) by (auto simp: walk_inv_def)
    then have "g = ?f"
      using assms(1) fU LinkedFile.prems(2) by (auto simp: walk_inv_def inj_on_def)
    moreover have "set (reach g) \<subseteq> set (snd st)"
      using LinkedFile.prems(2) g(1) by (simp add: walk_inv_def)
    ultimately have "set (reach ?f) \<subseteq> set (snd st)" by (simp only:)
    with True LinkedFile.prems(2) show ?thesis by auto
  next
    case False
    have fresh: "lf_Path g \<noteq> p" if "i \<in> set imps" "g \<in> set (reach i)" for i g
    proof
      assume "lf_Path g = p"
      moreover have "g \<in> U" using that LinkedFile.prems(1) by auto
      ultimately have "g = ?f" using assms(1) fU by (auto simp: inj_on_def)
      with that import_not_ancestor [of i ?f] show False by simp
    qed
    have inv: "walk_inv U (insert p S) ?st" using LinkedFile.prems(2) by (auto simp: walk_inv_def)
    have rest: "walk_inv U (insert p S) (fold add_file imps ?st) \<and>
        set (snd (fold add_file imps ?st)) = set (snd ?st) \<union> set (concat (map reach imps))"
    proof (rule fold_add_file [OF _ inv])
      fix i st
      assume i: "i \<in> set imps" and st: "walk_inv U (insert p S) st"
      have "set (reach i) \<subseteq> U" and "lf_Path ` set (reach i) \<inter> insert p S = {}"
        using i LinkedFile.prems(1,3) fresh [OF i] by fastforce+
      with LinkedFile.IH [OF i _ st] show "walk_inv U (insert p S) (add_file i st) \<and>
          set (snd (add_file i st)) = set (snd st) \<union> set (reach i)" by blast
    qed
    have "p \<notin> lf_Path ` set (snd (fold add_file imps ?st))"
      using rest False fresh LinkedFile.prems(2) by (auto simp: walk_inv_def)
    moreover have "set imps \<subseteq> set (snd (fold add_file imps ?st))"
      using rest reach_self by fastforce
    ultimately have "walk_inv U S (fst (fold add_file imps ?st), snd (fold add_file imps ?st) @ [?f])"
      using rest fU by (intro walk_inv_append) simp_all
    with rest False show ?thesis by (auto simp: Let_def)
  qed
qed

lemma file_closure_ok:
  assumes "coherent linked"
  shows "imports_first {} (file_closure linked)" and "set (file_closure linked) = set (concat (map reach linked))"
proof -
  let ?U = "set (concat (map reach linked))"
  have inj: "inj_on lf_Path ?U" using assms by (auto simp: coherent_def inj_on_def)
  have "walk_inv ?U {} (fold add_file linked ([], [])) \<and>
      set (snd (fold add_file linked ([], []))) = set (snd ([] :: string list, [] :: linked_file list)) \<union> ?U"
  proof (rule fold_add_file)
    show "walk_inv ?U {} ([], [])" by (simp add: walk_inv_def)
    fix i st
    assume "i \<in> set linked" and st: "walk_inv ?U {} st"
    then have "set (reach i) \<subseteq> ?U" by auto
    from add_file_inv [OF inj this st] show "walk_inv ?U {} (add_file i st) \<and>
        set (snd (add_file i st)) = set (snd st) \<union> set (reach i)" by simp
  qed
  then show "imports_first {} (file_closure linked)"
    and "set (file_closure linked) = set (concat (map reach linked))"
    by (simp_all add: file_closure_def walk_inv_def)
qed

subsection \<open>The content hash\<close>

text \<open>
  What the hash relies on: paths contain no NUL byte, and a serialized file is not the beginning
  of another one followed by a NUL byte (no protobuf field has the tag 0).
\<close>

definition separable :: "(string \<times> string) list \<Rightarrow> bool" where
  "separable xs \<longleftrightarrow> (\<forall>p d. (p, d) \<in> set xs \<longrightarrow> CHR 0x00 \<notin> set p)"

definition zero_free :: "string set \<Rightarrow> bool" where
  "zero_free D \<longleftrightarrow> (\<forall>d \<in> D. \<forall>d' \<in> D. \<forall>x y. d @ [CHR 0x00] @ x = d' @ [CHR 0x00] @ y \<longrightarrow> d = d')"

lemma zero_free_mono: "zero_free D \<Longrightarrow> E \<subseteq> D \<Longrightarrow> zero_free E"
  unfolding zero_free_def by (meson subsetD)

lemma zero_freeD: "zero_free D \<Longrightarrow> d \<in> D \<Longrightarrow> d' \<in> D \<Longrightarrow> d @ [CHR 0x00] @ x = d' @ [CHR 0x00] @ y \<Longrightarrow> d = d'"
  unfolding zero_free_def by (meson subsetD)

lemma split_at_first:
  assumes "c \<notin> set p" and "c \<notin> set q" and "p @ [c] @ x = q @ [c] @ y"
  shows "p = q \<and> x = y"
  using assms
proof (induction p arbitrary: q)
  case Nil
  then show ?case by (cases q) auto
next
  case (Cons a p)
  then show ?case by (cases q) auto
qed

lemma hash_input_inj:
  assumes "separable xs" and "separable ys" and "zero_free (snd ` set xs \<union> snd ` set ys)"
    and "hash_input xs = hash_input ys"
  shows "xs = ys"
  using assms
proof (induction xs arbitrary: ys)
  case Nil
  then show ?case by (cases ys) (auto simp: hash_input_def)
next
  case (Cons x xs)
  obtain p d where x: "x = (p, d)" by (cases x)
  from Cons.prems(4) x obtain q d' ys' where ys: "ys = (q, d') # ys'"
    by (cases ys) (auto simp: hash_input_def)
  have "p @ [CHR 0x00] @ (d @ [CHR 0x00] @ hash_input xs) = q @ [CHR 0x00] @ (d' @ [CHR 0x00] @ hash_input ys')"
    using Cons.prems(4) by (simp add: x ys hash_input_def)
  moreover have "CHR 0x00 \<notin> set p" "CHR 0x00 \<notin> set q"
    using Cons.prems(1,2) by (auto simp: separable_def x ys)
  ultimately have "p = q \<and> d @ [CHR 0x00] @ hash_input xs = d' @ [CHR 0x00] @ hash_input ys'"
    by (intro split_at_first)
  then have p: "p = q" and d: "d @ [CHR 0x00] @ hash_input xs = d' @ [CHR 0x00] @ hash_input ys'"
    by blast+
  have "d \<in> snd ` set (x # xs) \<union> snd ` set ys" "d' \<in> snd ` set (x # xs) \<union> snd ` set ys"
    by (simp_all add: x ys)
  then have dd: "d = d'"
    using zero_freeD [OF Cons.prems(3)] d by blast
  have "xs = ys'"
  proof (rule Cons.IH)
    show "separable xs" "separable ys'" using Cons.prems(1,2) by (auto simp: separable_def x ys)
    show "zero_free (snd ` set xs \<union> snd ` set ys')"
      using Cons.prems(3) by (rule zero_free_mono) (auto simp: ys)
    show "hash_input xs = hash_input ys'" using d dd by simp
  qed
  with p dd show ?case by (simp add: x ys)
qed

subsection \<open>Properties\<close>

definition toolchain_ok :: "toolchain \<Rightarrow> bool" where
  "toolchain_ok tc \<longleftrightarrow>
     (\<forall>lf. fdp_Name (toFileDescriptorProto tc lf) = lf_Path lf) \<and>
     (\<forall>ps b. marshalSet tc ps = Inr b \<longrightarrow> unmarshalSet tc b = Inr ps) \<and>
     (\<forall>srcs eps lfs. protocompile tc srcs eps = Inr lfs \<longrightarrow> map lf_Path lfs = eps \<and> coherent lfs)"

lemma Compile_Inr:
  assumes "Compile tc fs = Inr c"
  obtains linked canonical where
    "protocompile tc (map_of (map (\<lambda>f. (sf_Path f, sf_Content f)) fs)) (sort (map sf_Path fs)) = Inr linked"
    "canonicalize tc (map (toFileDescriptorProto tc) (file_closure linked)) = Inr canonical"
    "marshalSet tc (map (toFileDescriptorProto tc) (file_closure linked)) = Inr (c_DescriptorSet c)"
    "c_Hash c = sha256 tc (hash_input (sort_key fst canonical))"
    "c_OwnedPaths c = sort (map sf_Path fs)" "Load tc (c_DescriptorSet c) = Inr (c_Files c)"
  using assms Compile_collects [OF Compile_Inr_valid [OF assms]]
  by (auto simp: Compile_def Let_def split: sum.splits if_splits)


text \<open>
  C19. The order in which files are submitted does not matter: any permutation compiles to the
  same descriptor set, hash, owned paths and registry.
\<close>
theorem Compile_order_irrelevant:
  assumes "Compile tc fs = Inr c" and "mset fs = mset gs"
  shows "Compile tc gs = Inr c"
proof -
  from assms(1) have valid: "valid_sources fs" by (rule Compile_Inr_valid)
  have paths: "mset (map sf_Path fs) = mset (map sf_Path gs)" using assms(2) by simp
  have "set fs = set gs" using assms(2) by (metis set_mset_mset)
  moreover have dist: "distinct (map sf_Path gs)"
    using valid mset_eq_imp_distinct_iff [OF paths] by (simp add: valid_sources_def)
  ultimately have valid': "valid_sources gs" using valid by (auto simp: valid_sources_def)
  have "map_of (map (\<lambda>f. (sf_Path f, sf_Content f)) fs) = map_of (map (\<lambda>f. (sf_Path f, sf_Content f)) gs)"
  proof (rule map_of_inject_set [THEN iffD2])
    show "distinct (map fst (map (\<lambda>f. (sf_Path f, sf_Content f)) fs))"
      "distinct (map fst (map (\<lambda>f. (sf_Path f, sf_Content f)) gs))"
      using valid dist by (simp_all add: valid_sources_def comp_def)
    show "set (map (\<lambda>f. (sf_Path f, sf_Content f)) fs) = set (map (\<lambda>f. (sf_Path f, sf_Content f)) gs)"
      using \<open>set fs = set gs\<close> by simp
  qed
  moreover have "sort (map sf_Path fs) = sort (map sf_Path gs)"
    using paths by (metis properties_for_sort mset_sort sorted_sort)
  moreover have "fs \<noteq> []" "gs \<noteq> []" using valid valid' by (auto simp: valid_sources_def)
  ultimately show ?thesis
    using assms(1) by (simp add: Compile_def Compile_collects [OF valid] Compile_collects [OF valid'])
qed

text \<open>
  Sources that cannot be compiled are refused before the compiler is called, whatever the
  toolchain: no files, an empty path or a path submitted twice give their own error; all other
  sources reach the compiler.
\<close>
theorem Compile_validates_sources:
  "(\<not> valid_sources fs \<longrightarrow> Compile tc fs = Compile tc' fs \<and>
      (Compile tc fs \<in> {Inl NoSources, Inl EmptyPath} \<or> (\<exists>p. Compile tc fs = Inl (DuplicateSource p)))) \<and>
   (valid_sources fs \<longrightarrow> Compile tc fs \<notin> {Inl NoSources, Inl EmptyPath} \<and>
      (\<forall>p. Compile tc fs \<noteq> Inl (DuplicateSource p)))"
proof (intro conjI impI)
  assume bad: "\<not> valid_sources fs"
  then have "fs = [] \<or> collect_sources fs Map.empty [] = Inl EmptyPath \<or>
      (\<exists>p. collect_sources fs Map.empty [] = Inl (DuplicateSource p))"
    using collect_sources_bad [of fs Map.empty "[]"] by (auto simp: valid_sources_def)
  then show "Compile tc fs = Compile tc' fs"
    and "Compile tc fs \<in> {Inl NoSources, Inl EmptyPath} \<or> (\<exists>p. Compile tc fs = Inl (DuplicateSource p))"
    by (auto simp: Compile_def)
next
  assume ok: "valid_sources fs"
  have canon: "canonicalize tc ps = Inl err \<Longrightarrow> \<exists>n t. err = CanonicalizeFailed n t" for ps err
    by (induction ps) (auto split: sum.splits)
  have load: "Load tc b = Inl err \<Longrightarrow> \<exists>t. err = UnmarshalSetFailed t \<or> err = LinkSetFailed t" for b err
    by (auto simp: Load_def split: sum.splits)
  from ok have "fs \<noteq> []" by (simp add: valid_sources_def)
  then show "Compile tc fs \<notin> {Inl NoSources, Inl EmptyPath}" "\<forall>p. Compile tc fs \<noteq> Inl (DuplicateSource p)"
    using Compile_collects [OF ok]
    by (auto simp: Compile_def Let_def split: sum.splits dest!: canon load)
qed

text \<open>
  C20. The input of the content hash determines the files it was computed from: for two lists of
  canonical files whose paths have no NUL byte and whose contents are serialized messages, the
  hash inputs are equal exactly when paths and contents are.
\<close>
theorem hash_input_determines_content:
  assumes "separable xs" and "separable ys" and "zero_free (snd ` set xs \<union> snd ` set ys)"
  shows "hash_input xs = hash_input ys \<longleftrightarrow> xs = ys"
  using hash_input_inj [OF assms] by blast

subsection \<open>A concrete toolchain\<close>

definition no_desc :: file_desc where
  "no_desc = \<lparr>file_Path = '''', file_Package = '''', file_Messages = [], file_Enums = []\<rparr>"

definition demo_file :: "string \<Rightarrow> linked_file" where
  "demo_file p = LinkedFile p (if p = ''b'' then [LinkedFile ''a'' [] no_desc] else []) no_desc"

definition demo_proto :: "string \<Rightarrow> file_proto" where
  "demo_proto p = \<lparr>fdp_Name = p, fdp_Rest = ''''\<rparr>"

definition demo_toolchain :: toolchain where
  "demo_toolchain =
     \<lparr>protocompile = (\<lambda>srcs eps. Inr (map demo_file eps)),
      toFileDescriptorProto = (\<lambda>lf. demo_proto (lf_Path lf)),
      marshalFile = (\<lambda>fdp. Inr (fdp_Name fdp)), sha256 = (\<lambda>s. s),
      marshalSet = (\<lambda>ps. if ps = [demo_proto ''a'', demo_proto ''b''] then Inr ''ab'' else Inl ''unsupported''),
      unmarshalSet = (\<lambda>b. if b = ''ab'' then Inr [demo_proto ''a'', demo_proto ''b''] else Inl ''corrupt''),
      newFiles = (\<lambda>ps. Inr (mk_files []))\<rparr>"

lemma demo_toolchain_ok: "toolchain_ok demo_toolchain"
proof -
  have "g = demo_file (lf_Path g)" if "g \<in> set (concat (map reach (map demo_file eps)))" for g eps
    using that by (auto simp: demo_file_def)
  then have "coherent (map demo_file eps)" for eps
    unfolding coherent_def by metis
  then show ?thesis
    by (auto simp: toolchain_ok_def demo_toolchain_def demo_proto_def demo_file_def comp_def split: if_splits)
qed

definition demo_sources :: "source_file list" where
  "demo_sources = [\<lparr>sf_Path = ''b'', sf_Content = ''B''\<rparr>, \<lparr>sf_Path = ''a'', sf_Content = ''A''\<rparr>]"

lemma demo_run: "Compile demo_toolchain demo_sources =
    Inr \<lparr>c_DescriptorSet = ''ab'', c_Hash = ''a'' @ [CHR 0x00] @ ''a'' @ [CHR 0x00] @ ''b'' @ [CHR 0x00] @ ''b'' @ [CHR 0x00],
      c_OwnedPaths = [''a'', ''b''], c_Files = mk_files []\<rparr>"
proof -
  have "collect_sources demo_sources Map.empty [] = Inr ([''b'' \<mapsto> ''B'', ''a'' \<mapsto> ''A''], [''b'', ''a''])"
    by (simp add: demo_sources_def)
  moreover have "sort [''b'', ''a''] = [''a'', ''b'']" by code_simp
  moreover have "file_closure (map demo_file [''a'', ''b'']) = map demo_file [''a'', ''b'']" by code_simp
  moreover have "canonicalize demo_toolchain [demo_proto ''a'', demo_proto ''b''] = Inr [(''a'', ''a''), (''b'', ''b'')]"
    by (simp add: demo_toolchain_def demo_proto_def)
  moreover have "sort_key fst [(''a'', ''a''), (''b'', ''b'')] = [(''a'', ''a''), (''b'', ''b'')]" by code_simp
  ultimately show ?thesis
    by (simp add: Compile_def demo_toolchain_def Load_def hash_input_def demo_sources_def demo_file_def)
qed


theorem Compile_order_irrelevant_witness:
  "Compile demo_toolchain (rev demo_sources) = Compile demo_toolchain demo_sources"
  using Compile_order_irrelevant [OF demo_run, of "rev demo_sources"] demo_run by simp

theorem Compile_validates_sources_witness:
  "Compile demo_toolchain [\<lparr>sf_Path = '''', sf_Content = ''A''\<rparr>] = Inl EmptyPath"
proof -
  have "\<not> valid_sources [\<lparr>sf_Path = '''', sf_Content = ''A''\<rparr>]" by (simp add: valid_sources_def)
  with Compile_validates_sources [of "[\<lparr>sf_Path = '''', sf_Content = ''A''\<rparr>]" demo_toolchain
      demo_toolchain] show ?thesis
    by (auto simp: Compile_def)
qed

theorem hash_input_determines_content_witness:
  "hash_input [(''a'', ''1''), (''b'', ''2'')] \<noteq> hash_input [(''a'', ''1'')]"
proof -
  have "separable [(''a'', ''1''), (''b'', ''2'')]" "separable [(''a'', ''1'')]"
    by (auto simp: separable_def)
  moreover have "zero_free {''1'', ''2''}"
    by (auto simp: zero_free_def)
  ultimately show ?thesis
    using hash_input_determines_content [of "[(''a'', ''1''), (''b'', ''2'')]" "[(''a'', ''1'')]"]
    by (simp add: insert_commute)
qed

end
