(* ===== verification/Wire.thy ===== *)
theory Wire
  imports Descriptors
begin

text \<open>
  The kind-change judgements of \<open>internal/compat/wire.go\<close>: the wire category of a kind, the
  severity of a kind change on the wire (\<open>wireTypeChange\<close>, \<open>varintChange\<close>) and in JSON
  (\<open>jsonRep\<close>, \<open>jsonTypeChange\<close>). The second half is a reference semantics of the scalar
  encodings (what integer a kind decodes from a payload), against which the judgement
  "provably safe" is measured.
\<close>

subsection \<open>The judgements\<close>

datatype wireCategory = catVarint | catFixed32 | catFixed64 | catLengthDelim | catGroup

fun categoryOf :: "kind \<Rightarrow> wireCategory" where
  "categoryOf BoolKind = catVarint"
| "categoryOf EnumKind = catVarint"
| "categoryOf Int32Kind = catVarint"
| "categoryOf Sint32Kind = catVarint"
| "categoryOf Uint32Kind = catVarint"
| "categoryOf Int64Kind = catVarint"
| "categoryOf Sint64Kind = catVarint"
| "categoryOf Uint64Kind = catVarint"
| "categoryOf Sfixed32Kind = catFixed32"
| "categoryOf Fixed32Kind = catFixed32"
| "categoryOf FloatKind = catFixed32"
| "categoryOf Sfixed64Kind = catFixed64"
| "categoryOf Fixed64Kind = catFixed64"
| "categoryOf DoubleKind = catFixed64"
| "categoryOf GroupKind = catGroup"
| "categoryOf _ = catLengthDelim"

definition isFixedPair :: "kind \<Rightarrow> kind \<Rightarrow> bool" where
  "isFixedPair a b =
     (let pair = (\<lambda>x y. a = x \<and> b = y \<or> a = y \<and> b = x)
      in pair Fixed32Kind Sfixed32Kind \<or> pair Fixed64Kind Sfixed64Kind)"

fun widening :: "kind \<Rightarrow> kind option" where
  "widening Int32Kind = Some Int64Kind"
| "widening Sint32Kind = Some Sint64Kind"
| "widening Uint32Kind = Some Uint64Kind"
| "widening _ = None"

fun narrowing :: "kind \<Rightarrow> kind option" where
  "narrowing Int64Kind = Some Int32Kind"
| "narrowing Sint64Kind = Some Sint32Kind"
| "narrowing Uint64Kind = Some Uint32Kind"
| "narrowing _ = None"

definition varintChange :: "go_env \<Rightarrow> kind \<Rightarrow> kind \<Rightarrow> severity \<times> string" where
  "varintChange e ok nk =
     (let args = [AStr (kind_String ok), AStr (kind_String nk)] in
      if widening ok = Some nk then
        (SeverityInfo, sprintf e ''%s -> %s widens within varint; old values remain valid'' args)
      else if narrowing ok = Some nk then
        (SeverityWarn, sprintf e ''%s -> %s narrows; stored values may overflow the smaller range'' args)
      else if ok = BoolKind \<or> nk = BoolKind then
        (SeverityWarn, sprintf e ''%s -> %s reinterprets boolean/varint semantics'' args)
      else if ok = EnumKind \<or> nk = EnumKind then
        (SeverityWarn, sprintf e ''%s -> %s reinterprets enum semantics'' args)
      else
        (SeverityWarn, sprintf e
           ''%s -> %s shares varint framing but reinterprets values (sign/zigzag)'' args))"

definition wireTypeChange :: "go_env \<Rightarrow> field_desc \<Rightarrow> field_desc \<Rightarrow> severity \<times> string" where
  "wireTypeChange e ofd nfd =
     (let ok = fd_Kind ofd; nk = fd_Kind nfd; oc = categoryOf ok; nc = categoryOf nk;
          args = [AStr (kind_String ok), AStr (kind_String nk)] in
      if oc \<noteq> nc then
        (SeverityFail, sprintf e
           ''%s and %s use different wire types; existing payloads would be mis-framed or dropped'' args)
      else if ok = nk then (SeverityInfo, ''identical kind'')
      else if isFixedPair ok nk then
        (SeverityInfo, sprintf e ''%s and %s share identical fixed-width encoding'' args)
      else if oc = catVarint then varintChange e ok nk
      else if ok = StringKind \<and> nk = BytesKind then
        (SeverityInfo, ''string -> bytes keeps the same length-delimited bytes'')
      else if ok = BytesKind \<and> nk = StringKind then
        (SeverityWarn,
         ''bytes -> string: old payloads may contain invalid UTF-8, which proto3 string parsing rejects'')
      else if ok = MessageKind \<and> nk = GroupKind \<or> ok = GroupKind \<and> nk = MessageKind then
        (SeverityFail, ''message and group use different wire framing'')
      else
        (SeverityWarn, sprintf e
           ''%s -> %s shares wire framing but value semantics differ; cannot prove safe'' args))"

fun jsonRep :: "kind \<Rightarrow> string" where
  "jsonRep Int32Kind = ''number''"
| "jsonRep Sint32Kind = ''number''"
| "jsonRep Uint32Kind = ''number''"
| "jsonRep Sfixed32Kind = ''number''"
| "jsonRep Fixed32Kind = ''number''"
| "jsonRep FloatKind = ''number''"
| "jsonRep DoubleKind = ''number''"
| "jsonRep Int64Kind = ''quoted-number''"
| "jsonRep Sint64Kind = ''quoted-number''"
| "jsonRep Uint64Kind = ''quoted-number''"
| "jsonRep Sfixed64Kind = ''quoted-number''"
| "jsonRep Fixed64Kind = ''quoted-number''"
| "jsonRep BoolKind = ''bool''"
| "jsonRep StringKind = ''string''"
| "jsonRep BytesKind = ''base64-string''"
| "jsonRep EnumKind = ''enum-name''"
| "jsonRep _ = ''object''"

definition jsonTypeChange :: "go_env \<Rightarrow> field_desc \<Rightarrow> field_desc \<Rightarrow> severity \<times> string" where
  "jsonTypeChange e ofd nfd =
     (let or = jsonRep (fd_Kind ofd); nr = jsonRep (fd_Kind nfd) in
      if or = nr then
        (SeverityInfo, sprintf e ''both %s and %s serialize as JSON %s''
           [AStr (kind_String (fd_Kind ofd)), AStr (kind_String (fd_Kind nfd)), AStr or])
      else
        (SeverityFail, sprintf e ''JSON representation changes from %s to %s'' [AStr or, AStr nr]))"

subsection \<open>Reference semantics of the integer encodings\<close>

text \<open>
  The payload of a varint is a 64-bit number, of a fixed32 or fixed64 a 32-bit or 64-bit
  number. \<open>in_range\<close> says which integers a kind holds, \<open>payload\<close> what is written for one,
  \<open>decoded\<close> what a reader of a kind makes of a payload: two's complement for the signed
  kinds, zig-zag for the \<open>sint\<close> kinds, the low 32 bits for the 32-bit varint kinds.
\<close>

definition signed :: "nat \<Rightarrow> int \<Rightarrow> int" where
  "signed w p = (let q = p mod 2 ^ w in if q < 2 ^ (w - 1) then q else q - 2 ^ w)"

definition zigzag :: "int \<Rightarrow> int" where
  "zigzag v = (if 0 \<le> v then 2 * v else - 2 * v - 1)"

definition unzigzag :: "int \<Rightarrow> int" where
  "unzigzag p = (if even p then p div 2 else - ((p + 1) div 2))"

fun int_kind :: "kind \<Rightarrow> bool" where
  "int_kind k = (k \<in> {Int32Kind, Sint32Kind, Uint32Kind, Int64Kind, Sint64Kind, Uint64Kind,
     Sfixed32Kind, Fixed32Kind, Sfixed64Kind, Fixed64Kind})"

definition in_range :: "kind \<Rightarrow> int \<Rightarrow> bool" where
  "in_range k v =
     (if k \<in> {Int32Kind, Sint32Kind, Sfixed32Kind} then - (2 ^ 31) \<le> v \<and> v < 2 ^ 31
      else if k \<in> {Uint32Kind, Fixed32Kind} then 0 \<le> v \<and> v < 2 ^ 32
      else if k \<in> {Int64Kind, Sint64Kind, Sfixed64Kind} then - (2 ^ 63) \<le> v \<and> v < 2 ^ 63
      else 0 \<le> v \<and> v < 2 ^ 64)"

definition payload :: "kind \<Rightarrow> int \<Rightarrow> int" where
  "payload k v =
     (if k \<in> {Sint32Kind, Sint64Kind} then zigzag v
      else if k \<in> {Sfixed32Kind, Fixed32Kind} then v mod 2 ^ 32
      else v mod 2 ^ 64)"

definition decoded :: "kind \<Rightarrow> int \<Rightarrow> int" where
  "decoded k p =
     (if k \<in> {Int32Kind, Sfixed32Kind} then signed 32 p
      else if k \<in> {Int64Kind, Sfixed64Kind} then signed 64 p
      else if k \<in> {Uint32Kind, Fixed32Kind} then p mod 2 ^ 32
      else if k = Sint32Kind then unzigzag (p mod 2 ^ 32)
      else if k = Sint64Kind then unzigzag (p mod 2 ^ 64)
      else p mod 2 ^ 64)"

subsection \<open>What the judgements say\<close>

lemma severity_splits [simp]:
  "fst (varintChange e ok nk) = (if widening ok = Some nk then SeverityInfo else SeverityWarn)"
  by (simp add: varintChange_def Let_def)

lemma widening_cases: "widening ok = Some nk \<Longrightarrow>
    (ok, nk) \<in> {(Int32Kind, Int64Kind), (Sint32Kind, Sint64Kind), (Uint32Kind, Uint64Kind)}"
  by (cases ok) auto

lemma isFixedPair_cases: "isFixedPair ok nk \<longleftrightarrow>
    (ok, nk) \<in> {(Fixed32Kind, Sfixed32Kind), (Sfixed32Kind, Fixed32Kind),
                (Fixed64Kind, Sfixed64Kind), (Sfixed64Kind, Fixed64Kind)}"
  by (auto simp: isFixedPair_def)

lemma wireTypeChange_fail:
  "fst (wireTypeChange e o1 n1) = SeverityFail \<longleftrightarrow>
     categoryOf (fd_Kind o1) \<noteq> categoryOf (fd_Kind n1)"
  by (cases "fd_Kind o1"; cases "fd_Kind n1")
    (simp_all add: wireTypeChange_def Let_def isFixedPair_def)

lemma wireTypeChange_info:
  "fst (wireTypeChange e o1 n1) = SeverityInfo \<longleftrightarrow>
     fd_Kind o1 = fd_Kind n1 \<or> isFixedPair (fd_Kind o1) (fd_Kind n1) \<or>
     widening (fd_Kind o1) = Some (fd_Kind n1) \<or>
     fd_Kind o1 = StringKind \<and> fd_Kind n1 = BytesKind"
  by (cases "fd_Kind o1"; cases "fd_Kind n1")
    (simp_all add: wireTypeChange_def Let_def isFixedPair_def)

lemma jsonTypeChange_severity [simp]:
  "fst (jsonTypeChange e o1 n1) =
     (if jsonRep (fd_Kind o1) = jsonRep (fd_Kind n1) then SeverityInfo else SeverityFail)"
  by (simp add: jsonTypeChange_def Let_def)

text \<open>
  The wire judgement of a kind change, on every pair of kinds: \<open>wireTypeChange\<close> proves a
  break (FAIL) exactly when the two kinds have different wire categories; it claims safety
  (INFO) exactly for an identical kind, a signed/unsigned fixed-width pair, a widening
  within varint, or string to bytes; everything else is WARN.
\<close>
theorem wire_judgement:
  "fst (wireTypeChange e ofd nfd) =
     (if categoryOf (fd_Kind ofd) \<noteq> categoryOf (fd_Kind nfd) then SeverityFail
      else if fd_Kind ofd = fd_Kind nfd \<or> isFixedPair (fd_Kind ofd) (fd_Kind nfd) \<or>
              widening (fd_Kind ofd) = Some (fd_Kind nfd) \<or>
              fd_Kind ofd = StringKind \<and> fd_Kind nfd = BytesKind then SeverityInfo
      else SeverityWarn)"
  using wireTypeChange_fail [of e ofd nfd] wireTypeChange_info [of e ofd nfd]
  by (cases "fst (wireTypeChange e ofd nfd)") auto

subsection \<open>What a reader of the new kind decodes\<close>

lemma signed_mod:
  assumes w: "0 < w" and lo: "- (2 ^ (w - 1)) \<le> v" and hi: "v < 2 ^ (w - 1)"
  shows "signed w (v mod 2 ^ w) = v"
proof -
  have pw: "(2::int) ^ w = 2 * 2 ^ (w - 1)" using w by (cases w) simp_all
  show ?thesis
  proof (cases "0 \<le> v")
    case True
    with hi pw show ?thesis by (simp add: signed_def)
  next
    case False
    then have "v mod 2 ^ w = (v + 2 ^ w) mod 2 ^ w" by simp
    also have "\<dots> = v + 2 ^ w" using False lo hi pw by (intro mod_pos_pos_trivial) linarith+
    finally have "v mod 2 ^ w = v + 2 ^ w" .
    with False lo pw show ?thesis by (simp add: signed_def Let_def)
  qed
qed

lemma signed_mod_mod: "w \<le> u \<Longrightarrow> signed w (v mod 2 ^ u) = signed w v"
  by (simp add: signed_def Let_def mod_mod_cancel le_imp_power_dvd)

lemma unzigzag_zigzag [simp]: "unzigzag (zigzag v) = v"
  by (auto simp: zigzag_def unzigzag_def)

lemma zigzag_bounds: "- (2 ^ n) \<le> v \<Longrightarrow> v < 2 ^ n \<Longrightarrow> 0 \<le> zigzag v \<and> zigzag v < 2 ^ Suc n"
  by (auto simp: zigzag_def)

lemma signed32: "in_range Int32Kind v \<Longrightarrow> signed 32 (v mod 2 ^ 64) = v \<and> signed 64 (v mod 2 ^ 64) = v
    \<and> signed 32 (v mod 2 ^ 32) = v"
  using signed_mod [of 32 v] signed_mod [of 64 v] signed_mod_mod [of 32 64 v] signed_mod_mod [of 32 32 v]
  by (simp add: in_range_def)

lemma signed64: "in_range Int64Kind v \<Longrightarrow> signed 64 (v mod 2 ^ 64) = v"
  using signed_mod [of 64 v] by (simp add: in_range_def)

lemma zigzag_mod:
  "in_range Int32Kind v \<Longrightarrow> zigzag v mod 2 ^ 32 = zigzag v \<and> zigzag v mod 2 ^ 64 = zigzag v"
  "in_range Int64Kind v \<Longrightarrow> zigzag v mod 2 ^ 64 = zigzag v"
  using zigzag_bounds [of 31 v] zigzag_bounds [of 63 v] by (simp_all add: in_range_def)

lemma decoded_payload: "int_kind k \<Longrightarrow> in_range k v \<Longrightarrow> decoded k (payload k v) = v"
  using signed32 [of v] signed64 [of v] zigzag_mod [of v]
  by (cases k) (simp_all add: decoded_def payload_def in_range_def)

lemma decoded_widening: "widening ok = Some nk \<Longrightarrow> in_range ok v \<Longrightarrow> decoded nk (payload ok v) = v"
  using signed32 [of v] zigzag_mod [of v]
  by (auto dest!: widening_cases simp: decoded_def payload_def in_range_def)

text \<open>
  C29. Soundness of the wire judgement on integer fields, against the reference semantics of
  the encodings: when \<open>wireTypeChange\<close> calls a change between integer kinds safe (INFO) and
  the kinds are not a signed/unsigned fixed-width pair, a reader of the new kind decodes
  from every payload written with the old kind exactly the integer that was written.
\<close>
theorem wire_info_preserves_integers:
  assumes "int_kind (fd_Kind ofd)" and "fst (wireTypeChange e ofd nfd) = SeverityInfo"
    and "\<not> isFixedPair (fd_Kind ofd) (fd_Kind nfd)" and "in_range (fd_Kind ofd) v"
  shows "decoded (fd_Kind nfd) (payload (fd_Kind ofd) v) = v"
proof -
  from assms(1,2,3) have "fd_Kind ofd = fd_Kind nfd \<or> widening (fd_Kind ofd) = Some (fd_Kind nfd)"
    by (auto simp: wireTypeChange_info)
  then show ?thesis
    using assms(1,4) decoded_payload [of "fd_Kind ofd" v] decoded_widening [of "fd_Kind ofd" "fd_Kind nfd" v]
    by auto
qed

theorem wire_info_preserves_integers_witness:
  "decoded Int64Kind (payload Int32Kind (- 5)) = - 5"
  using wire_info_preserves_integers [of "plain_field ''a'' 1 Int32Kind" plain_env
      "plain_field ''a'' 1 Int64Kind" "- 5"]
  by (simp add: wireTypeChange_info in_range_def isFixedPair_def)

text \<open>
  The exception of the previous property is real: \<open>fixed32\<close> to \<open>sfixed32\<close> is judged
  provably safe in both encodings (wire INFO, JSON INFO), yet there is a value the old kind
  holds and writes that a reader of the new kind decodes as a different integer.
\<close>
theorem fixed_pair_judged_safe_but_reinterprets:
  "fst (wireTypeChange e (plain_field n i Fixed32Kind) (plain_field n i Sfixed32Kind)) = SeverityInfo \<and>
   fst (jsonTypeChange e (plain_field n i Fixed32Kind) (plain_field n i Sfixed32Kind)) = SeverityInfo \<and>
   (\<exists>v. in_range Fixed32Kind v \<and> decoded Sfixed32Kind (payload Fixed32Kind v) \<noteq> v)"
proof (intro conjI exI [of _ "2 ^ 32 - 1"])
  show "decoded Sfixed32Kind (payload Fixed32Kind (2 ^ 32 - 1)) \<noteq> 2 ^ 32 - 1"
    by (simp add: decoded_def payload_def signed_def)
qed (simp_all add: wireTypeChange_info isFixedPair_def in_range_def)

text \<open>
  Provably safe kind changes compose: if a first release changes a field's kind safely on
  the wire and a second one does again, the change across both is judged safe too, so a
  chain of accepted releases never hides a wire break between its ends.
\<close>
theorem wire_info_composes:
  assumes "fst (wireTypeChange e a b) = SeverityInfo" and "fst (wireTypeChange e b c) = SeverityInfo"
  shows "fst (wireTypeChange e a c) = SeverityInfo"
  using assms unfolding wireTypeChange_info isFixedPair_cases
  by (elim disjE) (auto dest!: widening_cases)

theorem wire_info_composes_witness:
  "fst (wireTypeChange plain_env (plain_field ''a'' 1 Fixed32Kind) (plain_field ''a'' 1 Fixed32Kind))
     = SeverityInfo"
  using wire_info_composes [of plain_env "plain_field ''a'' 1 Fixed32Kind"
      "plain_field ''a'' 1 Sfixed32Kind" "plain_field ''a'' 1 Fixed32Kind"]
  by (simp add: wireTypeChange_info isFixedPair_def)

end
