(* ===== verification/Ranges.thy ===== *)
theory Ranges
  imports Descriptors
begin

text \<open>
  Reserved ranges and names (helpers of \<open>internal/compat/field.go\<close> and \<open>enum.go\<close>). Message
  ranges exclude their end, enum ranges include it; the locale \<open>range_set\<close> is what the two
  membership tests have in common, interpreted on both. The covering tests are loops over a
  32-bit counter: the one for messages stops before its end and always terminates; the one
  for enums runs up to and including its end, so that the increment wraps around when the
  end is the largest 32-bit number. It is modelled with the wrap-around written out and
  without a termination proof (\<open>None\<close> is a loop that never ends).
\<close>

definition int32 :: "int \<Rightarrow> bool" where
  "int32 n \<longleftrightarrow> - (2 ^ 31) \<le> n \<and> n < 2 ^ 31"

definition maxInt32 :: int where
  "maxInt32 = 2 ^ 31 - 1"

definition wrap32 :: "int \<Rightarrow> int" where
  "wrap32 n = (n + 2 ^ 31) mod 2 ^ 32 - 2 ^ 31"

fun hasNumber :: "(int \<times> int) list \<Rightarrow> int \<Rightarrow> bool" where
  "hasNumber [] num = False"
| "hasNumber (r # ranges) num = (if num \<ge> fst r \<and> num < snd r then True else hasNumber ranges num)"

fun hasEnumNumber :: "(int \<times> int) list \<Rightarrow> int \<Rightarrow> bool" where
  "hasEnumNumber [] num = False"
| "hasEnumNumber (r # ranges) num = (if num \<ge> fst r \<and> num \<le> snd r then True else hasEnumNumber ranges num)"

fun hasName :: "string list \<Rightarrow> string \<Rightarrow> bool" where
  "hasName [] name = False"
| "hasName (n # names) name = (if n = name then True else hasName names name)"

function rangeCovered_from :: "(int \<times> int) list \<Rightarrow> int \<Rightarrow> int \<Rightarrow> bool" where
  "rangeCovered_from ranges n hi =
     (if n < hi then (if \<not> hasNumber ranges n then False else rangeCovered_from ranges (n + 1) hi)
      else True)"
  by pat_completeness auto
termination
  by (relation "measure (\<lambda>(ranges, n, hi). nat (hi - n))") auto

declare rangeCovered_from.simps [simp del]

definition rangeCovered :: "(int \<times> int) list \<Rightarrow> int \<times> int \<Rightarrow> bool" where
  "rangeCovered ranges r = rangeCovered_from ranges (fst r) (snd r)"

partial_function (option) enumRangeCovered_from :: "(int \<times> int) list \<Rightarrow> int \<Rightarrow> int \<Rightarrow> bool option" where
  "enumRangeCovered_from ranges n hi =
     (if n \<le> hi then (if \<not> hasEnumNumber ranges n then Some False
                      else enumRangeCovered_from ranges (wrap32 (n + 1)) hi)
      else Some True)"

definition enumRangeCovered :: "(int \<times> int) list \<Rightarrow> int \<times> int \<Rightarrow> bool option" where
  "enumRangeCovered ranges r = enumRangeCovered_from ranges (fst r) (snd r)"

subsection \<open>Membership in a list of ranges\<close>

locale range_set =
  fixes has :: "(int \<times> int) list \<Rightarrow> int \<Rightarrow> bool" and denotes :: "int \<times> int \<Rightarrow> int set"
  assumes has_iff: "has rs n \<longleftrightarrow> (\<exists>r \<in> set rs. n \<in> denotes r)"
begin

lemma has_mono: "set rs \<subseteq> set ss \<Longrightarrow> has rs n \<Longrightarrow> has ss n"
  by (auto simp: has_iff)

lemma has_self: "r \<in> set rs \<Longrightarrow> n \<in> denotes r \<Longrightarrow> has rs n"
  by (auto simp: has_iff)

lemma has_cover:
  "(\<And>r n. r \<in> set rs \<Longrightarrow> n \<in> denotes r \<Longrightarrow> has ss n) \<Longrightarrow> has rs n \<Longrightarrow> has ss n"
  by (auto simp: has_iff)

end

definition field_range :: "int \<times> int \<Rightarrow> int set" where
  "field_range r = {fst r ..< snd r}"

definition enum_range :: "int \<times> int \<Rightarrow> int set" where
  "enum_range r = {fst r .. snd r}"

interpretation fr: range_set hasNumber field_range
proof
  fix rs n
  show "hasNumber rs n \<longleftrightarrow> (\<exists>r \<in> set rs. n \<in> field_range r)"
    by (induction rs) (auto simp: field_range_def)
qed

interpretation er: range_set hasEnumNumber enum_range
proof
  fix rs n
  show "hasEnumNumber rs n \<longleftrightarrow> (\<exists>r \<in> set rs. n \<in> enum_range r)"
    by (induction rs) (auto simp: enum_range_def)
qed

lemma hasName_iff [simp]: "hasName names name \<longleftrightarrow> name \<in> set names"
  by (induction names) auto

subsection \<open>Covering\<close>

lemma rangeCovered_from_iff:
  "rangeCovered_from rs lo hi \<longleftrightarrow> (\<forall>n \<in> {lo ..< hi}. hasNumber rs n)"
proof (induction rs lo hi rule: rangeCovered_from.induct)
  case (1 rs lo hi)
  have "{lo ..< hi} = insert lo {lo + 1 ..< hi}" if "lo < hi" using that by auto
  with 1 show ?case by (subst rangeCovered_from.simps) auto
qed

lemma rangeCovered_iff: "rangeCovered rs r \<longleftrightarrow> (\<forall>n \<in> field_range r. hasNumber rs n)"
  by (simp add: rangeCovered_def rangeCovered_from_iff field_range_def)

lemma wrap32_id: "int32 n \<Longrightarrow> wrap32 n = n"
  by (simp add: int32_def wrap32_def)

lemma wrap32_overflow: "wrap32 (maxInt32 + 1) = - (2 ^ 31)"
  by (simp add: wrap32_def maxInt32_def)

lemma int32_wrap32: "int32 (wrap32 n)"
  by (simp add: int32_def wrap32_def)

lemma int32_le_max: "int32 n \<Longrightarrow> n \<le> maxInt32"
  by (simp add: int32_def maxInt32_def)

lemma enumRangeCovered_from_below:
  assumes "int32 lo" and "hi < maxInt32"
  shows "enumRangeCovered_from rs lo hi = Some (\<forall>n \<in> {lo .. hi}. hasEnumNumber rs n)"
  using assms(1)
proof (induction "nat (hi + 1 - lo)" arbitrary: lo)
  case 0
  then show ?case by (subst enumRangeCovered_from.simps) auto
next
  case (Suc k)
  then have le: "lo \<le> hi" by simp
  with Suc.prems assms(2) have i: "int32 (lo + 1)" by (simp add: int32_def maxInt32_def)
  have IH: "enumRangeCovered_from rs (lo + 1) hi = Some (\<forall>n \<in> {lo + 1 .. hi}. hasEnumNumber rs n)"
    using Suc.hyps(2) i by (intro Suc.hyps(1)) simp_all
  have "{lo .. hi} = insert lo {lo + 1 .. hi}" using le by auto
  with IH le show ?case
    by (subst enumRangeCovered_from.simps) (simp add: wrap32_id [OF i])
qed

lemma enumRangeCovered_from_max:
  assumes "int32 lo"
  shows "enumRangeCovered_from rs lo maxInt32 =
     (if \<forall>n \<in> {lo .. maxInt32}. hasEnumNumber rs n
      then enumRangeCovered_from rs (- (2 ^ 31)) maxInt32 else Some False)"
  using assms
proof (induction "nat (maxInt32 - lo)" arbitrary: lo)
  case 0
  then have "lo = maxInt32" by (simp add: int32_def maxInt32_def)
  have step: "enumRangeCovered_from rs maxInt32 maxInt32 =
     (if \<not> hasEnumNumber rs maxInt32 then Some False
      else enumRangeCovered_from rs (- (2 ^ 31)) maxInt32)"
    by (subst enumRangeCovered_from.simps) (simp only: wrap32_overflow order_refl if_True)
  show ?case unfolding \<open>lo = maxInt32\<close> using step by simp
next
  case (Suc k)
  then have le: "lo < maxInt32" by simp
  with Suc.prems have i: "int32 (lo + 1)" by (simp add: int32_def maxInt32_def)
  have IH: "enumRangeCovered_from rs (lo + 1) maxInt32 =
     (if \<forall>n \<in> {lo + 1 .. maxInt32}. hasEnumNumber rs n
      then enumRangeCovered_from rs (- (2 ^ 31)) maxInt32 else Some False)"
    using Suc.hyps(2) i by (intro Suc.hyps(1)) simp_all
  have "{lo .. maxInt32} = insert lo {lo + 1 .. maxInt32}" using le by auto
  with IH le show ?case
    by (subst enumRangeCovered_from.simps) (simp add: wrap32_id [OF i])
qed

lemma int32_interval: "int32 n \<longleftrightarrow> n \<in> {- (2 ^ 31) .. maxInt32}"
  by (auto simp: int32_def maxInt32_def)

lemma enumRangeCovered_max_gap:
  assumes "int32 lo" and "int32 n" and "\<not> hasEnumNumber rs n"
  shows "enumRangeCovered_from rs lo maxInt32 = Some False"
proof -
  have i: "int32 (- (2 ^ 31))" by (simp add: int32_def)
  have neg: "(\<forall>m \<in> {- (2 ^ 31) .. maxInt32}. hasEnumNumber rs m) = False"
    using assms(2,3) unfolding int32_interval by blast
  have "enumRangeCovered_from rs (- (2 ^ 31)) maxInt32 = Some False"
    by (subst enumRangeCovered_from_max [OF i]) (simp only: neg if_False)
  then show ?thesis
    by (subst enumRangeCovered_from_max [OF assms(1)]) (simp only: if_cancel)
qed

lemma enumRangeCovered_max_hang:
  assumes "int32 lo" and all: "\<And>n. int32 n \<Longrightarrow> hasEnumNumber rs n"
  shows "enumRangeCovered_from rs lo maxInt32 = None"
proof (rule ccontr)
  assume "enumRangeCovered_from rs lo maxInt32 \<noteq> None"
  then obtain b where "enumRangeCovered_from rs lo maxInt32 = Some b" by blast
  then have "\<not> (rs = rs \<and> int32 lo \<and> maxInt32 = maxInt32)"
  proof (rule enumRangeCovered_from.raw_induct
      [where P = "\<lambda>rs' n hi b. \<not> (rs' = rs \<and> int32 n \<and> hi = maxInt32)", rotated])
    fix f rs' n hi b
    assume IH: "\<And>rs' n hi b. f rs' n hi = Some b \<Longrightarrow> \<not> (rs' = rs \<and> int32 n \<and> hi = maxInt32)"
      and eq: "(if n \<le> hi then if \<not> hasEnumNumber rs' n then Some False else f rs' (wrap32 (n + 1)) hi
          else Some True) = Some b"
    show "\<not> (rs' = rs \<and> int32 n \<and> hi = maxInt32)"
      using IH [of rs' "wrap32 (n + 1)" hi b] eq all [of n] int32_le_max [of n] int32_wrap32 [of "n + 1"]
      by auto
  qed
  with assms(1) show False by simp
qed

text \<open>
  \<open>rangeCovered\<close> (message reserved ranges, end-exclusive) always terminates and decides
  exactly whether every number of the old range lies in some new range.
\<close>
theorem rangeCovered_correct:
  "rangeCovered ranges r \<longleftrightarrow> (\<forall>n. fst r \<le> n \<and> n < snd r \<longrightarrow> (\<exists>s \<in> set ranges. fst s \<le> n \<and> n < snd s))"
  by (auto simp: rangeCovered_iff field_range_def fr.has_iff)

theorem rangeCovered_correct_witness: "rangeCovered [(1, 4), (4, 9)] (2, 7)"
  by (subst rangeCovered_correct) auto

text \<open>
  C28. \<open>enumRangeCovered\<close> (enum reserved ranges, end-inclusive, a counter of 32 bits) on every
  range of 32-bit numbers: below the largest 32-bit number it terminates and decides exactly
  whether every number of the old range lies in some new range. A range that ends at the
  largest 32-bit number (\<open>reserved n to max\<close>) is reported as not covered whenever any 32-bit
  number is outside the new ranges, also one outside the old range, because the counter
  wraps around; and when the new ranges hold every 32-bit number the loop never ends.
\<close>
theorem enumRangeCovered_correct:
  assumes "int32 (fst r)" and "int32 (snd r)"
  shows "enumRangeCovered ranges r =
    (if snd r \<noteq> maxInt32 then Some (\<forall>n. fst r \<le> n \<and> n \<le> snd r \<longrightarrow> hasEnumNumber ranges n)
     else if \<exists>n. int32 n \<and> \<not> hasEnumNumber ranges n then Some False
     else None)"
proof (cases "snd r = maxInt32")
  case True
  then show ?thesis
    using enumRangeCovered_max_gap [OF assms(1), of _ ranges]
      enumRangeCovered_max_hang [OF assms(1), of ranges]
    by (auto simp: enumRangeCovered_def)
next
  case False
  with assms(2) have "snd r < maxInt32" using int32_le_max [of "snd r"] by simp
  from enumRangeCovered_from_below [OF assms(1) this, of ranges] False
  show ?thesis by (simp add: enumRangeCovered_def Ball_def)
qed

theorem enumRangeCovered_correct_witness:
  "enumRangeCovered [(5, 9)] (6, 8) = Some True \<and>
   enumRangeCovered [(1000, maxInt32)] (1000, maxInt32) = Some False"
proof -
  have int32_1000: "int32 1000" and int32_max: "int32 maxInt32"
    by (simp_all add: int32_def maxInt32_def)
  have "int32 0 \<and> \<not> hasEnumNumber [(1000, maxInt32)] 0" by (simp add: int32_def)
  then have "\<exists>n. int32 n \<and> \<not> hasEnumNumber [(1000, maxInt32)] n" by blast
  then have "enumRangeCovered [(1000, maxInt32)] (1000, maxInt32) = Some False"
    using enumRangeCovered_correct [of "(1000, maxInt32)" "[(1000, maxInt32)]"]
    by (simp add: int32_1000 int32_max del: hasEnumNumber.simps)
  moreover have "enumRangeCovered [(5, 9)] (6, 8) = Some True"
    using enumRangeCovered_correct [of "(6, 8)" "[(5, 9)]"] by (simp add: int32_def maxInt32_def)
  ultimately show ?thesis by simp
qed

end
