(* ===== verification/Enum_Check.thy ===== *)
theory Enum_Check
  imports Ranges
begin

text \<open>
  \<open>compareEnums\<close> of \<open>internal/compat/enum.go\<close>: the comparison of two versions of one enum.
  The three loops over the value maps range in the order of the environment (sites 0 to 2
  of the enum's name); every body is a definition of its own that returns the findings it
  adds.
\<close>

definition enumValuesByNumber :: "enum_desc \<Rightarrow> (int \<times> enum_value) list" where
  "enumValuesByNumber ed = put_all ev_Number (ed_Values ed)"

definition enum_value_removed :: "go_env \<Rightarrow> enum_desc \<Rightarrow> enum_desc \<Rightarrow> int \<times> enum_value \<Rightarrow> finding list" where
  "enum_value_removed e old new p =
     (let num = fst p; ov = snd p; fqn = ed_FullName old; path = ev_Name ov;
          newReservedNums = ed_ReservedRanges new; newReservedNames = ed_ReservedNames new;
          newVals = enumValuesByNumber new in
      if map_of newVals num \<noteq> None then []
      else
        (if hasEnumNumber newReservedNums num \<and> hasName newReservedNames (ev_Name ov) then
           [add_finding ''ENUM_VALUE_REMOVED_RESERVED'' SeverityInfo DimensionBoth fqn path
              (sprintf e ''enum value %s (%d) deleted with number and name reserved''
                 [AStr (ev_Name ov), AInt num])]
         else if hasEnumNumber newReservedNums num then
           [add_finding ''ENUM_VALUE_REMOVED_NAME_UNRESERVED'' SeverityWarn DimensionJSON fqn path
              (sprintf e ''enum value %s (%d) deleted: number reserved but name is not; a future value may reuse the JSON name''
                 [AStr (ev_Name ov), AInt num])]
         else
           [add_finding ''ENUM_VALUE_REMOVED_UNRESERVED'' SeverityFail DimensionWire fqn path
              (sprintf e ''enum value %s (%d) deleted without reserving the number; a future value may reuse %d and reinterpret stored data''
                 [AStr (ev_Name ov), AInt num, AInt num])]) @
        (if num = 0 then
           [add_finding ''ENUM_DEFAULT_REMOVED'' SeverityFail DimensionBoth fqn path
              (sprintf e ''the zero value %s was removed; the zero value is the implicit default for every unset enum field''
                 [AStr (ev_Name ov)])]
         else []))"

definition enum_value_added :: "go_env \<Rightarrow> enum_desc \<Rightarrow> enum_desc \<Rightarrow> int \<times> enum_value \<Rightarrow> finding list" where
  "enum_value_added e old new p =
     (let num = fst p; nv = snd p; fqn = ed_FullName old; path = ev_Name nv;
          closed = (ed_Syntax old = Proto2); oldReservedNums = ed_ReservedRanges old;
          oldVals = enumValuesByNumber old in
      if map_of oldVals num \<noteq> None then []
      else if hasEnumNumber oldReservedNums num then
        [add_finding ''ENUM_VALUE_USES_RESERVED_NUMBER'' SeverityWarn DimensionWire fqn path
           (sprintf e ''enum value %s reuses reserved number %d; if it was reserved after a historical deletion, stored data may be misread''
              [AStr (ev_Name nv), AInt num])]
      else if closed then
        [add_finding ''ENUM_VALUE_ADDED'' SeverityWarn DimensionWire fqn path
           (sprintf e ''enum value %s (%d) added to a proto2 closed enum; old readers move it to unknown fields and observe the default instead''
              [AStr (ev_Name nv), AInt num])]
      else
        [add_finding ''ENUM_VALUE_ADDED'' SeverityInfo DimensionWire fqn path
           (sprintf e ''enum value %s (%d) added; proto3 open enums carry unknown values safely''
              [AStr (ev_Name nv), AInt num])])"

definition enum_value_renamed :: "go_env \<Rightarrow> enum_desc \<Rightarrow> enum_desc \<Rightarrow> int \<times> enum_value \<Rightarrow> finding list" where
  "enum_value_renamed e old new p =
     (let num = fst p; ov = snd p in
      case map_of (enumValuesByNumber new) num of
        None \<Rightarrow> []
      | Some nv \<Rightarrow>
          if ev_Name ov = ev_Name nv then []
          else
            [add_finding ''ENUM_VALUE_RENAMED'' SeverityFail DimensionJSON (ed_FullName old) (ev_Name ov)
               (sprintf e ''enum value %d renamed %s -> %s; the JSON form is the name, so JSON payloads and consumers comparing names break''
                  [AInt num, AStr (ev_Name ov), AStr (ev_Name nv)] @
                (if num = 0 then ''; this value is also the implicit default, so default-rendered JSON changes''
                 else []))])"

definition enum_default_changed :: "go_env \<Rightarrow> enum_desc \<Rightarrow> enum_desc \<Rightarrow> finding list" where
  "enum_default_changed e old new =
     (case (map_of (enumValuesByNumber old) 0, map_of (enumValuesByNumber new) 0) of
        (Some oldZero, Some newZero) \<Rightarrow>
          if ev_Name oldZero \<noteq> ev_Name newZero then
            [add_finding ''ENUM_DEFAULT_VALUE_CHANGED'' SeverityWarn DimensionJSON (ed_FullName old)
               (ev_Name oldZero)
               (sprintf e ''the zero (default) value changed name %s -> %s; unset enum fields now serialize to a different JSON string''
                  [AStr (ev_Name oldZero), AStr (ev_Name newZero)])]
          else []
      | _ \<Rightarrow> [])"

definition enum_range_unreserved :: "go_env \<Rightarrow> enum_desc \<Rightarrow> enum_desc \<Rightarrow> int \<times> int \<Rightarrow> finding run" where
  "enum_range_unreserved e old new r =
     (case enumRangeCovered (ed_ReservedRanges new) r of
        None \<Rightarrow> Inl Hang
      | Some True \<Rightarrow> Inr []
      | Some False \<Rightarrow>
          Inr [add_finding ''ENUM_RESERVED_RANGE_REMOVED'' SeverityWarn DimensionWire (ed_FullName old) ''''
            (sprintf e ''enum reserved range [%d, %d] was un-reserved; if it protected a historical deletion, stored data may be misread''
               [AInt (fst r), AInt (snd r)])])"

definition compareEnums :: "go_env \<Rightarrow> enum_desc \<Rightarrow> enum_desc \<Rightarrow> finding run" where
  "compareEnums e old new =
     (let fqn = ed_FullName old; oldVals = enumValuesByNumber old; newVals = enumValuesByNumber new in
      run_all
        [Inr (concat (map (enum_value_removed e old new) (range_map (numOrder e fqn 0) oldVals))),
         Inr (concat (map (enum_value_added e old new) (range_map (numOrder e fqn 1) newVals))),
         Inr (concat (map (enum_value_renamed e old new) (range_map (numOrder e fqn 2) oldVals))),
         Inr (enum_default_changed e old new),
         run_all (map (enum_range_unreserved e old new) (ed_ReservedRanges old))])"

subsection \<open>The findings of a comparison\<close>

lemma distinct_enumValues [simp]: "distinct (map fst (enumValuesByNumber ed))"
  by (simp add: enumValuesByNumber_def)

lemma set_range_enum:
  "fair_env e \<Longrightarrow> set (range_map (numOrder e s i) (enumValuesByNumber ed)) = set (enumValuesByNumber ed)"
  by (intro set_range_map) (simp_all add: fair_intros)

lemma mset_range_enum:
  "fair_env e \<Longrightarrow> mset (range_map (numOrder e s i) (enumValuesByNumber ed)) = mset (enumValuesByNumber ed)"
  by (intro mset_range_map) (simp_all add: fair_intros)

lemma run_ok_compareEnums:
  "run_ok (compareEnums e old new) \<longleftrightarrow>
     (\<forall>r \<in> set (ed_ReservedRanges old). enumRangeCovered (ed_ReservedRanges new) r \<noteq> None)"
  by (auto simp: compareEnums_def Let_def enum_range_unreserved_def split: option.splits bool.splits)

lemma set_compareEnums:
  assumes "fair_env e" and "run_ok (compareEnums e old new)"
  shows "set (out (compareEnums e old new)) =
     (\<Union>p \<in> set (enumValuesByNumber old). set (enum_value_removed e old new p)) \<union>
     (\<Union>p \<in> set (enumValuesByNumber new). set (enum_value_added e old new p)) \<union>
     (\<Union>p \<in> set (enumValuesByNumber old). set (enum_value_renamed e old new p)) \<union>
     set (enum_default_changed e old new) \<union>
     (\<Union>r \<in> set (ed_ReservedRanges old). set (out (enum_range_unreserved e old new r)))"
proof -
  from assms(2) have "run_ok (run_all (map (enum_range_unreserved e old new) (ed_ReservedRanges old)))"
    by (simp add: compareEnums_def Let_def)
  with assms show ?thesis
    by (auto simp: compareEnums_def Let_def set_range_enum)
qed

lemma enum_value_removed_judged:
  "all_info (enum_value_removed e old new (num, ov)) \<longleftrightarrow>
     map_of (enumValuesByNumber new) num \<noteq> None \<or>
     num \<noteq> 0 \<and> hasEnumNumber (ed_ReservedRanges new) num \<and> ev_Name ov \<in> set (ed_ReservedNames new)"
  "no_fail (enum_value_removed e old new (num, ov)) \<longleftrightarrow>
     map_of (enumValuesByNumber new) num \<noteq> None \<or>
     num \<noteq> 0 \<and> hasEnumNumber (ed_ReservedRanges new) num"
  by (auto simp: enum_value_removed_def Let_def)

lemma enum_value_added_judged:
  "all_info (enum_value_added e old new (num, nv)) \<longleftrightarrow>
     map_of (enumValuesByNumber old) num \<noteq> None \<or>
     \<not> hasEnumNumber (ed_ReservedRanges old) num \<and> ed_Syntax old \<noteq> Proto2"
  "no_fail (enum_value_added e old new (num, nv))"
  by (auto simp: enum_value_added_def Let_def)

lemma enum_value_renamed_judged:
  "all_info (enum_value_renamed e old new (num, ov)) \<longleftrightarrow>
     (\<forall>nv. map_of (enumValuesByNumber new) num = Some nv \<longrightarrow> ev_Name nv = ev_Name ov)"
  "no_fail (enum_value_renamed e old new (num, ov)) \<longleftrightarrow>
     (\<forall>nv. map_of (enumValuesByNumber new) num = Some nv \<longrightarrow> ev_Name nv = ev_Name ov)"
  by (auto simp: enum_value_renamed_def Let_def split: option.splits)

lemma enum_default_changed_judged:
  "all_info (enum_default_changed e old new) \<longleftrightarrow>
     (\<forall>ov nv. map_of (enumValuesByNumber old) 0 = Some ov \<longrightarrow>
        map_of (enumValuesByNumber new) 0 = Some nv \<longrightarrow> ev_Name nv = ev_Name ov)"
  "no_fail (enum_default_changed e old new)"
  by (auto simp: enum_default_changed_def split: option.splits)

lemma enum_range_unreserved_judged:
  "all_info (out (enum_range_unreserved e old new r)) \<longleftrightarrow>
     enumRangeCovered (ed_ReservedRanges new) r \<noteq> Some False"
  "no_fail (out (enum_range_unreserved e old new r))"
  by (auto simp: enum_range_unreserved_def split: option.splits bool.splits)

lemmas enum_judged =
  enum_value_removed_judged enum_value_added_judged enum_value_renamed_judged
  enum_default_changed_judged enum_range_unreserved_judged

definition enum_ranges_kept :: "enum_desc \<Rightarrow> enum_desc \<Rightarrow> bool" where
  "enum_ranges_kept old new \<longleftrightarrow>
     (\<forall>r \<in> set (ed_ReservedRanges old). enumRangeCovered (ed_ReservedRanges new) r = Some True)"

definition enum_value_kept :: "enum_desc \<Rightarrow> int \<Rightarrow> enum_value \<Rightarrow> bool" where
  "enum_value_kept new num ov \<longleftrightarrow>
     (case map_of (enumValuesByNumber new) num of
        Some nv \<Rightarrow> ev_Name nv = ev_Name ov
      | None \<Rightarrow> num \<noteq> 0 \<and> hasEnumNumber (ed_ReservedRanges new) num \<and>
          ev_Name ov \<in> set (ed_ReservedNames new))"

lemma all_info_compareEnums:
  assumes "fair_env e" and "run_ok (compareEnums e old new)"
  shows "all_info (out (compareEnums e old new)) \<longleftrightarrow>
     (\<forall>(num, ov) \<in> set (enumValuesByNumber old). enum_value_kept new num ov) \<and>
     (\<forall>(num, nv) \<in> set (enumValuesByNumber new). map_of (enumValuesByNumber old) num \<noteq> None \<or>
        \<not> hasEnumNumber (ed_ReservedRanges old) num \<and> ed_Syntax old \<noteq> Proto2) \<and>
     enum_ranges_kept old new"
proof -
  from assms(2) have some: "\<forall>r \<in> set (ed_ReservedRanges old).
      (enumRangeCovered (ed_ReservedRanges new) r \<noteq> Some False) =
      (enumRangeCovered (ed_ReservedRanges new) r = Some True)"
    by (auto simp: run_ok_compareEnums)
  have parts: "all_info (out (compareEnums e old new)) \<longleftrightarrow>
     (\<forall>p \<in> set (enumValuesByNumber old). all_info (enum_value_removed e old new p)) \<and>
     (\<forall>p \<in> set (enumValuesByNumber new). all_info (enum_value_added e old new p)) \<and>
     (\<forall>p \<in> set (enumValuesByNumber old). all_info (enum_value_renamed e old new p)) \<and>
     all_info (enum_default_changed e old new) \<and>
     (\<forall>r \<in> set (ed_ReservedRanges old). all_info (out (enum_range_unreserved e old new r)))"
    unfolding all_info_def set_compareEnums [OF assms] by blast
  have kept: "enum_value_kept new num ov \<longleftrightarrow>
      all_info (enum_value_removed e old new (num, ov)) \<and> all_info (enum_value_renamed e old new (num, ov))"
    for num ov
    by (auto simp: enum_value_kept_def enum_judged split: option.splits)
  have dflt: "all_info (enum_default_changed e old new)"
    if "\<forall>p \<in> set (enumValuesByNumber old). all_info (enum_value_renamed e old new p)"
    using that by (auto simp: enum_judged split_paired_Ball_Sigma dest!: map_of_SomeD bspec)
  have "(\<forall>r \<in> set (ed_ReservedRanges old). all_info (out (enum_range_unreserved e old new r)))
      \<longleftrightarrow> enum_ranges_kept old new"
    using some by (simp add: enum_judged enum_ranges_kept_def)
  then show ?thesis
    unfolding parts using dflt by (auto simp: kept enum_value_added_judged split: prod.splits)
qed

definition enum_value_broken :: "enum_desc \<Rightarrow> int \<Rightarrow> enum_value \<Rightarrow> bool" where
  "enum_value_broken new num ov \<longleftrightarrow>
     (case map_of (enumValuesByNumber new) num of
        Some nv \<Rightarrow> ev_Name nv \<noteq> ev_Name ov
      | None \<Rightarrow> num = 0 \<or> \<not> hasEnumNumber (ed_ReservedRanges new) num)"

lemma no_fail_compareEnums:
  assumes "fair_env e" and "run_ok (compareEnums e old new)"
  shows "no_fail (out (compareEnums e old new)) \<longleftrightarrow>
     (\<forall>(num, ov) \<in> set (enumValuesByNumber old). \<not> enum_value_broken new num ov)"
proof -
  have parts: "no_fail (out (compareEnums e old new)) \<longleftrightarrow>
     (\<forall>p \<in> set (enumValuesByNumber old). no_fail (enum_value_removed e old new p)) \<and>
     (\<forall>p \<in> set (enumValuesByNumber old). no_fail (enum_value_renamed e old new p))"
    using enum_value_added_judged(2) [of e old new] enum_default_changed_judged(2) [of e old new]
      enum_range_unreserved_judged(2) [of e old new]
    unfolding no_fail_def set_compareEnums [OF assms] by (auto split: prod.splits)
  have broken: "enum_value_broken new num ov \<longleftrightarrow> \<not> (no_fail (enum_value_removed e old new (num, ov)) \<and>
      no_fail (enum_value_renamed e old new (num, ov)))" for num ov
    by (auto simp: enum_judged enum_value_broken_def split: option.splits)
  show ?thesis unfolding parts by (auto simp: broken)
qed

subsection \<open>Order of the findings\<close>

definition same_lib :: "go_env \<Rightarrow> go_env \<Rightarrow> bool" where
  "same_lib e e' \<longleftrightarrow> quoteWide e = quoteWide e' \<and> showFloat e = showFloat e'"

lemma quote_cong: "same_lib e e' \<Longrightarrow> quote e = quote e'"
  by (simp add: fun_eq_iff quote_def same_lib_def)

lemma sprintf_eq: "same_lib e e' \<Longrightarrow> sprintf e s as = sprintf e' s as"
proof (induction e s as rule: sprintf.induct)
  case (3 e c v cs as)
  have "fmt_one e v a = fmt_one e' v a" for a
    using "3.prems" by (cases a) (simp_all add: quote_cong)
  with 3 show ?case by (simp add: sprintf.simps split: list.splits)
qed (simp_all add: sprintf.simps)

lemma sprintf_cong: "same_lib e e' \<Longrightarrow> sprintf e = sprintf e'"
  by (intro ext sprintf_eq)

lemma enum_bodies_cong:
  assumes "same_lib e e'"
  shows "enum_value_removed e = enum_value_removed e'" "enum_value_added e = enum_value_added e'"
    "enum_value_renamed e = enum_value_renamed e'" "enum_default_changed e = enum_default_changed e'"
    "enum_range_unreserved e = enum_range_unreserved e'"
  using sprintf_cong [OF assms]
  by (simp_all add: fun_eq_iff enum_value_removed_def enum_value_added_def enum_value_renamed_def
      enum_default_changed_def enum_range_unreserved_def Let_def split: option.splits bool.splits)

lemma mset_concat_map: "mset xs = mset ys \<Longrightarrow> mset (concat (map f xs)) = mset (concat (map f ys))"
  by (intro mset_concat_perm) simp

lemma same_run_compareEnums:
  assumes "fair_env e" and "fair_env e'" and "same_lib e e'"
  shows "same_run (compareEnums e old new) (compareEnums e' old new)"
  unfolding compareEnums_def Let_def enum_bodies_cong [OF assms(3)]
  using assms(1,2) by (intro same_run_pointwise) (auto intro!: mset_concat_map simp: mset_range_enum)

subsection \<open>Properties\<close>

text \<open>
  C15. The verdict of an enum comparison, for every iteration order: the comparison is
  COMPATIBLE exactly when every old value keeps its number and name, or has both reserved
  and is not the zero value; when every new number is outside the old reserved ranges and
  the enum is not a closed (proto2) one; and when the new ranges cover the old reserved
  ranges. It is INCOMPATIBLE exactly when a value under a kept number changed its name, a
  value was deleted without reserving its number, or the zero value was deleted.
\<close>
theorem compareEnums_verdict:
  assumes "fair_env e" and "compareEnums e old new = Inr fs"
  shows "(verdictOf fs = VerdictCompatible \<longleftrightarrow>
      (\<forall>(num, ov) \<in> set (enumValuesByNumber old). enum_value_kept new num ov) \<and>
      (\<forall>(num, nv) \<in> set (enumValuesByNumber new). map_of (enumValuesByNumber old) num \<noteq> None \<or>
         \<not> hasEnumNumber (ed_ReservedRanges old) num \<and> ed_Syntax old \<noteq> Proto2) \<and>
      enum_ranges_kept old new) \<and>
    (verdictOf fs = VerdictIncompatible \<longleftrightarrow>
      (\<exists>(num, ov) \<in> set (enumValuesByNumber old). enum_value_broken new num ov))"
proof -
  from assms(2) have ok: "run_ok (compareEnums e old new)" and fs: "fs = out (compareEnums e old new)"
    by simp_all
  have "verdictOf fs = VerdictIncompatible \<longleftrightarrow>
      (\<exists>(num, ov) \<in> set (enumValuesByNumber old). enum_value_broken new num ov)"
    unfolding verdictOf_incompatible fs no_fail_compareEnums [OF assms(1) ok] by auto
  then show ?thesis
    using all_info_compareEnums [OF assms(1) ok] by (simp add: verdictOf_compatible fs)
qed

definition job_status :: "enum_value list \<Rightarrow> (int \<times> int) list \<Rightarrow> string list \<Rightarrow> enum_desc" where
  "job_status vs rr rn = \<lparr>ed_FullName = ''jobs.Status'', ed_Syntax = Proto3, ed_Values = vs,
     ed_ReservedRanges = rr, ed_ReservedNames = rn\<rparr>"

definition enum_val :: "string \<Rightarrow> int \<Rightarrow> enum_value" where
  "enum_val name num = \<lparr>ev_Name = name, ev_Number = num\<rparr>"

definition status_old :: enum_desc where
  "status_old = job_status [enum_val ''UNKNOWN'' 0, enum_val ''PAUSED'' 2] [] []"

definition status_new :: enum_desc where
  "status_new = job_status [enum_val ''UNKNOWN'' 0] [(2, 2)] [''PAUSED'']"

theorem compareEnums_verdict_witness:
  "verdictOf (out (compareEnums plain_env status_old status_new)) = VerdictCompatible"
proof -
  have run: "compareEnums plain_env status_old status_new =
      Inr (out (compareEnums plain_env status_old status_new))"
    by (rule run_okE) (simp add: run_ok_compareEnums status_old_def job_status_def)
  have kept: "(\<forall>(num, ov) \<in> set (enumValuesByNumber status_old). enum_value_kept status_new num ov) \<and>
      (\<forall>(num, nv) \<in> set (enumValuesByNumber status_new).
         map_of (enumValuesByNumber status_old) num \<noteq> None) \<and>
      enum_ranges_kept status_old status_new"
    by code_simp
  show ?thesis
    using compareEnums_verdict [OF fair_plain_env run] kept by auto
qed

lemma enumValues_Some: "(num, v) \<in> set (enumValuesByNumber ed) \<Longrightarrow> map_of (enumValuesByNumber ed) num = Some v"
  by (simp add: map_of_eq_Some_iff)

lemma enum_bodies_self:
  assumes "p \<in> set (enumValuesByNumber ed)"
  shows "enum_value_removed e ed ed p = []" "enum_value_added e ed ed p = []"
    "enum_value_renamed e ed ed p = []"
proof -
  obtain num v where p: "p = (num, v)" by (cases p)
  with assms have "map_of (enumValuesByNumber ed) num = Some v" by (simp add: enumValues_Some)
  with p show "enum_value_removed e ed ed p = []" "enum_value_added e ed ed p = []"
    "enum_value_renamed e ed ed p = []"
    by (simp_all add: enum_value_removed_def enum_value_added_def enum_value_renamed_def)
qed

lemma compareEnums_self:
  assumes "fair_env e"
  shows "compareEnums e ed ed = run_all (map (enum_range_unreserved e ed ed) (ed_ReservedRanges ed))"
proof -
  have "concat (map (enum_value_removed e ed ed) (range_map (numOrder e s i) (enumValuesByNumber ed))) = []"
    "concat (map (enum_value_added e ed ed) (range_map (numOrder e s i) (enumValuesByNumber ed))) = []"
    "concat (map (enum_value_renamed e ed ed) (range_map (numOrder e s i) (enumValuesByNumber ed))) = []"
    for s i
    using assms by (simp_all add: set_range_enum enum_bodies_self)
  moreover have "enum_default_changed e ed ed = []"
    by (simp add: enum_default_changed_def split: option.splits)
  ultimately show ?thesis
    by (simp add: compareEnums_def Let_def run_all.simps split: sum.splits)
qed

definition enum_ranges_bounded :: "enum_desc \<Rightarrow> bool" where
  "enum_ranges_bounded ed \<longleftrightarrow>
     (\<forall>r \<in> set (ed_ReservedRanges ed). int32 (fst r) \<and> snd r < maxInt32)"

lemma enumRangeCovered_self:
  assumes "r \<in> set rs" and "int32 (fst r)" and "snd r < maxInt32"
  shows "enumRangeCovered rs r = Some True"
  using enumRangeCovered_from_below [OF assms(2,3), of rs] er.has_self [OF assms(1)]
  by (simp add: enumRangeCovered_def enum_range_def)

lemma compareEnums_refl:
  assumes "fair_env e" and "enum_ranges_bounded ed"
  shows "compareEnums e ed ed = Inr []"
proof -
  have "enum_range_unreserved e ed ed r = Inr []" if "r \<in> set (ed_ReservedRanges ed)" for r
    using that assms(2) enumRangeCovered_self [of r "ed_ReservedRanges ed"]
    by (simp add: enum_range_unreserved_def enum_ranges_bounded_def)
  then have "map (enum_range_unreserved e ed ed) (ed_ReservedRanges ed) =
      map (\<lambda>r. Inr []) (ed_ReservedRanges ed)" by simp
  with compareEnums_self [OF assms(1), of ed] show ?thesis by simp
qed

text \<open>
  An enum that reserves numbers up to the largest one (\<open>reserved n to max\<close>) and is not
  changed at all is reported with a WARN finding saying that the range was un-reserved, so
  an identical schema is not COMPATIBLE: the counter of \<open>enumRangeCovered\<close> wraps around and
  tests numbers below the range. Any 32-bit number outside the reserved ranges is enough.
\<close>
theorem enum_reserved_to_max_unchanged_warns:
  assumes "fair_env e" and "compareEnums e ed ed = Inr fs"
    and "(lo, maxInt32) \<in> set (ed_ReservedRanges ed)" and "int32 lo"
    and "int32 n" and "\<not> hasEnumNumber (ed_ReservedRanges ed) n"
  shows "(\<exists>f \<in> set fs. f_Code f = ''ENUM_RESERVED_RANGE_REMOVED'' \<and> f_Severity f = SeverityWarn) \<and>
    verdictOf fs = VerdictNeedsReview"
proof -
  let ?bad = "enum_range_unreserved e ed ed (lo, maxInt32)"
  have "enumRangeCovered (ed_ReservedRanges ed) (lo, maxInt32) = Some False"
    using enumRangeCovered_max_gap [OF assms(4-6)] by (simp add: enumRangeCovered_def)
  then obtain d where bad: "?bad = Inr [add_finding ''ENUM_RESERVED_RANGE_REMOVED'' SeverityWarn
      DimensionWire (ed_FullName ed) '''' d]"
    by (simp add: enum_range_unreserved_def)
  from assms(2) have fs: "fs = concat (map (\<lambda>r. out (enum_range_unreserved e ed ed r)) (ed_ReservedRanges ed))"
    by (simp add: compareEnums_self [OF assms(1)] run_all_Inr_iff comp_def)
  have "\<exists>f \<in> set fs. f_Code f = ''ENUM_RESERVED_RANGE_REMOVED'' \<and> f_Severity f = SeverityWarn"
    unfolding fs using assms(3) bad by force
  moreover have "no_fail fs"
    by (simp add: fs enum_range_unreserved_judged)
  ultimately show ?thesis
    by (auto simp: vo.agg_needs_review no_fail_def)
qed

definition status_reserved :: enum_desc where
  "status_reserved = job_status [enum_val ''UNKNOWN'' 0] [(1000, maxInt32)] []"

theorem enum_reserved_to_max_unchanged_warns_witness:
  "verdictOf (out (compareEnums plain_env status_reserved status_reserved)) = VerdictNeedsReview"
proof -
  have rr: "ed_ReservedRanges status_reserved = [(1000, maxInt32)]"
    by (simp add: status_reserved_def job_status_def)
  have i: "int32 1000" "int32 0" by (simp_all add: int32_def)
  have gap: "\<not> hasEnumNumber [(1000, maxInt32)] 0" by simp
  have "enumRangeCovered [(1000, maxInt32)] (1000, maxInt32) = Some False"
    using enumRangeCovered_max_gap [OF i gap] by (simp add: enumRangeCovered_def)
  then have run: "compareEnums plain_env status_reserved status_reserved =
      Inr (out (compareEnums plain_env status_reserved status_reserved))"
    by (intro run_okE) (simp add: run_ok_compareEnums rr)
  from enum_reserved_to_max_unchanged_warns [OF fair_plain_env run, of 1000 0] i gap
  show ?thesis by (simp add: rr)
qed

text \<open>
  Removing one of two names of the same enum number (\<open>allow_alias\<close>) produces no finding at
  all when the last declared alias is kept, although JSON payloads that spell the removed
  name no longer parse: the value map keeps one name per number.
\<close>
theorem enum_alias_removal_unreported:
  "compareEnums plain_env
     (job_status [enum_val ''UNKNOWN'' 0, enum_val ''STARTED'' 1, enum_val ''RUNNING'' 1] [] [])
     (job_status [enum_val ''UNKNOWN'' 0, enum_val ''RUNNING'' 1] [] []) = Inr []"
  by code_simp

end
