(* ===== verification/Field_Check.thy ===== *)
theory Field_Check
  imports Wire Enum_Check Format
begin

text \<open>
  \<open>compareMessages\<close> of \<open>internal/compat/field.go\<close> and everything it calls: fields that vanish
  or appear, fields under the same number (\<open>compareField\<close> with its type, cardinality, oneof,
  default and required checks), reserved ranges and oneofs. Loops over Go maps range in the
  order of the environment (sites 0 to 2 over field numbers, 0 and 1 over oneof names).
\<close>

subsection \<open>Helpers\<close>

definition fieldsByNumber :: "message_desc \<Rightarrow> (int \<times> field_desc) list" where
  "fieldsByNumber md = put_all fd_Number (md_Fields md)"

definition realOneof :: "field_desc \<Rightarrow> oneof_desc option" where
  "realOneof fd = (case fd_ContainingOneof fd of
     None \<Rightarrow> None | Some od \<Rightarrow> if od_IsSynthetic od then None else Some od)"

definition realOneofs :: "message_desc \<Rightarrow> (string \<times> oneof_desc) list" where
  "realOneofs md = put_all od_Name (filter (\<lambda>od. \<not> od_IsSynthetic od) (md_Oneofs md))"

definition isPackable :: "kind \<Rightarrow> bool" where
  "isPackable k = (k \<notin> {StringKind, BytesKind, MessageKind, GroupKind})"

definition kindLabel :: "field_desc \<Rightarrow> string" where
  "kindLabel fd =
     (let label = (if IsMap fd then ''map<'' @ kind_String (fd_Kind (MapKey fd)) @ '', '' @
                     kind_String (fd_Kind (MapValue fd)) @ ''>'' else kind_String (fd_Kind fd)) in
      if IsList fd then ''repeated '' @ label else label)"

definition em_dash :: string where
  "em_dash = [CHR 0xE2, CHR 0x80, CHR 0x94]"

subsection \<open>Fields under the same number\<close>

definition compareEnumSwap :: "go_env \<Rightarrow> string \<Rightarrow> string \<Rightarrow> field_desc \<Rightarrow> field_desc \<Rightarrow> finding list" where
  "compareEnumSwap e fqn path ofd nfd =
     (let oldEnum = fd_Enum ofd; newEnum = fd_Enum nfd;
          compatible = list_all (\<lambda>v. case enum_ByNumber newEnum (ev_Number v) of
            None \<Rightarrow> False | Some nv \<Rightarrow> ev_Name nv = ev_Name v) (ed_Values oldEnum) in
      if compatible then
        [add_finding ''FIELD_ENUM_TYPE_CHANGED'' SeverityWarn DimensionBoth fqn path
           (sprintf e ''field %s changed enum type %s -> %s; all old values exist with identical names/numbers, but the type identity changed and generated code will differ''
              [AStr (fd_Name ofd), AStr (ed_FullName oldEnum), AStr (ed_FullName newEnum)])]
      else
        [add_finding ''FIELD_ENUM_TYPE_CHANGED'' SeverityFail DimensionBoth fqn path
           (sprintf e ''field %s changed enum type %s -> %s and the value sets differ''
              [AStr (fd_Name ofd), AStr (ed_FullName oldEnum), AStr (ed_FullName newEnum)])])"

definition compareFieldType :: "go_env \<Rightarrow> string \<Rightarrow> string \<Rightarrow> field_desc \<Rightarrow> field_desc \<Rightarrow> finding list" where
  "compareFieldType e fqn path ofd nfd =
     (if IsMap ofd \<or> IsMap nfd then
        (if IsMap ofd \<noteq> IsMap nfd then
           [add_finding ''FIELD_TYPE_CHANGED'' SeverityFail DimensionBoth fqn path
              (sprintf e ''field %s changed between map and non-map'' [AStr (fd_Name ofd)])]
         else
           (let ok = fd_Kind (MapKey ofd); nk = fd_Kind (MapKey nfd);
                ov = fd_Kind (MapValue ofd); nv = fd_Kind (MapValue nfd) in
            if ok \<noteq> nk \<or> ov \<noteq> nv then
              [add_finding ''FIELD_TYPE_CHANGED'' SeverityFail DimensionBoth fqn path
                 (sprintf e ''map field %s changed from map<%s, %s> to map<%s, %s>''
                    [AStr (fd_Name ofd), AStr (kind_String ok), AStr (kind_String ov),
                     AStr (kind_String nk), AStr (kind_String nv)])]
            else []))
      else if fd_Kind ofd = fd_Kind nfd then
        (if fd_Kind ofd = MessageKind \<or> fd_Kind ofd = GroupKind then
           (if fd_Message ofd \<noteq> fd_Message nfd then
              [add_finding ''FIELD_MESSAGE_TYPE_CHANGED'' SeverityFail DimensionBoth fqn path
                 (sprintf e ''field %s changed message type %s -> %s; both are length-delimited on the wire but the payload would be reinterpreted''
                    [AStr (fd_Name ofd), AStr (fd_Message ofd), AStr (fd_Message nfd)])]
            else [])
         else if fd_Kind ofd = EnumKind then
           (if ed_FullName (fd_Enum ofd) \<noteq> ed_FullName (fd_Enum nfd)
            then compareEnumSwap e fqn path ofd nfd else [])
         else [])
      else
        (let wireSev = fst (wireTypeChange e ofd nfd); wireNote = snd (wireTypeChange e ofd nfd);
             jsonSev = fst (jsonTypeChange e ofd nfd); jsonNote = snd (jsonTypeChange e ofd nfd);
             sd = (if jsonSev = SeverityFail then (SeverityFail, DimensionBoth)
                   else if wireSev = SeverityFail then (wireSev, DimensionWire)
                   else if jsonSev = SeverityWarn \<or> wireSev = SeverityWarn
                     then (SeverityWarn, DimensionBoth)
                   else (SeverityInfo, DimensionBoth)) in
         [add_finding ''FIELD_TYPE_CHANGED'' (fst sd) (snd sd) fqn path
            (sprintf e ''field %s changed type %s -> %s. wire: %s; json: %s''
               [AStr (fd_Name ofd), AStr (kindLabel ofd), AStr (kindLabel nfd), AStr wireNote,
                AStr jsonNote])]))"

definition compareCardinality :: "go_env \<Rightarrow> string \<Rightarrow> string \<Rightarrow> field_desc \<Rightarrow> field_desc \<Rightarrow> finding list" where
  "compareCardinality e fqn path ofd nfd =
     (if IsList ofd = IsList nfd then
        (if IsList ofd \<and> fd_IsPacked ofd \<noteq> fd_IsPacked nfd then
           [add_finding ''FIELD_PACKED_CHANGED'' SeverityInfo DimensionBoth fqn path
              (sprintf e ''repeated field %s changed packed=%v -> %v; readers must accept both encodings''
                 [AStr (fd_Name ofd), ABool (fd_IsPacked ofd), ABool (fd_IsPacked nfd)])]
         else [])
      else if \<not> IsList ofd \<and> IsList nfd then
        [add_finding ''FIELD_CARDINALITY_CHANGED'' SeverityFail DimensionJSON fqn path
           (sprintf e ''field %s changed singular -> repeated; wire data stays readable, but JSON changes from value to array''
              [AStr (fd_Name ofd)])]
      else if isPackable (fd_Kind ofd) \<and> fd_IsPacked ofd then
        [add_finding ''FIELD_CARDINALITY_CHANGED'' SeverityFail DimensionBoth fqn path
           (sprintf e ''field %s changed packed repeated -> singular; existing packed payloads become unknown fields to new readers (silent data loss)''
              [AStr (fd_Name ofd)])]
      else
        [add_finding ''FIELD_CARDINALITY_CHANGED'' SeverityWarn DimensionBoth fqn path
           (sprintf e ''field %s changed repeated -> singular; multi-element payloads collapse to the last element (messages merge), and JSON changes from array to value''
              [AStr (fd_Name ofd)])])"

definition compareOneofMembership :: "go_env \<Rightarrow> string \<Rightarrow> string \<Rightarrow> field_desc \<Rightarrow> field_desc \<Rightarrow> finding list" where
  "compareOneofMembership e fqn path ofd nfd =
     (case (realOneof ofd, realOneof nfd) of
        (None, None) \<Rightarrow> []
      | (None, Some no) \<Rightarrow>
          [add_finding ''FIELD_MOVED_INTO_ONEOF'' SeverityWarn DimensionBoth fqn path
             (sprintf e ''field %s moved into oneof %q; old payloads may set it together with siblings that now mutually exclude, and JSON documents setting two members fail to parse''
                [AStr (fd_Name ofd), AStr (od_Name no)])]
      | (Some oo, None) \<Rightarrow>
          [add_finding ''FIELD_MOVED_OUT_OF_ONEOF'' SeverityInfo DimensionBoth fqn path
             (sprintf e ''field %s moved out of oneof %q; old payloads remain readable, generated APIs change''
                [AStr (fd_Name ofd), AStr (od_Name oo)])]
      | (Some oo, Some no) \<Rightarrow>
          if od_Name oo \<noteq> od_Name no then
            [add_finding ''FIELD_MOVED_BETWEEN_ONEOFS'' SeverityWarn DimensionBoth fqn path
               (sprintf e ''field %s moved from oneof %q to oneof %q''
                  [AStr (fd_Name ofd), AStr (od_Name oo), AStr (od_Name no)])]
          else [])"

definition compareDefault :: "go_env \<Rightarrow> string \<Rightarrow> string \<Rightarrow> field_desc \<Rightarrow> field_desc \<Rightarrow> finding run" where
  "compareDefault e fqn path ofd nfd =
     (if \<not> fd_HasDefault ofd \<and> \<not> fd_HasDefault nfd then Inr []
      else
        (case (if fd_HasDefault ofd \<noteq> fd_HasDefault nfd then Inr False
               else valuesEqual (fd_Default ofd) (fd_Default nfd)) of
           Inl p \<Rightarrow> Inl p
         | Inr True \<Rightarrow> Inr []
         | Inr False \<Rightarrow>
             (case formatValue e ofd (fd_Default ofd) of
                Inl p \<Rightarrow> Inl p
              | Inr os \<Rightarrow>
                  (case formatValue e nfd (fd_Default nfd) of
                     Inl p \<Rightarrow> Inl p
                   | Inr ns \<Rightarrow>
                       Inr [add_finding ''FIELD_DEFAULT_CHANGED'' SeverityWarn DimensionBoth fqn path
                         (sprintf e ''field %s changed explicit default %q -> %q; readers of old data observe the default when the field is absent''
                            [AStr (fd_Name ofd), AStr os, AStr ns])]))))"

definition compareRequired :: "go_env \<Rightarrow> string \<Rightarrow> string \<Rightarrow> field_desc \<Rightarrow> field_desc \<Rightarrow> finding list" where
  "compareRequired e fqn path ofd nfd =
     (let oldReq = (fd_Cardinality ofd = Required); newReq = (fd_Cardinality nfd = Required) in
      if \<not> oldReq \<and> newReq then
        [add_finding ''FIELD_BECAME_REQUIRED'' SeverityFail DimensionWire fqn path
           (sprintf e ''field %s became required; existing payloads without it fail proto2 validation''
              [AStr (fd_Name ofd)])]
      else if oldReq \<and> \<not> newReq then
        [add_finding ''FIELD_BECAME_OPTIONAL'' SeverityInfo DimensionWire fqn path
           (sprintf e ''field %s relaxed from required to optional'' [AStr (fd_Name ofd)])]
      else [])"

definition compareField :: "go_env \<Rightarrow> string \<Rightarrow> int \<Rightarrow> field_desc \<Rightarrow> field_desc \<Rightarrow> finding run" where
  "compareField e fqn num ofd nfd =
     (let path = fd_Name ofd in
      if fd_Name ofd \<noteq> fd_Name nfd then
        (if fd_Kind ofd \<noteq> fd_Kind nfd \<or> IsList ofd \<noteq> IsList nfd \<or> IsMap ofd \<noteq> IsMap nfd then
           Inr [add_finding ''FIELD_NUMBER_REUSED'' SeverityFail DimensionBoth fqn path
             (sprintf e ''number #%d changed from %s (%s) to %s (%s): the number now denotes a different field''
                [AInt num, AStr (fd_Name ofd), AStr (kindLabel ofd), AStr (fd_Name nfd),
                 AStr (kindLabel nfd)])]
         else if fd_JSONName ofd \<noteq> fd_JSONName nfd then
           Inr [add_finding ''FIELD_RENAMED'' SeverityFail DimensionJSON fqn path
             (sprintf e ''field #%d renamed %s -> %s: JSON name %q -> %q breaks JSON consumers''
                [AInt num, AStr (fd_Name ofd), AStr (fd_Name nfd), AStr (fd_JSONName ofd),
                 AStr (fd_JSONName nfd)])]
         else
           Inr [add_finding ''FIELD_RENAMED'' SeverityWarn DimensionWire fqn path
             (sprintf e ''field #%d renamed %s -> %s with JSON name kept as %q; wire-compatible, but descriptors cannot prove it is a rename rather than a semantic swap''
                [AInt num, AStr (fd_Name ofd), AStr (fd_Name nfd), AStr (fd_JSONName ofd)])])
      else
        run_all
          [Inr (if fd_JSONName ofd \<noteq> fd_JSONName nfd then
                  [add_finding ''FIELD_JSON_NAME_CHANGED'' SeverityFail DimensionJSON fqn path
                     (sprintf e ''field %s changed JSON name %q -> %q''
                        [AStr (fd_Name ofd), AStr (fd_JSONName ofd), AStr (fd_JSONName nfd)])]
                else []),
           Inr (compareFieldType e fqn path ofd nfd),
           Inr (compareCardinality e fqn path ofd nfd),
           Inr (compareOneofMembership e fqn path ofd nfd),
           compareDefault e fqn path ofd nfd,
           Inr (compareRequired e fqn path ofd nfd)])"

subsection \<open>Whole messages\<close>

definition field_removed :: "go_env \<Rightarrow> message_desc \<Rightarrow> message_desc \<Rightarrow> int \<times> field_desc \<Rightarrow> finding list" where
  "field_removed e old new p =
     (let num = fst p; ofd = snd p; fqn = md_FullName old; path = fd_Name ofd;
          newReservedNums = md_ReservedRanges new; newReservedNames = md_ReservedNames new in
      if map_of (fieldsByNumber new) num \<noteq> None then []
      else if hasNumber newReservedNums num \<and> hasName newReservedNames (fd_Name ofd) then
        [add_finding ''FIELD_REMOVED_RESERVED'' SeverityInfo DimensionBoth fqn path
           (sprintf e (''field %s (#%d) deleted and both number and name reserved '' @ em_dash @
              '' the correct way to delete'') [AStr (fd_Name ofd), AInt num])]
      else if hasNumber newReservedNums num then
        [add_finding ''FIELD_REMOVED_NAME_UNRESERVED'' SeverityWarn DimensionJSON fqn path
           (sprintf e ''field %s (#%d) deleted: number reserved but JSON name %q is not; a future field may reuse the JSON name and break JSON consumers''
              [AStr (fd_Name ofd), AInt num, AStr (fd_JSONName ofd)])]
      else
        [add_finding ''FIELD_REMOVED_UNRESERVED'' SeverityFail DimensionWire fqn path
           (sprintf e ''field %s (#%d) deleted without reserving the number; a future field may reuse #%d and silently misread old payloads''
              [AStr (fd_Name ofd), AInt num, AInt num])])"

definition field_added :: "go_env \<Rightarrow> message_desc \<Rightarrow> message_desc \<Rightarrow> int \<times> field_desc \<Rightarrow> finding list" where
  "field_added e old new p =
     (let num = fst p; nfd = snd p; fqn = md_FullName old; path = fd_Name nfd;
          oldReservedNums = md_ReservedRanges old; oldReservedNames = md_ReservedNames old in
      if map_of (fieldsByNumber old) num \<noteq> None then []
      else
        (if hasNumber oldReservedNums num then
           [add_finding ''FIELD_USES_RESERVED_NUMBER'' SeverityWarn DimensionWire fqn path
              (sprintf e ''field %s reuses number #%d that was explicitly reserved; if it was reserved after a historical deletion, old payloads may be misread''
                 [AStr (fd_Name nfd), AInt num])]
         else
           [add_finding ''FIELD_ADDED'' SeverityInfo DimensionBoth fqn path
              (sprintf e ''field %s (#%d) added'' [AStr (fd_Name nfd), AInt num])]) @
        (if hasName oldReservedNames (fd_Name nfd) then
           [add_finding ''FIELD_USES_RESERVED_NAME'' SeverityWarn DimensionJSON fqn path
              (sprintf e ''field %s reuses a name that was explicitly reserved; JSON consumers may confuse it with the historical field''
                 [AStr (fd_Name nfd)])]
         else []))"

definition field_common :: "go_env \<Rightarrow> message_desc \<Rightarrow> message_desc \<Rightarrow> int \<times> field_desc \<Rightarrow> finding run" where
  "field_common e old new p =
     (case map_of (fieldsByNumber new) (fst p) of
        None \<Rightarrow> Inr []
      | Some nfd \<Rightarrow> compareField e (md_FullName old) (fst p) (snd p) nfd)"

definition compareReservedRanges ::
    "go_env \<Rightarrow> string \<Rightarrow> string \<Rightarrow> (int \<times> int) list \<Rightarrow> (int \<times> int) list \<Rightarrow> finding list" where
  "compareReservedRanges e fqn kind oldR newR =
     concat (map (\<lambda>r. if \<not> rangeCovered newR r then
         [add_finding ''RESERVED_RANGE_REMOVED'' SeverityWarn DimensionWire fqn ''''
            (sprintf e ''%s reserved range [%d, %d] was un-reserved; if it protected a historical deletion, old payloads may be misread''
               [AStr kind, AInt (fst r), AInt (snd r - 1)])] else []) oldR)"

definition oneof_removed :: "go_env \<Rightarrow> message_desc \<Rightarrow> message_desc \<Rightarrow> string \<times> oneof_desc \<Rightarrow> finding list" where
  "oneof_removed e old new p =
     (let oo = snd p in
      if map_of (realOneofs new) (fst p) = None then
        [add_finding ''ONEOF_REMOVED'' SeverityWarn DimensionBoth (md_FullName old) (od_Name oo)
           (sprintf e ''oneof %q no longer exists; its %d member(s) became independent fields or were removed''
              [AStr (od_Name oo), AInt (int (od_FieldsLen oo))])]
      else [])"

definition oneof_added :: "go_env \<Rightarrow> message_desc \<Rightarrow> message_desc \<Rightarrow> string \<times> oneof_desc \<Rightarrow> finding list" where
  "oneof_added e old new p =
     (if map_of (realOneofs old) (fst p) = None then
        [add_finding ''ONEOF_ADDED'' SeverityInfo DimensionBoth (md_FullName old) (fst p)
           (sprintf e ''oneof %q is new'' [AStr (fst p)])]
      else [])"

definition compareOneofs :: "go_env \<Rightarrow> message_desc \<Rightarrow> message_desc \<Rightarrow> finding list" where
  "compareOneofs e old new =
     concat (map (oneof_removed e old new) (range_map (strOrder e (md_FullName old) 0) (realOneofs old))) @
     concat (map (oneof_added e old new) (range_map (strOrder e (md_FullName old) 1) (realOneofs new)))"

definition compareMessages :: "go_env \<Rightarrow> message_desc \<Rightarrow> message_desc \<Rightarrow> finding run" where
  "compareMessages e old new =
     (let fqn = md_FullName old; oldFields = fieldsByNumber old; newFields = fieldsByNumber new in
      run_all
        [Inr (concat (map (field_removed e old new) (range_map (numOrder e fqn 0) oldFields))),
         Inr (concat (map (field_added e old new) (range_map (numOrder e fqn 1) newFields))),
         run_all (map (field_common e old new) (range_map (numOrder e fqn 2) oldFields)),
         Inr (compareReservedRanges e fqn ''message'' (md_ReservedRanges old) (md_ReservedRanges new)),
         Inr (compareOneofs e old new)])"

subsection \<open>When the checks of a field add nothing but INFO\<close>

definition type_safe :: "field_desc \<Rightarrow> field_desc \<Rightarrow> bool" where
  "type_safe ofd nfd =
     (if IsMap ofd \<or> IsMap nfd then
        IsMap ofd = IsMap nfd \<and> fd_Kind (MapKey ofd) = fd_Kind (MapKey nfd) \<and>
        fd_Kind (MapValue ofd) = fd_Kind (MapValue nfd)
      else if fd_Kind ofd = fd_Kind nfd then
        (fd_Kind ofd \<in> {MessageKind, GroupKind} \<longrightarrow> fd_Message ofd = fd_Message nfd) \<and>
        (fd_Kind ofd = EnumKind \<longrightarrow> ed_FullName (fd_Enum ofd) = ed_FullName (fd_Enum nfd))
      else isFixedPair (fd_Kind ofd) (fd_Kind nfd))"

definition oneof_safe :: "field_desc \<Rightarrow> field_desc \<Rightarrow> bool" where
  "oneof_safe ofd nfd =
     (case realOneof nfd of None \<Rightarrow> True
      | Some no \<Rightarrow> (case realOneof ofd of None \<Rightarrow> False | Some oo \<Rightarrow> od_Name oo = od_Name no))"

definition default_safe :: "field_desc \<Rightarrow> field_desc \<Rightarrow> bool" where
  "default_safe ofd nfd =
     (fd_HasDefault ofd = fd_HasDefault nfd \<and>
      (fd_HasDefault ofd \<longrightarrow> valuesEqual (fd_Default ofd) (fd_Default nfd) = Inr True))"

definition field_safe :: "field_desc \<Rightarrow> field_desc \<Rightarrow> bool" where
  "field_safe ofd nfd \<longleftrightarrow>
     fd_Name ofd = fd_Name nfd \<and> fd_JSONName ofd = fd_JSONName nfd \<and> type_safe ofd nfd \<and>
     IsList ofd = IsList nfd \<and> oneof_safe ofd nfd \<and> default_safe ofd nfd \<and>
     (fd_Cardinality nfd = Required \<longrightarrow> fd_Cardinality ofd = Required)"

lemma fixedPair_json: "ok \<noteq> nk \<Longrightarrow>
    (ok = nk \<or> isFixedPair ok nk \<or> widening ok = Some nk \<or> ok = StringKind \<and> nk = BytesKind) \<and>
      jsonRep ok = jsonRep nk \<longleftrightarrow> isFixedPair ok nk"
  by (auto simp: isFixedPair_def dest!: widening_cases)

lemma kind_change_severity:
  assumes "\<not> IsMap ofd" and "\<not> IsMap nfd" and "fd_Kind ofd \<noteq> fd_Kind nfd"
  shows "map f_Severity (compareFieldType e fqn path ofd nfd) =
    [max (fst (wireTypeChange e ofd nfd)) (fst (jsonTypeChange e ofd nfd))]"
  using assms
  by (cases "fst (wireTypeChange e ofd nfd)"; cases "jsonRep (fd_Kind ofd) = jsonRep (fd_Kind nfd)")
    (simp_all add: compareFieldType_def Let_def max_def less_eq_severity_def)

lemma compareFieldType_judged:
  "all_info (compareFieldType e fqn path ofd nfd) \<longleftrightarrow> type_safe ofd nfd"
proof (cases "\<not> IsMap ofd \<and> \<not> IsMap nfd \<and> fd_Kind ofd \<noteq> fd_Kind nfd")
  case True
  then have neq: "fd_Kind ofd \<noteq> fd_Kind nfd" by simp
  from True have sev: "map f_Severity (compareFieldType e fqn path ofd nfd) =
      [max (fst (wireTypeChange e ofd nfd)) (fst (jsonTypeChange e ofd nfd))]"
    by (intro kind_change_severity) simp_all
  have sevs: "all_info (compareFieldType e fqn path ofd nfd) \<longleftrightarrow>
      (\<forall>s \<in> set (map f_Severity (compareFieldType e fqn path ofd nfd)). s = SeverityInfo)"
    by (auto simp: all_info_def)
  have "max s t = SeverityInfo \<longleftrightarrow> s = SeverityInfo \<and> t = SeverityInfo" for s t
    by (cases s; cases t) (simp_all add: max_def less_eq_severity_def)
  then have "all_info (compareFieldType e fqn path ofd nfd) \<longleftrightarrow>
      fst (wireTypeChange e ofd nfd) = SeverityInfo \<and> jsonRep (fd_Kind ofd) = jsonRep (fd_Kind nfd)"
    unfolding sevs sev by simp
  then have "all_info (compareFieldType e fqn path ofd nfd) \<longleftrightarrow> isFixedPair (fd_Kind ofd) (fd_Kind nfd)"
    by (simp only: wireTypeChange_info fixedPair_json [OF neq])
  with True show ?thesis by (simp add: type_safe_def)
next
  case False
  have swap: "\<not> all_info (compareEnumSwap e fqn path ofd nfd)"
    by (simp add: compareEnumSwap_def Let_def)
  show ?thesis
  proof (cases "IsMap ofd \<or> IsMap nfd")
    case True
    then show ?thesis by (simp add: compareFieldType_def type_safe_def Let_def)
  next
    case F: False
    with False have "fd_Kind ofd = fd_Kind nfd" by simp
    with F swap show ?thesis by (simp add: compareFieldType_def type_safe_def)
  qed
qed

lemma compareCardinality_judged:
  "all_info (compareCardinality e fqn path ofd nfd) \<longleftrightarrow> IsList ofd = IsList nfd"
  by (simp add: compareCardinality_def)

lemma compareOneofMembership_judged:
  "all_info (compareOneofMembership e fqn path ofd nfd) \<longleftrightarrow> oneof_safe ofd nfd"
  by (simp add: compareOneofMembership_def oneof_safe_def split: option.splits)

lemma compareDefault_judged:
  "run_ok (compareDefault e fqn path ofd nfd) \<Longrightarrow>
     all_info (out (compareDefault e fqn path ofd nfd)) \<longleftrightarrow> default_safe ofd nfd"
  by (auto simp: compareDefault_def default_safe_def split: sum.splits bool.splits if_splits)

lemma compareDefault_safe: "default_safe ofd nfd \<Longrightarrow> compareDefault e fqn path ofd nfd = Inr []"
  by (auto simp: compareDefault_def default_safe_def)

lemma compareRequired_judged:
  "all_info (compareRequired e fqn path ofd nfd) \<longleftrightarrow>
     (fd_Cardinality nfd = Required \<longrightarrow> fd_Cardinality ofd = Required)"
  by (simp add: compareRequired_def Let_def)

lemma compareField_judged:
  assumes "run_ok (compareField e fqn num ofd nfd)"
  shows "all_info (out (compareField e fqn num ofd nfd)) \<longleftrightarrow> field_safe ofd nfd"
proof (cases "fd_Name ofd = fd_Name nfd")
  case True
  with assms have "run_ok (compareDefault e fqn (fd_Name ofd) ofd nfd)"
    by (simp add: compareField_def Let_def)
  with True assms show ?thesis
    by (simp add: compareField_def Let_def field_safe_def compareFieldType_judged
        compareCardinality_judged compareOneofMembership_judged compareDefault_judged
        compareRequired_judged)
qed (simp add: compareField_def Let_def field_safe_def)

lemma run_ok_compareField:
  "run_ok (compareField e fqn num ofd nfd) \<longleftrightarrow>
     fd_Name ofd \<noteq> fd_Name nfd \<or> run_ok (compareDefault e fqn (fd_Name ofd) ofd nfd)"
  by (auto simp: compareField_def Let_def)

subsection \<open>When a message comparison adds nothing but INFO\<close>

lemma field_removed_judged:
  "all_info (field_removed e old new (num, ofd)) \<longleftrightarrow>
     map_of (fieldsByNumber new) num \<noteq> None \<or>
     hasNumber (md_ReservedRanges new) num \<and> fd_Name ofd \<in> set (md_ReservedNames new)"
  by (auto simp: field_removed_def Let_def)

lemma field_added_judged:
  "all_info (field_added e old new (num, nfd)) \<longleftrightarrow>
     map_of (fieldsByNumber old) num \<noteq> None \<or>
     \<not> hasNumber (md_ReservedRanges old) num \<and> fd_Name nfd \<notin> set (md_ReservedNames old)"
  by (auto simp: field_added_def Let_def)

lemma compareReservedRanges_judged:
  "all_info (compareReservedRanges e fqn k oldR newR) \<longleftrightarrow> (\<forall>r \<in> set oldR. rangeCovered newR r)"
  by (auto simp: compareReservedRanges_def)

lemma set_range_fields:
  "fair_env e \<Longrightarrow> set (range_map (numOrder e s i) (fieldsByNumber md)) = set (fieldsByNumber md)"
  unfolding fieldsByNumber_def by (intro set_range_map) (simp_all add: fair_intros)

lemma mset_range_fields:
  "fair_env e \<Longrightarrow> mset (range_map (numOrder e s i) (fieldsByNumber md)) = mset (fieldsByNumber md)"
  unfolding fieldsByNumber_def by (intro mset_range_map) (simp_all add: fair_intros)

lemma set_range_oneofs:
  "fair_env e \<Longrightarrow> set (range_map (strOrder e s i) (realOneofs md)) = set (realOneofs md)"
  unfolding realOneofs_def by (intro set_range_map) (simp_all add: fair_intros)

lemma mset_range_oneofs:
  "fair_env e \<Longrightarrow> mset (range_map (strOrder e s i) (realOneofs md)) = mset (realOneofs md)"
  unfolding realOneofs_def by (intro mset_range_map) (simp_all add: fair_intros)

lemma compareOneofs_judged:
  assumes "fair_env e"
  shows "all_info (compareOneofs e old new) \<longleftrightarrow>
    (\<forall>p \<in> set (realOneofs old). map_of (realOneofs new) (fst p) \<noteq> None)"
  using assms
  by (auto simp: compareOneofs_def set_range_oneofs oneof_removed_def oneof_added_def Let_def)

definition field_kept :: "message_desc \<Rightarrow> int \<Rightarrow> field_desc \<Rightarrow> bool" where
  "field_kept new num ofd =
     (case map_of (fieldsByNumber new) num of
        Some nfd \<Rightarrow> field_safe ofd nfd
      | None \<Rightarrow> hasNumber (md_ReservedRanges new) num \<and> fd_Name ofd \<in> set (md_ReservedNames new))"

definition message_safe :: "message_desc \<Rightarrow> message_desc \<Rightarrow> bool" where
  "message_safe old new \<longleftrightarrow>
     (\<forall>(num, ofd) \<in> set (fieldsByNumber old). field_kept new num ofd) \<and>
     (\<forall>(num, nfd) \<in> set (fieldsByNumber new). map_of (fieldsByNumber old) num \<noteq> None \<or>
        \<not> hasNumber (md_ReservedRanges old) num \<and> fd_Name nfd \<notin> set (md_ReservedNames old)) \<and>
     (\<forall>r \<in> set (md_ReservedRanges old). rangeCovered (md_ReservedRanges new) r) \<and>
     (\<forall>p \<in> set (realOneofs old). map_of (realOneofs new) (fst p) \<noteq> None)"

lemma run_ok_compareMessages:
  "fair_env e \<Longrightarrow> run_ok (compareMessages e old new) \<longleftrightarrow>
     (\<forall>p \<in> set (fieldsByNumber old). run_ok (field_common e old new p))"
  by (simp add: compareMessages_def Let_def set_range_fields)

lemma out_compareMessages:
  assumes "run_ok (compareMessages e old new)"
  shows "out (compareMessages e old new) =
     concat (map (field_removed e old new) (range_map (numOrder e (md_FullName old) 0) (fieldsByNumber old))) @
     concat (map (field_added e old new) (range_map (numOrder e (md_FullName old) 1) (fieldsByNumber new))) @
     concat (map (\<lambda>p. out (field_common e old new p))
        (range_map (numOrder e (md_FullName old) 2) (fieldsByNumber old))) @
     compareReservedRanges e (md_FullName old) ''message'' (md_ReservedRanges old) (md_ReservedRanges new) @
     compareOneofs e old new"
proof -
  from assms have "run_ok (run_all (map (field_common e old new)
      (range_map (numOrder e (md_FullName old) 2) (fieldsByNumber old))))"
    by (simp add: compareMessages_def Let_def)
  with assms show ?thesis by (simp add: compareMessages_def Let_def comp_def)
qed

lemma all_info_compareMessages:
  assumes "fair_env e" and "run_ok (compareMessages e old new)"
  shows "all_info (out (compareMessages e old new)) \<longleftrightarrow> message_safe old new"
proof -
  have common: "all_info (out (field_common e old new (num, ofd))) \<longleftrightarrow>
      (\<forall>nfd. map_of (fieldsByNumber new) num = Some nfd \<longrightarrow> field_safe ofd nfd)"
    if "(num, ofd) \<in> set (fieldsByNumber old)" for num ofd
    using that assms run_ok_compareMessages [OF assms(1), of old new]
    by (fastforce simp: field_common_def compareField_judged split: option.splits)
  have kept: "field_kept new num ofd \<longleftrightarrow> all_info (field_removed e old new (num, ofd)) \<and>
      all_info (out (field_common e old new (num, ofd)))"
    if "(num, ofd) \<in> set (fieldsByNumber old)" for num ofd
    unfolding common [OF that] by (auto simp: field_kept_def field_removed_judged split: option.splits)
  show ?thesis
    unfolding out_compareMessages [OF assms(2)] message_safe_def
    using assms(1) kept
    by (auto simp: set_range_fields compareReservedRanges_judged compareOneofs_judged field_added_judged)
qed

subsection \<open>When a message comparison proves a break\<close>

definition type_breaks :: "field_desc \<Rightarrow> field_desc \<Rightarrow> bool" where
  "type_breaks ofd nfd =
     (if IsMap ofd \<or> IsMap nfd then \<not> type_safe ofd nfd
      else if fd_Kind ofd = fd_Kind nfd then
        fd_Kind ofd \<in> {MessageKind, GroupKind} \<and> fd_Message ofd \<noteq> fd_Message nfd \<or>
        fd_Kind ofd = EnumKind \<and> ed_FullName (fd_Enum ofd) \<noteq> ed_FullName (fd_Enum nfd) \<and>
          (\<exists>v \<in> set (ed_Values (fd_Enum ofd)).
             map_option ev_Name (enum_ByNumber (fd_Enum nfd) (ev_Number v)) \<noteq> Some (ev_Name v))
      else categoryOf (fd_Kind ofd) \<noteq> categoryOf (fd_Kind nfd) \<or>
        jsonRep (fd_Kind ofd) \<noteq> jsonRep (fd_Kind nfd))"

definition cardinality_breaks :: "field_desc \<Rightarrow> field_desc \<Rightarrow> bool" where
  "cardinality_breaks ofd nfd \<longleftrightarrow>
     \<not> IsList ofd \<and> IsList nfd \<or>
     IsList ofd \<and> \<not> IsList nfd \<and> isPackable (fd_Kind ofd) \<and> fd_IsPacked ofd"

definition field_breaks :: "field_desc \<Rightarrow> field_desc \<Rightarrow> bool" where
  "field_breaks ofd nfd \<longleftrightarrow>
     fd_JSONName ofd \<noteq> fd_JSONName nfd \<or>
     (if fd_Name ofd \<noteq> fd_Name nfd then
        fd_Kind ofd \<noteq> fd_Kind nfd \<or> IsList ofd \<noteq> IsList nfd \<or> IsMap ofd \<noteq> IsMap nfd
      else type_breaks ofd nfd \<or> cardinality_breaks ofd nfd \<or>
        fd_Cardinality ofd \<noteq> Required \<and> fd_Cardinality nfd = Required)"

lemma no_fail_sevs: "no_fail fs \<longleftrightarrow> SeverityFail \<notin> set (map f_Severity fs)"
  by (auto simp: no_fail_def image_iff eq_commute)

lemma compareEnumSwap_fail:
  "no_fail (compareEnumSwap e fqn path ofd nfd) \<longleftrightarrow>
     \<not> (\<exists>v \<in> set (ed_Values (fd_Enum ofd)).
          map_option ev_Name (enum_ByNumber (fd_Enum nfd) (ev_Number v)) \<noteq> Some (ev_Name v))"
  by (auto simp: compareEnumSwap_def Let_def list_all_iff split: option.splits)

lemma compareFieldType_fail: "no_fail (compareFieldType e fqn path ofd nfd) \<longleftrightarrow> \<not> type_breaks ofd nfd"
proof (cases "\<not> IsMap ofd \<and> \<not> IsMap nfd \<and> fd_Kind ofd \<noteq> fd_Kind nfd")
  case True
  then have sev: "map f_Severity (compareFieldType e fqn path ofd nfd) =
      [max (fst (wireTypeChange e ofd nfd)) (fst (jsonTypeChange e ofd nfd))]"
    by (intro kind_change_severity) simp_all
  have "SeverityFail = max s t \<longleftrightarrow> s = SeverityFail \<or> t = SeverityFail" for s t
    by (cases s; cases t) (simp_all add: max_def less_eq_severity_def)
  then show ?thesis
    unfolding no_fail_sevs sev using True by (simp add: type_breaks_def wireTypeChange_fail)
next
  case False
  show ?thesis
  proof (cases "IsMap ofd \<or> IsMap nfd")
    case True
    then show ?thesis by (auto simp: compareFieldType_def type_breaks_def type_safe_def Let_def)
  next
    case F: False
    with False have "fd_Kind ofd = fd_Kind nfd" by simp
    with F compareEnumSwap_fail [of e fqn path ofd nfd] show ?thesis
      by (simp add: compareFieldType_def type_breaks_def)
  qed
qed

lemma compareCardinality_fail:
  "no_fail (compareCardinality e fqn path ofd nfd) \<longleftrightarrow> \<not> cardinality_breaks ofd nfd"
  by (auto simp: compareCardinality_def cardinality_breaks_def)

lemma other_field_fail:
  "no_fail (compareOneofMembership e fqn path ofd nfd)"
  "no_fail (out (compareDefault e fqn path ofd nfd))"
  "no_fail (compareRequired e fqn path ofd nfd) \<longleftrightarrow>
     \<not> (fd_Cardinality ofd \<noteq> Required \<and> fd_Cardinality nfd = Required)"
  by (auto simp: compareOneofMembership_def compareDefault_def compareRequired_def Let_def
      split: option.splits sum.splits bool.splits)

lemma compareField_fail:
  assumes "run_ok (compareField e fqn num ofd nfd)"
  shows "no_fail (out (compareField e fqn num ofd nfd)) \<longleftrightarrow> \<not> field_breaks ofd nfd"
proof (cases "fd_Name ofd = fd_Name nfd")
  case True
  with assms have "run_ok (compareDefault e fqn (fd_Name ofd) ofd nfd)"
    by (simp add: compareField_def Let_def)
  with True assms show ?thesis
    by (auto simp: compareField_def Let_def field_breaks_def compareFieldType_fail
        compareCardinality_fail other_field_fail)
qed (auto simp: compareField_def Let_def field_breaks_def)

definition field_lost :: "message_desc \<Rightarrow> int \<Rightarrow> field_desc \<Rightarrow> bool" where
  "field_lost new num ofd =
     (case map_of (fieldsByNumber new) num of
        Some nfd \<Rightarrow> field_breaks ofd nfd
      | None \<Rightarrow> \<not> hasNumber (md_ReservedRanges new) num)"

lemma message_parts_fail:
  "no_fail (field_removed e old new (num, ofd)) \<longleftrightarrow>
     map_of (fieldsByNumber new) num \<noteq> None \<or> hasNumber (md_ReservedRanges new) num"
  "no_fail (field_added e old new p)"
  "no_fail (compareReservedRanges e fqn k oldR newR)"
  "no_fail (compareOneofs e old new)"
  by (auto simp: field_removed_def field_added_def compareReservedRanges_def compareOneofs_def
      oneof_removed_def oneof_added_def Let_def)

lemma no_fail_compareMessages:
  assumes "fair_env e" and "run_ok (compareMessages e old new)"
  shows "no_fail (out (compareMessages e old new)) \<longleftrightarrow>
    (\<forall>(num, ofd) \<in> set (fieldsByNumber old). \<not> field_lost new num ofd)"
proof -
  have common: "no_fail (out (field_common e old new (num, ofd))) \<longleftrightarrow>
      (\<forall>nfd. map_of (fieldsByNumber new) num = Some nfd \<longrightarrow> \<not> field_breaks ofd nfd)"
    if "(num, ofd) \<in> set (fieldsByNumber old)" for num ofd
    using that assms run_ok_compareMessages [OF assms(1), of old new]
    by (fastforce simp: field_common_def compareField_fail split: option.splits)
  have lost: "field_lost new num ofd \<longleftrightarrow> \<not> (no_fail (field_removed e old new (num, ofd)) \<and>
      no_fail (out (field_common e old new (num, ofd))))"
    if "(num, ofd) \<in> set (fieldsByNumber old)" for num ofd
    unfolding common [OF that] by (auto simp: field_lost_def message_parts_fail split: option.splits)
  show ?thesis
    unfolding out_compareMessages [OF assms(2)]
    using assms(1) lost by (auto simp: set_range_fields message_parts_fail(2-4))
qed

subsection \<open>Order of the findings, identical messages\<close>

lemma formatValue_cong: "same_lib e e' \<Longrightarrow> formatValue e = formatValue e'"
proof -
  assume lib: "same_lib e e'"
  have "show_goval e v = show_goval e' v" for v
    using lib by (cases v) (simp_all add: same_lib_def)
  then have sg: "show_goval e = show_goval e'" by (intro ext)
  show ?thesis
    unfolding fun_eq_iff formatValue_def formatEnum_def enumName_def
    by (simp only: sprintf_cong [OF lib] sg simp_thms)
qed

lemma wire_json_cong:
  assumes "same_lib e e'"
  shows "wireTypeChange e = wireTypeChange e'" "jsonTypeChange e = jsonTypeChange e'"
  unfolding fun_eq_iff wireTypeChange_def jsonTypeChange_def varintChange_def sprintf_cong [OF assms]
  by simp_all

lemma compareField_cong: "same_lib e e' \<Longrightarrow> compareField e = compareField e'"
  unfolding fun_eq_iff compareField_def compareFieldType_def compareEnumSwap_def
      compareCardinality_def compareOneofMembership_def compareDefault_def compareRequired_def
  by (simp only: wire_json_cong formatValue_cong sprintf_cong simp_thms)

lemma message_bodies_cong:
  assumes "same_lib e e'"
  shows "field_removed e = field_removed e'" "field_added e = field_added e'"
    "field_common e = field_common e'" "compareReservedRanges e = compareReservedRanges e'"
    "oneof_removed e = oneof_removed e'" "oneof_added e = oneof_added e'"
  unfolding fun_eq_iff field_removed_def field_added_def field_common_def
      compareReservedRanges_def oneof_removed_def oneof_added_def
      sprintf_cong [OF assms] compareField_cong [OF assms]
  by simp_all

lemma same_run_compareMessages:
  assumes "fair_env e" and "fair_env e'" and "same_lib e e'"
  shows "same_run (compareMessages e old new) (compareMessages e' old new)"
proof -
  have loops: "mset (concat (map f (range_map (numOrder e s i) (fieldsByNumber md)))) =
      mset (concat (map f (range_map (numOrder e' s i) (fieldsByNumber md))))" for f s i md
    using assms(1,2) by (intro mset_concat_map) (simp add: mset_range_fields)
  have oneofs: "mset (concat (map f (range_map (strOrder e s i) (realOneofs md)))) =
      mset (concat (map f (range_map (strOrder e' s i) (realOneofs md))))" for f s i md
    using assms(1,2) by (intro mset_concat_map) (simp add: mset_range_oneofs)
  have common: "same_run (run_all (map (field_common e' old new) (range_map (numOrder e s i) (fieldsByNumber old))))
      (run_all (map (field_common e' old new) (range_map (numOrder e' s i) (fieldsByNumber old))))" for s i
    using assms(1,2) by (intro same_run_map) (simp_all add: mset_range_fields)
  show ?thesis
    unfolding compareMessages_def Let_def compareOneofs_def message_bodies_cong [OF assms(3)]
    by (intro same_run_pointwise) (simp add: loops oneofs common)
qed

definition field_plain_default :: "field_desc \<Rightarrow> bool" where
  "field_plain_default fd \<longleftrightarrow> fd_HasDefault fd \<longrightarrow> valuesEqual (fd_Default fd) (fd_Default fd) = Inr True"

lemma compareField_refl: "field_plain_default fd \<Longrightarrow> compareField e fqn num fd fd = Inr []"
proof -
  assume "field_plain_default fd"
  then have "compareDefault e fqn p fd fd = Inr []" for p
    by (intro compareDefault_safe) (simp add: default_safe_def field_plain_default_def)
  moreover have "compareFieldType e fqn p fd fd = []" for p
    by (simp add: compareFieldType_def)
  moreover have "compareCardinality e fqn p fd fd = []" "compareRequired e fqn p fd fd = []" for p
    by (simp_all add: compareCardinality_def compareRequired_def)
  moreover have "compareOneofMembership e fqn p fd fd = []" for p
    by (simp add: compareOneofMembership_def split: option.splits)
  ultimately show ?thesis by (simp add: compareField_def run_all_Inr_iff)
qed

lemma fields_Some: "(num, f) \<in> set (fieldsByNumber md) \<Longrightarrow>
    map_of (fieldsByNumber md) num = Some f \<and> f \<in> set (md_Fields md)"
  unfolding fieldsByNumber_def by (meson in_put_all put_all_SomeD)

lemma compareMessages_refl:
  assumes "fair_env e" and "\<forall>f \<in> set (md_Fields md). field_plain_default f"
  shows "compareMessages e md md = Inr []"
proof -
  have body: "field_removed e md md p = []" "field_added e md md p = []" "field_common e md md p = Inr []"
    if "p \<in> set (fieldsByNumber md)" for p
    using that assms(2) fields_Some [of "fst p" "snd p" md]
    by (simp_all add: field_removed_def field_added_def field_common_def Let_def compareField_refl)
  have range: "rangeCovered rs r" if "r \<in> set rs" for r rs
    using that fr.has_self [of r rs] by (simp add: rangeCovered_iff)
  have one: "oneof_removed e md md p = []" "oneof_added e md md p = []" if "p \<in> set (realOneofs md)" for p
    using that by (auto simp: oneof_removed_def oneof_added_def Let_def map_of_eq_None_iff)
  have "run_ok (compareMessages e md md)"
    using assms(1) body by (simp add: run_ok_compareMessages)
  moreover have "out (compareMessages e md md) = []"
    using assms(1) body one range
    by (simp add: out_compareMessages [OF calculation] set_range_fields compareOneofs_def
        compareReservedRanges_def set_range_oneofs)
  ultimately show ?thesis by (metis run_okE)
qed

subsection \<open>Properties\<close>

text \<open>
  When a field under one number keeps its name but changes its kind (neither side a map),
  exactly one finding is added and its severity is the worse of the wire judgement and the
  JSON judgement; it is attributed to the wire alone exactly when only the wire breaks.
\<close>
theorem kind_change_takes_the_worse_judgement:
  assumes "\<not> IsMap ofd" and "\<not> IsMap nfd" and "fd_Kind ofd \<noteq> fd_Kind nfd"
  shows "\<exists>f. compareFieldType e fqn path ofd nfd = [f] \<and>
     f_Severity f = max (fst (wireTypeChange e ofd nfd)) (fst (jsonTypeChange e ofd nfd)) \<and>
     f_Dimension f =
       (if fst (jsonTypeChange e ofd nfd) \<noteq> SeverityFail \<and> fst (wireTypeChange e ofd nfd) = SeverityFail
        then DimensionWire else DimensionBoth)"
  using assms kind_change_severity [OF assms, of e fqn path]
  by (auto simp: compareFieldType_def Let_def simp del: jsonTypeChange_severity)

theorem kind_change_takes_the_worse_judgement_witness:
  "\<exists>f. compareFieldType plain_env ''M'' ''a'' (plain_field ''a'' 1 Int32Kind) (plain_field ''a'' 1 FloatKind)
       = [f] \<and> f_Severity f = SeverityFail \<and> f_Dimension f = DimensionWire"
  using kind_change_takes_the_worse_judgement [of "plain_field ''a'' 1 Int32Kind"
      "plain_field ''a'' 1 FloatKind" plain_env "''M''" "''a''"]
    wireTypeChange_fail [of plain_env "plain_field ''a'' 1 Int32Kind" "plain_field ''a'' 1 FloatKind"]
  by (auto simp: IsMap_def max_def less_eq_severity_def split: if_splits)

text \<open>
  C14. The verdict of a message comparison, for every iteration order. COMPATIBLE exactly when
  the change is \<open>message_safe\<close>: every old field number is kept with the same name, JSON name,
  type, cardinality and oneof, an equal explicit default and without becoming required, or is
  deleted with number and name reserved; no new field uses a reserved number or name; the
  reserved ranges stay covered; no oneof disappears. INCOMPATIBLE exactly when some field is
  deleted without reserving its number or breaks under its number (\<open>field_breaks\<close>: number
  reused for another field, changed JSON name, broken type or cardinality, became required).
\<close>
theorem compareMessages_verdict:
  assumes "fair_env e" and "compareMessages e old new = Inr fs"
  shows "(verdictOf fs = VerdictCompatible \<longleftrightarrow> message_safe old new) \<and>
    (verdictOf fs = VerdictIncompatible \<longleftrightarrow>
      (\<exists>(num, ofd) \<in> set (fieldsByNumber old). field_lost new num ofd))"
proof -
  from assms(2) have ok: "run_ok (compareMessages e old new)" and fs: "fs = out (compareMessages e old new)"
    by simp_all
  show ?thesis
    using all_info_compareMessages [OF assms(1) ok] no_fail_compareMessages [OF assms(1) ok]
    by (auto simp: verdictOf_compatible verdictOf_incompatible fs)
qed

definition msg :: "string \<Rightarrow> field_desc list \<Rightarrow> (int \<times> int) list \<Rightarrow> string list \<Rightarrow> message_desc" where
  "msg name fs rr rn = MessageDesc name False fs [] rr rn [] []"

definition invoice_v1 :: message_desc where
  "invoice_v1 = msg ''pay.Invoice'' [plain_field ''id'' 1 StringKind, plain_field ''note'' 3 StringKind] [] []"

definition invoice_v2 :: message_desc where
  "invoice_v2 = msg ''pay.Invoice'' [plain_field ''id'' 1 StringKind] [(3, 4)] [''note'']"

definition invoice_bad :: message_desc where
  "invoice_bad = msg ''pay.Invoice'' [plain_field ''id'' 1 StringKind] [] []"

lemma plain_default_ok: "\<not> fd_HasDefault ofd \<Longrightarrow> \<not> fd_HasDefault nfd \<Longrightarrow>
    run_ok (compareField e fqn num ofd nfd)"
  by (simp add: run_ok_compareField compareDefault_def)

lemma no_default_run_ok:
  assumes "fair_env e" and "\<forall>f \<in> set (md_Fields old) \<union> set (md_Fields new). \<not> fd_HasDefault f"
  shows "compareMessages e old new = Inr (out (compareMessages e old new))"
proof (rule run_okE)
  have "run_ok (field_common e old new p)" if "p \<in> set (fieldsByNumber old)" for p
  proof (cases "map_of (fieldsByNumber new) (fst p)")
    case (Some nfd)
    then have "nfd \<in> set (md_Fields new)"
      unfolding fieldsByNumber_def by (metis put_all_SomeD)
    moreover have "snd p \<in> set (md_Fields old)"
      using that fields_Some [of "fst p" "snd p" old] by simp
    ultimately show ?thesis using assms(2) Some by (simp add: field_common_def plain_default_ok)
  qed (simp add: field_common_def)
  then show "run_ok (compareMessages e old new)" by (simp add: run_ok_compareMessages [OF assms(1)])
qed

theorem compareMessages_verdict_witness:
  "verdictOf (out (compareMessages plain_env invoice_v1 invoice_v2)) = VerdictCompatible \<and>
   verdictOf (out (compareMessages plain_env invoice_v1 invoice_bad)) = VerdictIncompatible"
proof -
  have "compareMessages plain_env invoice_v1 invoice_v2 = Inr (out (compareMessages plain_env invoice_v1 invoice_v2))"
    "compareMessages plain_env invoice_v1 invoice_bad = Inr (out (compareMessages plain_env invoice_v1 invoice_bad))"
    by (rule no_default_run_ok [OF fair_plain_env]; simp add: invoice_v1_def invoice_v2_def invoice_bad_def msg_def)+
  note runs = this
  have "message_safe invoice_v1 invoice_v2" by code_simp
  moreover have "\<exists>p \<in> set (fieldsByNumber invoice_v1). field_lost invoice_bad (fst p) (snd p)" by code_simp
  ultimately show ?thesis
    using compareMessages_verdict [OF fair_plain_env runs(1)] compareMessages_verdict [OF fair_plain_env runs(2)]
    by (simp add: case_prod_beta)
qed

text \<open>
  A message with a \<open>bytes\<close> field that has an explicit default makes the comparison panic,
  even against an unchanged copy of itself: \<open>valuesEqual\<close> compares two byte slices held in
  interfaces, which Go refuses at run time.
\<close>
theorem bytes_default_panics:
  assumes "fair_env e" and "(num, ofd) \<in> set (fieldsByNumber old)"
    and "map_of (fieldsByNumber new) num = Some nfd" and "fd_Name nfd = fd_Name ofd"
    and "fd_HasDefault ofd" and "fd_HasDefault nfd"
    and "fd_Default ofd = VBytes a" and "fd_Default nfd = VBytes b"
  shows "\<exists>p. compareMessages e old new = Inl p"
proof -
  from assms(5-8) have "compareDefault e fqn path ofd nfd =
      Inl (Panic ''runtime error: comparing uncomparable type []uint8'')" for fqn path
    by (simp add: compareDefault_def valuesEqual_def)
  with assms(4) have "\<not> run_ok (compareField e (md_FullName old) num ofd nfd)"
    by (simp add: run_ok_compareField)
  with assms(1-3) have "\<not> run_ok (compareMessages e old new)"
    by (force simp: run_ok_compareMessages field_common_def)
  then show ?thesis by (cases "compareMessages e old new") simp_all
qed

definition key_field :: field_desc where
  "key_field = (plain_field ''key'' 1 BytesKind)\<lparr>fd_HasDefault := True, fd_Default := VBytes ''k''\<rparr>"

theorem bytes_default_panics_witness:
  "\<exists>p. compareMessages plain_env (msg ''M'' [key_field] [] []) (msg ''M'' [key_field] [] []) = Inl p"
proof -
  have "fieldsByNumber (msg ''M'' [key_field] [] []) = [(1, key_field)]"
    by (simp add: fieldsByNumber_def msg_def put_all_def key_field_def)
  then show ?thesis
    using bytes_default_panics [OF fair_plain_env, of 1 key_field "msg ''M'' [key_field] [] []"
        "msg ''M'' [key_field] [] []" key_field "''k''" "''k''"]
    by (simp add: key_field_def)
qed

definition map_field :: "string \<Rightarrow> field_desc" where
  "map_field value_type = (plain_field ''lines'' 1 MessageKind)
     \<lparr>fd_Cardinality := Repeated, fd_Message := ''pay.Invoice.LinesEntry'',
      fd_MapEntry := Some \<lparr>me_Key = StringKind, me_Value = MessageKind, me_ValueEnum = no_enum,
        me_ValueMessage = value_type\<rparr>\<rparr>"

text \<open>
  Rebinding the message type of a map's values (\<open>map<string, pay.Line>\<close> to
  \<open>map<string, pay.Note>\<close>) produces no finding: \<open>compareFieldType\<close> compares the kinds of
  keys and values of a map field only, while the same change on a plain field is a FAIL.
\<close>
theorem map_value_type_swap_unreported:
  "compareMessages plain_env (msg ''pay.Invoice'' [map_field ''pay.Line''] [] [])
      (msg ''pay.Invoice'' [map_field ''pay.Note''] [] []) = Inr [] \<and>
   (\<exists>f. compareMessages plain_env
        (msg ''pay.Invoice'' [(plain_field ''line'' 1 MessageKind)\<lparr>fd_Message := ''pay.Line''\<rparr>] [] [])
        (msg ''pay.Invoice'' [(plain_field ''line'' 1 MessageKind)\<lparr>fd_Message := ''pay.Note''\<rparr>] [] [])
      = Inr [f] \<and> f_Severity f = SeverityFail)"
proof
  show "compareMessages plain_env (msg ''pay.Invoice'' [map_field ''pay.Line''] [] [])
      (msg ''pay.Invoice'' [map_field ''pay.Note''] [] []) = Inr []"
    by code_simp
qed (simp add: compareMessages_def compareField_def compareFieldType_def compareCardinality_def
    compareOneofMembership_def compareDefault_def compareRequired_def compareReservedRanges_def
    compareOneofs_def realOneofs_def realOneof_def fieldsByNumber_def put_all_def range_map_def
    field_removed_def field_added_def field_common_def msg_def plain_field_def plain_env_def
    IsMap_def IsList_def run_all.simps)

text \<open>
  Adding a field that is \<open>required\<close> under a fresh number and name is reported as INFO only
  and the comparison is COMPATIBLE, although every stored payload lacks the field; making an
  existing optional field required is a FAIL.
\<close>
theorem added_required_field_is_compatible:
  "(\<exists>f. compareMessages plain_env (msg ''M'' [] [] [])
        (msg ''M'' [(plain_field ''id'' 1 StringKind)\<lparr>fd_Cardinality := Required\<rparr>] [] []) = Inr [f] \<and>
      f_Code f = ''FIELD_ADDED'' \<and> verdictOf [f] = VerdictCompatible) \<and>
   (\<exists>f. compareMessages plain_env (msg ''M'' [plain_field ''id'' 1 StringKind] [] [])
        (msg ''M'' [(plain_field ''id'' 1 StringKind)\<lparr>fd_Cardinality := Required\<rparr>] [] []) = Inr [f] \<and>
      f_Code f = ''FIELD_BECAME_REQUIRED'' \<and> verdictOf [f] = VerdictIncompatible)"
  by (simp add: compareMessages_def compareField_def compareFieldType_def compareCardinality_def
    compareOneofMembership_def compareDefault_def compareRequired_def compareReservedRanges_def
    compareOneofs_def realOneofs_def realOneof_def fieldsByNumber_def put_all_def range_map_def
    field_removed_def field_added_def field_common_def msg_def plain_field_def plain_env_def
    IsMap_def IsList_def run_all.simps verdictOf_def)

end
