(* ===== verification/Walk.thy ===== *)
theory Walk
  imports Field_Check
begin

text \<open>
  The walk over two descriptor closures, \<open>compareFiles\<close> of \<open>internal/compat/check.go\<close>: files
  are matched by path, messages and enums by fully qualified name. The registries are
  parameters (\<open>files\<close>); the order of \<open>RangeFiles\<close> is the order of their list.
\<close>

definition wellKnownPrefix :: string where
  "wellKnownPrefix = ''google/protobuf/''"

definition isOwned :: "string list \<Rightarrow> string \<Rightarrow> bool" where
  "isOwned owned path =
     (if hasPrefix path wellKnownPrefix then False
      else if owned = [] then True
      else path \<in> set owned)"

definition findMessage :: "files \<Rightarrow> string \<Rightarrow> message_desc option" where
  "findMessage F name =
     (case FindDescriptorByName F name of
        Some (DMessage md) \<Rightarrow> if md_IsMapEntry md then None else Some md
      | _ \<Rightarrow> None)"

definition findEnum :: "files \<Rightarrow> string \<Rightarrow> enum_desc option" where
  "findEnum F name =
     (case FindDescriptorByName F name of
        Some (DEnum ed) \<Rightarrow> Some ed
      | _ \<Rightarrow> None)"

fun reportRemovedMessage :: "go_env \<Rightarrow> message_desc \<Rightarrow> finding list" where
  "reportRemovedMessage e (MessageDesc fqn me fs os rr rn enums nested) =
     [add_finding ''MESSAGE_REMOVED'' SeverityWarn DimensionBoth fqn ''''
        (sprintf e ''message %s was removed; descriptor evidence cannot prove no stored data or consumer remains''
           [AStr fqn])] @
     concat (map (\<lambda>m. if \<not> md_IsMapEntry m then reportRemovedMessage e m else []) nested) @
     map (\<lambda>ed. add_finding ''ENUM_REMOVED'' SeverityWarn DimensionBoth (ed_FullName ed) ''''
        (sprintf e ''enum %s removed together with message %s'' [AStr (ed_FullName ed), AStr fqn])) enums"

definition walkRemovedFile :: "go_env \<Rightarrow> file_desc \<Rightarrow> finding list" where
  "walkRemovedFile e fd =
     concat (map (reportRemovedMessage e) (file_Messages fd)) @
     map (\<lambda>ed. add_finding ''ENUM_REMOVED'' SeverityWarn DimensionBoth (ed_FullName ed) ''''
        (sprintf e ''enum %s removed together with file %s; cannot prove no consumer remains''
           [AStr (ed_FullName ed), AStr (file_Path fd)])) (file_Enums fd)"

definition walkEnum :: "go_env \<Rightarrow> files \<Rightarrow> enum_desc \<Rightarrow> finding run" where
  "walkEnum e new ed =
     (case findEnum new (ed_FullName ed) of
        None \<Rightarrow> Inr [add_finding ''ENUM_REMOVED'' SeverityWarn DimensionBoth (ed_FullName ed) ''''
          (sprintf e ''enum %s was removed; cannot prove no consumer remains'' [AStr (ed_FullName ed)])]
      | Some newEd \<Rightarrow> compareEnums e ed newEd)"

definition walkEnums :: "go_env \<Rightarrow> files \<Rightarrow> enum_desc list \<Rightarrow> finding run" where
  "walkEnums e new list = run_all (map (walkEnum e new) list)"

fun walkMessage :: "go_env \<Rightarrow> files \<Rightarrow> message_desc \<Rightarrow> finding run" where
  "walkMessage e new (MessageDesc fqn me fs os rr rn enums nested) =
     (if me then Inr []
      else run_all
        [case findMessage new fqn of
           None \<Rightarrow> Inr (reportRemovedMessage e (MessageDesc fqn me fs os rr rn enums nested))
         | Some newMd \<Rightarrow> compareMessages e (MessageDesc fqn me fs os rr rn enums nested) newMd,
         run_all (map (walkMessage e new) nested),
         walkEnums e new enums])"

definition walkMessages :: "go_env \<Rightarrow> files \<Rightarrow> message_desc list \<Rightarrow> finding run" where
  "walkMessages e new list = run_all (map (walkMessage e new) list)"

definition compareOldFile :: "go_env \<Rightarrow> string list \<Rightarrow> files \<Rightarrow> file_desc \<Rightarrow> finding run" where
  "compareOldFile e owned new fd =
     (if \<not> isOwned owned (file_Path fd) then Inr []
      else
        (case FindFileByPath new (file_Path fd) of
           None \<Rightarrow>
             Inr (add_finding ''FILE_REMOVED'' SeverityWarn DimensionBoth '''' ''''
                    (sprintf e ''file %s existed before and is gone; its members are reported below''
                       [AStr (file_Path fd)]) # walkRemovedFile e fd)
         | Some newFd \<Rightarrow>
             run_all
               [Inr (if file_Package fd \<noteq> file_Package newFd then
                       [add_finding ''PACKAGE_CHANGED'' SeverityWarn DimensionBoth '''' ''''
                          (sprintf e ''file %s moved from package %q to %q; members are matched by fully-qualified name''
                             [AStr (file_Path fd), AStr (file_Package fd), AStr (file_Package newFd)])]
                     else []),
                walkMessages e new (file_Messages fd),
                walkEnums e new (file_Enums fd)]))"

definition compareNewFile :: "go_env \<Rightarrow> string list \<Rightarrow> files \<Rightarrow> file_desc \<Rightarrow> finding list" where
  "compareNewFile e owned old fd =
     (if \<not> isOwned owned (file_Path fd) then []
      else if FindFileByPath old (file_Path fd) = None then
        [add_finding ''FILE_ADDED'' SeverityInfo DimensionBoth '''' ''''
           (sprintf e ''file %s is new'' [AStr (file_Path fd)])]
      else [])"

definition compareFiles :: "go_env \<Rightarrow> string list \<Rightarrow> files \<Rightarrow> files \<Rightarrow> finding run" where
  "compareFiles e owned old new =
     run_all
       [run_all (map (compareOldFile e owned new) (RangeFiles old)),
        Inr (concat (map (compareNewFile e owned old) (RangeFiles new)))]"

subsection \<open>What is walked\<close>

fun walked :: "message_desc \<Rightarrow> message_desc list" where
  "walked (MessageDesc fqn me fs os rr rn enums nested) =
     (if me then [] else MessageDesc fqn me fs os rr rn enums nested # concat (map walked nested))"

definition walked_messages :: "file_desc \<Rightarrow> message_desc list" where
  "walked_messages fd = concat (map walked (file_Messages fd))"

definition walked_enums :: "file_desc \<Rightarrow> enum_desc list" where
  "walked_enums fd = file_Enums fd @ concat (map md_Enums (walked_messages fd))"

definition compareOrRemoved :: "go_env \<Rightarrow> files \<Rightarrow> message_desc \<Rightarrow> finding run" where
  "compareOrRemoved e new md =
     (case findMessage new (md_FullName md) of
        None \<Rightarrow> Inr (reportRemovedMessage e md)
      | Some newMd \<Rightarrow> compareMessages e md newMd)"

lemma walked_all_messages: "set (walked md) \<subseteq> set (all_messages md)"
  by (induction md) auto

lemma walked_messages_subset: "set (walked_messages fd) \<subseteq> set (file_messages fd)"
  using walked_all_messages by (force simp: walked_messages_def file_messages_def)

lemma walked_enums_subset: "set (walked_enums fd) \<subseteq> set (file_enums fd)"
  using walked_messages_subset [of fd] by (auto simp: walked_enums_def file_enums_def)

lemma walked_not_entry: "md \<in> set (walked m) \<Longrightarrow> \<not> md_IsMapEntry md"
  by (induction m) (auto split: if_splits)

lemma run_ok_walkMessage:
  "run_ok (walkMessage e new m) \<longleftrightarrow>
     (\<forall>md \<in> set (walked m). run_ok (compareOrRemoved e new md) \<and>
        (\<forall>ed \<in> set (md_Enums md). run_ok (walkEnum e new ed)))"
  by (induction m) (auto simp: compareOrRemoved_def walkEnums_def split: option.splits)

lemma set_walkMessage:
  assumes "run_ok (walkMessage e new m)"
  shows "set (out (walkMessage e new m)) =
     (\<Union>md \<in> set (walked m). set (out (compareOrRemoved e new md)) \<union>
        (\<Union>ed \<in> set (md_Enums md). set (out (walkEnum e new ed))))"
  using assms
proof (induction m)
  case (MessageDesc fqn me fs os rr rn enums nested)
  show ?case
  proof (cases me)
    case False
    with MessageDesc.prems have nested: "\<forall>m \<in> set nested. run_ok (walkMessage e new m)"
      and enums: "\<forall>ed \<in> set enums. run_ok (walkEnum e new ed)"
      by (simp_all add: walkEnums_def)
    with False MessageDesc.prems have "out (walkMessage e new (MessageDesc fqn me fs os rr rn enums nested)) =
        out (compareOrRemoved e new (MessageDesc fqn me fs os rr rn enums nested)) @
        concat (map (\<lambda>m. out (walkMessage e new m)) nested) @
        concat (map (\<lambda>ed. out (walkEnum e new ed)) enums)"
      by (simp add: walkEnums_def compareOrRemoved_def comp_def)
    with False nested MessageDesc.IH show ?thesis by auto
  qed simp
qed

subsection \<open>The findings of the walk\<close>

lemma run_ok_walkMessages:
  "run_ok (walkMessages e new ms) \<and> run_ok (walkEnums e new es) \<longleftrightarrow>
     (\<forall>m \<in> set ms. run_ok (walkMessage e new m)) \<and> (\<forall>ed \<in> set es. run_ok (walkEnum e new ed))"
  by (simp add: walkMessages_def walkEnums_def)

lemma run_ok_compareOldFile:
  "run_ok (compareOldFile e owned new fd) \<longleftrightarrow>
     isOwned owned (file_Path fd) \<and> FindFileByPath new (file_Path fd) \<noteq> None \<longrightarrow>
       (\<forall>md \<in> set (walked_messages fd). run_ok (compareOrRemoved e new md)) \<and>
       (\<forall>ed \<in> set (walked_enums fd). run_ok (walkEnum e new ed))"
  by (auto simp: compareOldFile_def walkMessages_def walkEnums_def run_ok_walkMessage
      walked_messages_def walked_enums_def split: option.splits)

definition package_changed :: "file_desc \<Rightarrow> files \<Rightarrow> bool" where
  "package_changed fd new \<longleftrightarrow>
     (\<exists>nfd. FindFileByPath new (file_Path fd) = Some nfd \<and> file_Package fd \<noteq> file_Package nfd)"

lemma out_compareOldFile:
  assumes "run_ok (compareOldFile e owned new fd)" and "isOwned owned (file_Path fd)"
    and "FindFileByPath new (file_Path fd) = Some nfd"
  shows "\<exists>d. set (out (compareOldFile e owned new fd)) =
     (if package_changed fd new then {add_finding ''PACKAGE_CHANGED'' SeverityWarn DimensionBoth '''' '''' d} else {}) \<union>
     (\<Union>md \<in> set (walked_messages fd). set (out (compareOrRemoved e new md))) \<union>
     (\<Union>ed \<in> set (walked_enums fd). set (out (walkEnum e new ed)))"
proof -
  from assms have ms: "run_ok (walkMessages e new (file_Messages fd))"
    and es: "run_ok (walkEnums e new (file_Enums fd))"
    by (simp_all add: compareOldFile_def)
  then have each: "\<forall>m \<in> set (file_Messages fd). run_ok (walkMessage e new m)"
    by (simp add: walkMessages_def)
  have "set (out (walkMessages e new (file_Messages fd))) =
      (\<Union>m \<in> set (file_Messages fd). set (out (walkMessage e new m)))"
    using ms by (simp add: walkMessages_def)
  also have "\<dots> = (\<Union>md \<in> set (walked_messages fd). set (out (compareOrRemoved e new md)) \<union>
        (\<Union>ed \<in> set (md_Enums md). set (out (walkEnum e new ed))))"
    using each by (auto simp: set_walkMessage walked_messages_def)
  finally have msgs: "set (out (walkMessages e new (file_Messages fd))) =
     (\<Union>md \<in> set (walked_messages fd). set (out (compareOrRemoved e new md)) \<union>
        (\<Union>ed \<in> set (md_Enums md). set (out (walkEnum e new ed))))" .
  have enums: "set (out (walkEnums e new (file_Enums fd))) =
      (\<Union>ed \<in> set (file_Enums fd). set (out (walkEnum e new ed)))"
    using es by (simp add: walkEnums_def)
  have "(\<Union>ed \<in> set (walked_enums fd). set (out (walkEnum e new ed))) =
      (\<Union>ed \<in> set (file_Enums fd). set (out (walkEnum e new ed))) \<union>
      (\<Union>md \<in> set (walked_messages fd). \<Union>ed \<in> set (md_Enums md). set (out (walkEnum e new ed)))"
    by (simp add: walked_enums_def)
  then have all: "set (out (walkMessages e new (file_Messages fd))) \<union> set (out (walkEnums e new (file_Enums fd))) =
      (\<Union>md \<in> set (walked_messages fd). set (out (compareOrRemoved e new md))) \<union>
      (\<Union>ed \<in> set (walked_enums fd). set (out (walkEnum e new ed)))"
    unfolding msgs enums by (simp add: UN_Un_distrib Un_ac)
  show ?thesis
  proof (cases "package_changed fd new")
    case True
    with assms ms es show ?thesis
      by (intro exI) (simp add: compareOldFile_def package_changed_def all)
  next
    case False
    with assms ms es show ?thesis
      by (simp add: compareOldFile_def package_changed_def all)
  qed
qed

definition enum_safe :: "enum_desc \<Rightarrow> enum_desc \<Rightarrow> bool" where
  "enum_safe old new \<longleftrightarrow>
     (\<forall>(num, ov) \<in> set (enumValuesByNumber old). enum_value_kept new num ov) \<and>
     (\<forall>(num, nv) \<in> set (enumValuesByNumber new). map_of (enumValuesByNumber old) num \<noteq> None \<or>
        \<not> hasEnumNumber (ed_ReservedRanges old) num \<and> ed_Syntax old \<noteq> Proto2) \<and>
     enum_ranges_kept old new"

definition closure_safe :: "string list \<Rightarrow> files \<Rightarrow> files \<Rightarrow> bool" where
  "closure_safe owned old new \<longleftrightarrow>
     (\<forall>fd \<in> set (RangeFiles old). isOwned owned (file_Path fd) \<longrightarrow>
        (\<exists>nfd. FindFileByPath new (file_Path fd) = Some nfd \<and> file_Package nfd = file_Package fd) \<and>
        (\<forall>md \<in> set (walked_messages fd).
           \<exists>nmd. findMessage new (md_FullName md) = Some nmd \<and> message_safe md nmd) \<and>
        (\<forall>ed \<in> set (walked_enums fd).
           \<exists>ned. findEnum new (ed_FullName ed) = Some ned \<and> enum_safe ed ned))"

definition closure_broken :: "string list \<Rightarrow> files \<Rightarrow> files \<Rightarrow> bool" where
  "closure_broken owned old new \<longleftrightarrow>
     (\<exists>fd \<in> set (RangeFiles old). isOwned owned (file_Path fd) \<and>
        FindFileByPath new (file_Path fd) \<noteq> None \<and>
        ((\<exists>md \<in> set (walked_messages fd). \<exists>nmd. findMessage new (md_FullName md) = Some nmd \<and>
            (\<exists>(num, ofd) \<in> set (fieldsByNumber md). field_lost nmd num ofd)) \<or>
         (\<exists>ed \<in> set (walked_enums fd). \<exists>ned. findEnum new (ed_FullName ed) = Some ned \<and>
            (\<exists>(num, ov) \<in> set (enumValuesByNumber ed). enum_value_broken ned num ov))))"

lemma reportRemoved_warn: "f \<in> set (reportRemovedMessage e md) \<Longrightarrow> f_Severity f = SeverityWarn"
  by (induction e md rule: reportRemovedMessage.induct) (auto split: if_splits)

lemma reportRemoved_judged: "\<not> all_info (reportRemovedMessage e md)" "no_fail (reportRemovedMessage e md)"
  using reportRemoved_warn [of _ e md] by (cases md; auto simp: no_fail_def)+

lemma walkRemovedFile_fail: "no_fail (walkRemovedFile e fd)"
  using reportRemoved_judged(2) by (auto simp: walkRemovedFile_def no_fail_def)

lemma compareOrRemoved_judged:
  assumes "fair_env e" and "run_ok (compareOrRemoved e new md)"
  shows "all_info (out (compareOrRemoved e new md)) \<longleftrightarrow>
      (\<exists>nmd. findMessage new (md_FullName md) = Some nmd \<and> message_safe md nmd)"
    and "no_fail (out (compareOrRemoved e new md)) \<longleftrightarrow>
      \<not> (\<exists>nmd. findMessage new (md_FullName md) = Some nmd \<and>
          (\<exists>(num, ofd) \<in> set (fieldsByNumber md). field_lost nmd num ofd))"
  using assms all_info_compareMessages [OF assms(1)] no_fail_compareMessages [OF assms(1)]
  by (auto simp: compareOrRemoved_def reportRemoved_judged split: option.splits)

lemma walkEnum_judged:
  assumes "fair_env e" and "run_ok (walkEnum e new ed)"
  shows "all_info (out (walkEnum e new ed)) \<longleftrightarrow>
      (\<exists>ned. findEnum new (ed_FullName ed) = Some ned \<and> enum_safe ed ned)"
    and "no_fail (out (walkEnum e new ed)) \<longleftrightarrow>
      \<not> (\<exists>ned. findEnum new (ed_FullName ed) = Some ned \<and>
          (\<exists>(num, ov) \<in> set (enumValuesByNumber ed). enum_value_broken ned num ov))"
  using assms all_info_compareEnums [OF assms(1)] no_fail_compareEnums [OF assms(1)]
  by (auto simp: walkEnum_def enum_safe_def split: option.splits)

lemma compareOldFile_judged:
  assumes "fair_env e" and "run_ok (compareOldFile e owned new fd)" and "isOwned owned (file_Path fd)"
  shows "all_info (out (compareOldFile e owned new fd)) \<longleftrightarrow>
        (\<exists>nfd. FindFileByPath new (file_Path fd) = Some nfd \<and> file_Package nfd = file_Package fd) \<and>
        (\<forall>md \<in> set (walked_messages fd).
           \<exists>nmd. findMessage new (md_FullName md) = Some nmd \<and> message_safe md nmd) \<and>
        (\<forall>ed \<in> set (walked_enums fd).
           \<exists>ned. findEnum new (ed_FullName ed) = Some ned \<and> enum_safe ed ned)" (is "?A")
    and "no_fail (out (compareOldFile e owned new fd)) \<longleftrightarrow> \<not>
        (FindFileByPath new (file_Path fd) \<noteq> None \<and>
        ((\<exists>md \<in> set (walked_messages fd). \<exists>nmd. findMessage new (md_FullName md) = Some nmd \<and>
            (\<exists>(num, ofd) \<in> set (fieldsByNumber md). field_lost nmd num ofd)) \<or>
         (\<exists>ed \<in> set (walked_enums fd). \<exists>ned. findEnum new (ed_FullName ed) = Some ned \<and>
            (\<exists>(num, ov) \<in> set (enumValuesByNumber ed). enum_value_broken ned num ov))))" (is "?B")
proof -
  have "?A \<and> ?B"
  proof (cases "FindFileByPath new (file_Path fd)")
    case None
    with assms(3) show ?thesis
      by (simp add: compareOldFile_def walkRemovedFile_fail)
  next
    case (Some nfd)
    then have runs: "\<forall>md \<in> set (walked_messages fd). run_ok (compareOrRemoved e new md)"
      "\<forall>ed \<in> set (walked_enums fd). run_ok (walkEnum e new ed)"
      using assms(2,3) by (simp_all add: run_ok_compareOldFile)
    obtain d where outs: "set (out (compareOldFile e owned new fd)) =
     (if package_changed fd new then {add_finding ''PACKAGE_CHANGED'' SeverityWarn DimensionBoth '''' '''' d} else {}) \<union>
     (\<Union>md \<in> set (walked_messages fd). set (out (compareOrRemoved e new md))) \<union>
     (\<Union>ed \<in> set (walked_enums fd). set (out (walkEnum e new ed)))"
      using out_compareOldFile [OF assms(2,3) Some] by blast
    have info: "all_info (out (compareOldFile e owned new fd)) \<longleftrightarrow> \<not> package_changed fd new \<and>
       (\<forall>md \<in> set (walked_messages fd). all_info (out (compareOrRemoved e new md))) \<and>
       (\<forall>ed \<in> set (walked_enums fd). all_info (out (walkEnum e new ed)))"
      unfolding all_info_def outs by auto
    have fail: "no_fail (out (compareOldFile e owned new fd)) \<longleftrightarrow>
       (\<forall>md \<in> set (walked_messages fd). no_fail (out (compareOrRemoved e new md))) \<and>
       (\<forall>ed \<in> set (walked_enums fd). no_fail (out (walkEnum e new ed)))"
      unfolding no_fail_def outs by auto
    have pkg: "\<not> package_changed fd new \<longleftrightarrow> file_Package nfd = file_Package fd"
      using Some by (auto simp: package_changed_def)
    show ?thesis
      unfolding info fail pkg
      using runs compareOrRemoved_judged [OF assms(1)] walkEnum_judged [OF assms(1)] Some by simp
  qed
  then show ?A and ?B by simp_all
qed

lemma run_ok_compareFiles:
  "run_ok (compareFiles e owned old new) \<longleftrightarrow>
     (\<forall>fd \<in> set (RangeFiles old). run_ok (compareOldFile e owned new fd))"
  by (simp add: compareFiles_def)

lemma out_compareFiles:
  "run_ok (compareFiles e owned old new) \<Longrightarrow> out (compareFiles e owned old new) =
     concat (map (\<lambda>fd. out (compareOldFile e owned new fd)) (RangeFiles old)) @
     concat (map (compareNewFile e owned old) (RangeFiles new))"
  by (simp add: compareFiles_def comp_def)

lemma compareNewFile_judged: "all_info (compareNewFile e owned old fd)" "no_fail (compareNewFile e owned old fd)"
  by (simp_all add: compareNewFile_def)

lemma not_owned_silent: "\<not> isOwned owned (file_Path fd) \<Longrightarrow> compareOldFile e owned new fd = Inr []"
  by (simp add: compareOldFile_def)

lemma compareFiles_judged:
  assumes "fair_env e" and "run_ok (compareFiles e owned old new)"
  shows "all_info (out (compareFiles e owned old new)) \<longleftrightarrow> closure_safe owned old new"
    and "no_fail (out (compareFiles e owned old new)) \<longleftrightarrow> \<not> closure_broken owned old new"
proof -
  have ok: "run_ok (compareOldFile e owned new fd)" if "fd \<in> set (RangeFiles old)" for fd
    using assms(2) that by (simp add: run_ok_compareFiles)
  have file_info: "all_info (out (compareOldFile e owned new fd)) \<longleftrightarrow> (isOwned owned (file_Path fd) \<longrightarrow>
        (\<exists>nfd. FindFileByPath new (file_Path fd) = Some nfd \<and> file_Package nfd = file_Package fd) \<and>
        (\<forall>md \<in> set (walked_messages fd).
           \<exists>nmd. findMessage new (md_FullName md) = Some nmd \<and> message_safe md nmd) \<and>
        (\<forall>ed \<in> set (walked_enums fd).
           \<exists>ned. findEnum new (ed_FullName ed) = Some ned \<and> enum_safe ed ned))"
    if "fd \<in> set (RangeFiles old)" for fd
    using compareOldFile_judged(1) [OF assms(1) ok [OF that]]
    by (cases "isOwned owned (file_Path fd)") (simp_all add: not_owned_silent)
  have file_fail: "\<not> no_fail (out (compareOldFile e owned new fd)) \<longleftrightarrow> isOwned owned (file_Path fd) \<and>
        FindFileByPath new (file_Path fd) \<noteq> None \<and>
        ((\<exists>md \<in> set (walked_messages fd). \<exists>nmd. findMessage new (md_FullName md) = Some nmd \<and>
            (\<exists>(num, ofd) \<in> set (fieldsByNumber md). field_lost nmd num ofd)) \<or>
         (\<exists>ed \<in> set (walked_enums fd). \<exists>ned. findEnum new (ed_FullName ed) = Some ned \<and>
            (\<exists>(num, ov) \<in> set (enumValuesByNumber ed). enum_value_broken ned num ov)))"
    if "fd \<in> set (RangeFiles old)" for fd
    using compareOldFile_judged(2) [OF assms(1) ok [OF that]]
    by (cases "isOwned owned (file_Path fd)") (simp_all add: not_owned_silent)
  have "all_info (out (compareFiles e owned old new)) \<longleftrightarrow>
      (\<forall>fd \<in> set (RangeFiles old). all_info (out (compareOldFile e owned new fd)))"
    unfolding out_compareFiles [OF assms(2)] by (simp add: compareNewFile_judged)
  then show "all_info (out (compareFiles e owned old new)) \<longleftrightarrow> closure_safe owned old new"
    unfolding closure_safe_def by (simp only: file_info cong: ball_cong)
  have "\<not> no_fail (out (compareFiles e owned old new)) \<longleftrightarrow>
      (\<exists>fd \<in> set (RangeFiles old). \<not> no_fail (out (compareOldFile e owned new fd)))"
    unfolding out_compareFiles [OF assms(2)] by (simp add: compareNewFile_judged)
  then have "\<not> no_fail (out (compareFiles e owned old new)) \<longleftrightarrow> closure_broken owned old new"
    unfolding closure_broken_def by (simp only: file_fail cong: bex_cong)
  then show "no_fail (out (compareFiles e owned old new)) \<longleftrightarrow> \<not> closure_broken owned old new"
    by blast
qed

text \<open>
  The verdict of a whole comparison that terminates, for every iteration order. It is
  COMPATIBLE exactly when every owned old file is still there with its package, and each of its
  messages and enums (nested ones included) is found again by full name with a safe change. It
  is INCOMPATIBLE exactly when some message of a file that is still there loses a field, or an
  enum loses a value, in a breaking way. Files that are new never matter.
\<close>
theorem compareFiles_verdict:
  assumes "fair_env e" and "compareFiles e owned old new = Inr fs"
  shows "(verdictOf fs = VerdictCompatible \<longleftrightarrow> closure_safe owned old new) \<and>
    (verdictOf fs = VerdictIncompatible \<longleftrightarrow> closure_broken owned old new)"
proof -
  from assms(2) have ok: "run_ok (compareFiles e owned old new)" and fs: "fs = out (compareFiles e owned old new)"
    by simp_all
  show ?thesis
    using compareFiles_judged [OF assms(1) ok]
    by (auto simp: verdictOf_compatible verdictOf_incompatible fs)
qed

definition pay_file :: "string \<Rightarrow> message_desc list \<Rightarrow> file_desc" where
  "pay_file path ms = \<lparr>file_Path = path, file_Package = ''pay'', file_Messages = ms, file_Enums = []\<rparr>"

definition closure_v1 :: files where
  "closure_v1 = mk_files [pay_file ''pay.proto''
     [msg ''pay.Invoice'' [plain_field ''id'' 1 StringKind, plain_field ''note'' 3 StringKind] [] []]]"

definition closure_v2 :: files where
  "closure_v2 = mk_files [pay_file ''pay.proto''
     [msg ''pay.Invoice'' [plain_field ''id'' 1 StringKind] [] []]]"

theorem compareFiles_verdict_witness:
  "closure_broken [] closure_v1 closure_v2 \<and> \<not> closure_safe [] closure_v1 closure_v2 \<and>
   verdictOf (out (compareFiles plain_env [] closure_v1 closure_v2)) = VerdictIncompatible"
proof -
  have run: "compareFiles plain_env [] closure_v1 closure_v2 =
      Inr (out (compareFiles plain_env [] closure_v1 closure_v2))"
    by code_simp
  have v: "verdictOf (out (compareFiles plain_env [] closure_v1 closure_v2)) = VerdictIncompatible"
    by code_simp
  from compareFiles_verdict [OF fair_plain_env run] v show ?thesis by simp
qed

subsection \<open>Independence of the iteration order\<close>

lemma reportRemovedMessage_cong:
  assumes "same_lib e e'"
  shows "reportRemovedMessage e = reportRemovedMessage e'"
proof
  fix md show "reportRemovedMessage e md = reportRemovedMessage e' md"
    by (induction md) (auto simp: sprintf_cong [OF assms] intro!: arg_cong [where f = concat])
qed

lemma same_run_walkEnum:
  assumes "fair_env e" and "fair_env e'" and "same_lib e e'"
  shows "same_run (walkEnum e new ed) (walkEnum e' new ed)"
  by (simp add: walkEnum_def sprintf_cong [OF assms(3)] same_run_compareEnums [OF assms] split: option.splits)

lemma same_run_walkEnums:
  assumes "fair_env e" and "fair_env e'" and "same_lib e e'"
  shows "same_run (walkEnums e new es) (walkEnums e' new es)"
  unfolding walkEnums_def by (rule same_run_map) (simp_all add: same_run_walkEnum [OF assms])

lemma same_run_walkMessage:
  assumes "fair_env e" and "fair_env e'" and "same_lib e e'"
  shows "same_run (walkMessage e new m) (walkMessage e' new m)"
proof (induction m)
  case (MessageDesc fqn me fs os rr rn enums nested)
  have "same_run (run_all (map (walkMessage e new) nested)) (run_all (map (walkMessage e' new) nested))"
    by (rule same_run_map) (simp_all add: MessageDesc)
  moreover have "same_run
     (case findMessage new fqn of None \<Rightarrow> Inr (reportRemovedMessage e md) | Some n \<Rightarrow> compareMessages e md n)
     (case findMessage new fqn of None \<Rightarrow> Inr (reportRemovedMessage e' md) | Some n \<Rightarrow> compareMessages e' md n)" for md
    by (simp add: reportRemovedMessage_cong [OF assms(3)] same_run_compareMessages [OF assms] split: option.splits)
  ultimately show ?case
    by (auto intro!: same_run_pointwise simp: same_run_walkEnums [OF assms])
qed

lemma same_run_compareOldFile:
  assumes "fair_env e" and "fair_env e'" and "same_lib e e'"
  shows "same_run (compareOldFile e owned new fd) (compareOldFile e' owned new fd)"
proof -
  have "same_run (walkMessages e new ms) (walkMessages e' new ms)" for ms
    unfolding walkMessages_def by (rule same_run_map) (simp_all add: same_run_walkMessage [OF assms])
  then show ?thesis
    unfolding compareOldFile_def
    by (auto intro!: same_run_pointwise arg_cong [where f = concat] simp: walkRemovedFile_def
        sprintf_cong [OF assms(3)] reportRemovedMessage_cong [OF assms(3)]
        same_run_walkEnums [OF assms] split: option.splits)
qed

text \<open>The same registry, ranged over in another order.\<close>

definition reordered :: "files \<Rightarrow> files \<Rightarrow> bool" where
  "reordered F G \<longleftrightarrow> mset (RangeFiles F) = mset (RangeFiles G) \<and>
     FindFileByPath F = FindFileByPath G \<and> FindDescriptorByName F = FindDescriptorByName G"

lemma findMessage_cong: "reordered F G \<Longrightarrow> findMessage F = findMessage G"
  by (auto simp: reordered_def findMessage_def)

lemma findEnum_cong: "reordered F G \<Longrightarrow> findEnum F = findEnum G"
  by (auto simp: reordered_def findEnum_def)

lemma walkMessage_reordered:
  assumes "reordered F G"
  shows "walkMessage e F m = walkMessage e G m"
proof (induction m)
  case (MessageDesc fqn me fs os rr rn enums nested)
  have "map (walkMessage e F) nested = map (walkMessage e G) nested"
    by (rule map_cong) (simp_all add: MessageDesc)
  moreover have "walkEnums e F enums = walkEnums e G enums"
    by (simp add: walkEnums_def walkEnum_def [abs_def] findEnum_cong [OF assms])
  ultimately show ?case
    unfolding walkMessage.simps findMessage_cong [OF assms] by (simp only:)
qed

lemma compareOldFile_reordered:
  assumes "reordered F G"
  shows "compareOldFile e owned F fd = compareOldFile e owned G fd"
proof -
  have "walkMessages e F = walkMessages e G"
    by (simp add: walkMessages_def [abs_def] walkMessage_reordered [OF assms] cong: map_cong)
  moreover have "walkEnums e F = walkEnums e G"
    by (simp add: walkEnums_def [abs_def] walkEnum_def [abs_def] findEnum_cong [OF assms])
  moreover have "FindFileByPath F = FindFileByPath G"
    using assms by (simp add: reordered_def)
  ultimately show ?thesis
    by (simp only: compareOldFile_def)
qed

lemma same_run_compareFiles:
  assumes "fair_env e" and "fair_env e'" and "same_lib e e'"
    and "reordered old old'" and "reordered new new'"
  shows "same_run (compareFiles e owned old new) (compareFiles e' owned old' new')"
proof -
  have "mset (RangeFiles old) = mset (RangeFiles old')"
    using assms(4) by (simp add: reordered_def)
  then have "same_run (run_all (map (compareOldFile e owned new) (RangeFiles old)))
      (run_all (map (compareOldFile e' owned new') (RangeFiles old')))"
  proof (rule same_run_map)
    fix fd
    show "same_run (compareOldFile e owned new fd) (compareOldFile e' owned new' fd)"
      unfolding compareOldFile_reordered [OF assms(5), of e]
      by (rule same_run_compareOldFile [OF assms(1-3)])
  qed
  moreover have "compareNewFile e owned old = compareNewFile e' owned old'"
  proof
    fix fd
    have "FindFileByPath old = FindFileByPath old'" using assms(4) by (simp add: reordered_def)
    then show "compareNewFile e owned old fd = compareNewFile e' owned old' fd"
      by (simp only: compareNewFile_def sprintf_cong [OF assms(3)])
  qed
  then have "mset (concat (map (compareNewFile e owned old) (RangeFiles new))) =
      mset (concat (map (compareNewFile e' owned old') (RangeFiles new')))"
    using assms(5) mset_concat_map [of "RangeFiles new" "RangeFiles new'" "compareNewFile e' owned old'"]
    by (simp only: reordered_def)
  ultimately show ?thesis
    unfolding compareFiles_def by (intro same_run_pointwise) simp
qed

text \<open>
  The outcome of a comparison does not depend on the order in which Go ranges over its maps
  or the registries enumerate their files: two runs either both stop with a run-time fault, or
  report the same findings (as a multiset) and the same verdict.
\<close>
theorem compareFiles_order_independent:
  assumes "fair_env e" and "fair_env e'" and "same_lib e e'"
    and "reordered old old'" and "reordered new new'"
  shows "same_run (compareFiles e owned old new) (compareFiles e' owned old' new') \<and>
    verdictOf (out (compareFiles e owned old new)) = verdictOf (out (compareFiles e' owned old' new'))"
proof
  show same: "same_run (compareFiles e owned old new) (compareFiles e' owned old' new')"
    by (rule same_run_compareFiles [OF assms])
  then have "mset (out (compareFiles e owned old new)) = mset (out (compareFiles e' owned old' new'))"
    by (cases "compareFiles e owned old new"; cases "compareFiles e' owned old' new'")
      (auto simp: same_run_def)
  then show "verdictOf (out (compareFiles e owned old new)) = verdictOf (out (compareFiles e' owned old' new'))"
    by (rule vo.agg_perm)
qed

definition reversed_env :: go_env where
  "reversed_env = plain_env\<lparr>numOrder := (\<lambda>_ _ ks. rev ks), strOrder := (\<lambda>_ _ ks. rev ks)\<rparr>"

lemma fair_reversed_env [simp]: "fair_env reversed_env" "same_lib plain_env reversed_env"
  by (simp_all add: reversed_env_def fair_env_def same_lib_def)

theorem compareFiles_order_independent_witness:
  "same_run (compareFiles plain_env [] closure_v1 closure_v2)
     (compareFiles reversed_env [] closure_v1 closure_v2) \<and>
   verdictOf (out (compareFiles reversed_env [] closure_v1 closure_v2)) = VerdictIncompatible"
proof -
  have "verdictOf (out (compareFiles plain_env [] closure_v1 closure_v2)) = VerdictIncompatible"
    by code_simp
  with compareFiles_order_independent [OF fair_plain_env fair_reversed_env, of closure_v1 closure_v1
      closure_v2 closure_v2 "[]"]
  show ?thesis by (simp add: reordered_def)
qed

subsection \<open>A closure against itself\<close>

definition closure_plain :: "files \<Rightarrow> bool" where
  "closure_plain F \<longleftrightarrow>
     (\<forall>fd \<in> set (RangeFiles F).
        (\<forall>md \<in> set (file_messages fd). \<forall>f \<in> set (md_Fields md). field_plain_default f) \<and>
        (\<forall>ed \<in> set (file_enums fd). enum_ranges_bounded ed))"

lemma findMessage_self:
  assumes "files_ok F" and "fd \<in> set (RangeFiles F)" and "md \<in> set (walked_messages fd)"
  shows "findMessage F (md_FullName md) = Some md"
proof -
  have "md \<in> set (file_messages fd)" using assms(3) walked_messages_subset [of fd] by blast
  with assms(1,2) have "FindDescriptorByName F (md_FullName md) = Some (DMessage md)"
    unfolding files_ok_def by blast
  moreover have "\<not> md_IsMapEntry md"
    using assms(3) walked_not_entry by (auto simp: walked_messages_def)
  ultimately show ?thesis by (simp add: findMessage_def)
qed

lemma findEnum_self:
  assumes "files_ok F" and "fd \<in> set (RangeFiles F)" and "ed \<in> set (walked_enums fd)"
  shows "findEnum F (ed_FullName ed) = Some ed"
proof -
  have "ed \<in> set (file_enums fd)" using assms(3) walked_enums_subset [of fd] by blast
  with assms(1,2) have "FindDescriptorByName F (ed_FullName ed) = Some (DEnum ed)"
    unfolding files_ok_def by blast
  then show ?thesis by (simp add: findEnum_def)
qed

lemma compareOldFile_self:
  assumes "fair_env e" and "files_ok F" and "closure_plain F" and fd: "fd \<in> set (RangeFiles F)"
  shows "compareOldFile e owned F fd = Inr []"
proof (cases "isOwned owned (file_Path fd)")
  case True
  have found: "FindFileByPath F (file_Path fd) = Some fd"
    using assms(2) fd by (simp add: files_ok_def)
  have ms: "compareOrRemoved e F md = Inr []" if "md \<in> set (walked_messages fd)" for md
    using that assms(1,3) fd walked_messages_subset [of fd] findMessage_self [OF assms(2) fd that]
    by (auto simp: compareOrRemoved_def closure_plain_def compareMessages_refl)
  have es: "walkEnum e F ed = Inr []" if "ed \<in> set (walked_enums fd)" for ed
    using that assms(1,3) fd walked_enums_subset [of fd] findEnum_self [OF assms(2) fd that]
    by (auto simp: walkEnum_def closure_plain_def compareEnums_refl)
  have ok: "run_ok (compareOldFile e owned F fd)"
    by (simp add: run_ok_compareOldFile ms es)
  have "set (out (compareOldFile e owned F fd)) = {}"
    using out_compareOldFile [OF ok True found] found ms es by (auto simp: package_changed_def)
  with ok show ?thesis by (metis run_okE set_empty)
qed (simp add: not_owned_silent)

text \<open>
  C17. Comparing a closure with itself terminates and reports nothing, whatever the owned paths
  and the iteration orders, provided the registry is consistent, no explicit default is a
  \<open>bytes\<close> or NaN value and no enum reserves numbers up to the largest one. (The two provisos
  are necessary: see the panic on \<open>bytes\<close> defaults and the wrap-around of enum ranges.)
\<close>
theorem compareFiles_reflexive:
  assumes "fair_env e" and "files_ok F" and "closure_plain F"
  shows "compareFiles e owned F F = Inr []"
proof -
  have "compareNewFile e owned F fd = []" if "fd \<in> set (RangeFiles F)" for fd
  proof -
    from assms(2) that have "FindFileByPath F (file_Path fd) = Some fd"
      by (simp add: files_ok_def)
    then show ?thesis by (simp add: compareNewFile_def)
  qed
  then have new: "concat (map (compareNewFile e owned F) (RangeFiles F)) = []" by simp
  have "map (compareOldFile e owned F) (RangeFiles F) = map (\<lambda>_. Inr []) (RangeFiles F)"
    by (rule map_cong) (simp_all add: compareOldFile_self [OF assms])
  then have old: "run_all (map (compareOldFile e owned F) (RangeFiles F)) = Inr []"
    by (simp only: run_all_map_Inr) simp
  show ?thesis unfolding compareFiles_def old new by (simp add: run_all.simps)
qed

theorem compareFiles_reflexive_witness:
  "files_ok closure_v1 \<and> compareFiles reversed_env [''pay.proto''] closure_v1 closure_v1 = Inr []"
proof
  have "closure_plain closure_v1" by code_simp
  moreover show ok: "files_ok closure_v1"
    unfolding closure_v1_def by (rule files_ok_mk_files) code_simp
  ultimately show "compareFiles reversed_env [''pay.proto''] closure_v1 closure_v1 = Inr []"
    using compareFiles_reflexive [OF fair_reversed_env(1)] by blast
qed

subsection \<open>Where findings are attributed\<close>

definition about :: "string \<Rightarrow> finding list \<Rightarrow> bool" where
  "about fqn fs \<longleftrightarrow> (\<forall>f \<in> set fs. f_Message f = fqn)"

lemma about_simps [simp]:
  "about fqn []" "about fqn (f # fs) \<longleftrightarrow> f_Message f = fqn \<and> about fqn fs"
  "about fqn (fs @ gs) \<longleftrightarrow> about fqn fs \<and> about fqn gs"
  "about fqn (concat fss) \<longleftrightarrow> (\<forall>fs \<in> set fss. about fqn fs)"
  by (auto simp: about_def)

lemma about_run_all: "(\<And>r. r \<in> set rs \<Longrightarrow> about fqn (out r)) \<Longrightarrow> about fqn (out (run_all rs))"
proof (cases "run_ok (run_all rs)")
  case False
  then show ?thesis by (cases "run_all rs") (simp_all del: run_ok_run_all)
qed simp

lemma compareDefault_about: "about fqn (out (compareDefault e fqn path ofd nfd))"
  by (simp add: compareDefault_def split: sum.splits bool.splits)

lemma field_checks_about:
  "about fqn (compareFieldType e fqn path ofd nfd)" "about fqn (compareCardinality e fqn path ofd nfd)"
  "about fqn (compareOneofMembership e fqn path ofd nfd)" "about fqn (compareRequired e fqn path ofd nfd)"
  by (simp_all add: compareFieldType_def compareEnumSwap_def compareCardinality_def
      compareOneofMembership_def compareRequired_def Let_def split: option.splits)

lemma compareField_about: "about fqn (out (compareField e fqn num ofd nfd))"
  unfolding compareField_def Let_def
  by (auto intro!: about_run_all simp: field_checks_about compareDefault_about)

lemma compareMessages_about: "about (md_FullName old) (out (compareMessages e old new))"
proof -
  have "about (md_FullName old) (field_removed e old new p)" "about (md_FullName old) (field_added e old new p)"
    "about (md_FullName old) (out (field_common e old new p))" for p
    by (simp_all add: field_removed_def field_added_def field_common_def Let_def compareField_about
        split: option.splits)
  moreover have "about (md_FullName old) (compareOneofs e old new)"
    "about (md_FullName old) (compareReservedRanges e (md_FullName old) k rs rs')" for k rs rs'
    by (auto simp: compareOneofs_def oneof_removed_def oneof_added_def compareReservedRanges_def Let_def)
  ultimately show ?thesis
    unfolding compareMessages_def Let_def by (auto intro!: about_run_all)
qed

lemma compareEnums_about: "about (ed_FullName old) (out (compareEnums e old new))"
proof -
  have "about (ed_FullName old) (enum_value_removed e old new p)"
    "about (ed_FullName old) (enum_value_added e old new p)"
    "about (ed_FullName old) (enum_value_renamed e old new p)"
    "about (ed_FullName old) (enum_default_changed e old new)"
    "about (ed_FullName old) (out (enum_range_unreserved e old new r))" for p r
    by (simp_all add: enum_value_removed_def enum_value_added_def enum_value_renamed_def
        enum_default_changed_def enum_range_unreserved_def Let_def split: option.splits bool.splits)
  then show ?thesis
    unfolding compareEnums_def Let_def by (auto intro!: about_run_all)
qed

lemma reportRemoved_about:
  "f \<in> set (reportRemovedMessage e md) \<Longrightarrow>
     \<exists>m \<in> set (all_messages md). f_Message f = md_FullName m \<or> f_Message f \<in> ed_FullName ` set (md_Enums m)"
proof (induction md)
  case (MessageDesc fqn me fs os rr rn enums nested)
  let ?md = "MessageDesc fqn me fs os rr rn enums nested"
  from MessageDesc.prems consider "f_Message f = fqn" | "f_Message f \<in> ed_FullName ` set enums"
    | m where "m \<in> set nested" "f \<in> set (reportRemovedMessage e m)"
    by (auto split: if_splits)
  then show ?case
  proof cases
    case 3
    with MessageDesc.IH obtain m' where "m' \<in> set (all_messages m)"
      "f_Message f = md_FullName m' \<or> f_Message f \<in> ed_FullName ` set (md_Enums m')" by blast
    with 3 show ?thesis by auto
  qed auto
qed

definition declared_names :: "file_desc \<Rightarrow> string set" where
  "declared_names fd = md_FullName ` set (file_messages fd) \<union> ed_FullName ` set (file_enums fd)"

lemma all_messages_self: "md \<in> set (all_messages md)"
  by (cases md) simp

lemma all_messages_trans: "m \<in> set (all_messages md) \<Longrightarrow> n \<in> set (all_messages m) \<Longrightarrow> n \<in> set (all_messages md)"
  by (induction md) auto

lemma removed_declared:
  assumes "f \<in> set (reportRemovedMessage e md)" and "md \<in> set (file_messages fd)"
  shows "f_Message f \<in> declared_names fd"
proof -
  obtain m where m: "m \<in> set (all_messages md)"
    "f_Message f = md_FullName m \<or> f_Message f \<in> ed_FullName ` set (md_Enums m)"
    using reportRemoved_about [OF assms(1)] by blast
  moreover have "m \<in> set (file_messages fd)"
    using m(1) assms(2) all_messages_trans by (auto simp: file_messages_def)
  ultimately show ?thesis by (auto simp: declared_names_def file_enums_def)
qed

lemma walkRemovedFile_declared: "f \<in> set (walkRemovedFile e fd) \<Longrightarrow> f_Message f \<in> declared_names fd"
proof -
  assume "f \<in> set (walkRemovedFile e fd)"
  then consider md where "md \<in> set (file_Messages fd)" "f \<in> set (reportRemovedMessage e md)"
    | "f_Message f \<in> ed_FullName ` set (file_Enums fd)"
    by (auto simp: walkRemovedFile_def)
  then show ?thesis
  proof cases
    case 1
    then show ?thesis
      using removed_declared [of f e md fd] all_messages_self by (auto simp: file_messages_def)
  qed (auto simp: declared_names_def file_enums_def)
qed

lemma compareOrRemoved_declared:
  assumes "f \<in> set (out (compareOrRemoved e new md))" and "md \<in> set (file_messages fd)"
  shows "f_Message f \<in> declared_names fd"
  using assms compareMessages_about [of md e] removed_declared [OF _ assms(2), of f e]
  by (auto simp: compareOrRemoved_def about_def declared_names_def split: option.splits)

lemma walkEnum_declared:
  assumes "f \<in> set (out (walkEnum e new ed))" and "ed \<in> set (file_enums fd)"
  shows "f_Message f \<in> declared_names fd"
  using assms compareEnums_about [of ed e]
  by (auto simp: walkEnum_def about_def declared_names_def split: option.splits)

lemma compareOldFile_declared:
  assumes "run_ok (compareOldFile e owned new fd)" and f: "f \<in> set (out (compareOldFile e owned new fd))"
  shows "isOwned owned (file_Path fd) \<and> (f_Message f = '''' \<or> f_Message f \<in> declared_names fd)"
proof (cases "isOwned owned (file_Path fd)")
  case True
  show ?thesis
  proof (cases "FindFileByPath new (file_Path fd)")
    case None
    with True f walkRemovedFile_declared [of f e fd] show ?thesis by (auto simp: compareOldFile_def)
  next
    case (Some nfd)
    with out_compareOldFile [OF assms(1) True] f consider "f_Message f = ''''"
      | md where "md \<in> set (walked_messages fd)" "f \<in> set (out (compareOrRemoved e new md))"
      | ed where "ed \<in> set (walked_enums fd)" "f \<in> set (out (walkEnum e new ed))"
      by (auto split: if_splits)
    then show ?thesis
      using True walked_messages_subset [of fd] walked_enums_subset [of fd]
        compareOrRemoved_declared [of f e new _ fd] walkEnum_declared [of f e new _ fd]
      by cases blast+
  qed
qed (use f in \<open>simp add: not_owned_silent\<close>)

text \<open>
  C31. Every finding of a comparison is attributed to what it is about: its message name is the
  full name of a message or an enum declared in an owned old file, or it is empty, for the
  findings about a whole file. Declarations outside the owned paths, well-known types
  included, never appear.
\<close>
theorem findings_attributed_to_owned:
  assumes "compareFiles e owned old new = Inr fs" and "f \<in> set fs"
  shows "f_Message f = '''' \<or>
    (\<exists>fd \<in> set (RangeFiles old). isOwned owned (file_Path fd) \<and> f_Message f \<in> declared_names fd)"
proof -
  from assms(1) have ok: "run_ok (compareFiles e owned old new)" and "fs = out (compareFiles e owned old new)"
    by simp_all
  with assms(2) consider fd where "fd \<in> set (RangeFiles old)" "f \<in> set (out (compareOldFile e owned new fd))"
    | fd where "f \<in> set (compareNewFile e owned old fd)"
    by (auto simp: out_compareFiles)
  then show ?thesis
  proof cases
    case 1
    with ok compareOldFile_declared [of e owned new fd f] show ?thesis
      by (auto simp: run_ok_compareFiles)
  qed (auto simp: compareNewFile_def split: if_splits)
qed

theorem findings_attributed_to_owned_witness:
  "\<exists>f \<in> set (out (compareFiles plain_env [] closure_v1 closure_v2)).
     f_Message f = ''pay.Invoice'' \<and> (f_Message f = '''' \<or>
    (\<exists>fd \<in> set (RangeFiles closure_v1). isOwned [] (file_Path fd) \<and> f_Message f \<in> declared_names fd))"
proof -
  have run: "compareFiles plain_env [] closure_v1 closure_v2 =
      Inr (out (compareFiles plain_env [] closure_v1 closure_v2))"
    by code_simp
  have "\<exists>f \<in> set (out (compareFiles plain_env [] closure_v1 closure_v2)). f_Message f = ''pay.Invoice''"
    by code_simp
  with findings_attributed_to_owned [OF run] show ?thesis by blast
qed

subsection \<open>Removed and moved declarations\<close>

definition outer_message :: message_desc where
  "outer_message = MessageDesc ''pay.Outer'' False [] [] [] [] [] [msg ''pay.Outer.Inner'' [] [] []]"

text \<open>
  A message that disappears together with its nested messages reports each nested message
  twice: \<open>reportRemovedMessage\<close> descends into them, and so does \<open>walkMessages\<close> afterwards.
\<close>
theorem nested_removed_message_reported_twice:
  "map (\<lambda>f. (f_Code f, f_Message f))
     (out (compareFiles plain_env [] (mk_files [pay_file ''pay.proto'' [outer_message]])
       (mk_files [pay_file ''pay.proto'' []]))) =
   [(''MESSAGE_REMOVED'', ''pay.Outer''), (''MESSAGE_REMOVED'', ''pay.Outer.Inner''),
    (''MESSAGE_REMOVED'', ''pay.Outer.Inner'')]"
  by code_simp

lemma moved_not_broken:
  assumes "\<forall>fd \<in> set (RangeFiles old). isOwned owned (file_Path fd) \<longrightarrow> FindFileByPath new (file_Path fd) = None"
  shows "\<not> closure_broken owned old new" "run_ok (compareFiles e owned old new)"
  using assms by (auto simp: closure_broken_def run_ok_compareFiles run_ok_compareOldFile)

text \<open>
  C32. When every owned file is renamed, the verdict is NEEDS\_REVIEW whatever happened to the
  declarations in them: members are matched by full name only inside files whose path is kept,
  so a field deleted without a reservation while its file is renamed is not found INCOMPATIBLE,
  and a pure rename of a file is not COMPATIBLE.
\<close>
theorem renamed_files_only_need_review:
  assumes "fair_env e" and "fd \<in> set (RangeFiles old)" and "isOwned owned (file_Path fd)"
    and "\<forall>fd \<in> set (RangeFiles old). isOwned owned (file_Path fd) \<longrightarrow> FindFileByPath new (file_Path fd) = None"
  shows "\<exists>fs. compareFiles e owned old new = Inr fs \<and> verdictOf fs = VerdictNeedsReview"
proof -
  note ok = moved_not_broken(2) [OF assms(4)]
  from assms(2-4) have "\<not> closure_safe owned old new" by (auto simp: closure_safe_def)
  with compareFiles_judged [OF assms(1) ok] moved_not_broken(1) [OF assms(4)]
  have "verdictOf (out (compareFiles e owned old new)) = VerdictNeedsReview"
    by (auto simp: vo.agg_needs_review all_info_def no_fail_def)
      (metis severity.exhaust)
  with run_okE [OF ok] show ?thesis by blast
qed

definition closure_v2_moved :: files where
  "closure_v2_moved = mk_files [pay_file ''pay/v2.proto''
     [msg ''pay.Invoice'' [plain_field ''id'' 1 StringKind] [] []]]"

theorem renamed_files_only_need_review_witness:
  "verdictOf (out (compareFiles plain_env [] closure_v1 closure_v2)) = VerdictIncompatible \<and>
   findMessage closure_v2_moved ''pay.Invoice'' = findMessage closure_v2 ''pay.Invoice'' \<and>
   (\<exists>fs. compareFiles plain_env [] closure_v1 closure_v2_moved = Inr fs \<and> verdictOf fs = VerdictNeedsReview)"
proof (intro conjI)
  show "verdictOf (out (compareFiles plain_env [] closure_v1 closure_v2)) = VerdictIncompatible"
    by code_simp
  show "findMessage closure_v2_moved ''pay.Invoice'' = findMessage closure_v2 ''pay.Invoice''"
    by code_simp
  have "\<forall>fd \<in> set (RangeFiles closure_v1). isOwned [] (file_Path fd) \<longrightarrow>
      FindFileByPath closure_v2_moved (file_Path fd) = None"
    by code_simp
  moreover have "hd (RangeFiles closure_v1) \<in> set (RangeFiles closure_v1)"
    "isOwned [] (file_Path (hd (RangeFiles closure_v1)))"
    by code_simp+
  ultimately show "\<exists>fs. compareFiles plain_env [] closure_v1 closure_v2_moved = Inr fs \<and>
      verdictOf fs = VerdictNeedsReview"
    using renamed_files_only_need_review [OF fair_plain_env] by blast
qed

end
