(* ===== verification/Sample.thy ===== *)
theory Sample
  imports Walk
begin

text \<open>
  Sample payloads, \<open>internal/compat/sample.go\<close>: a payload is parsed under the old and the new
  schema, both parses are rendered canonically, and where they differ the two dynamic messages
  are walked field by field. The codecs (\<open>protojson\<close>, \<open>proto\<close>) are not part of the program:
  they are the parameter \<open>codec\<close>, functions from a registry, a message descriptor and a
  payload to a dynamic message or an error text. Dynamic messages (\<open>dynamicpb\<close>) are values of
  \<open>dmsg\<close>; their \<open>Get\<close> returns the set value, or the empty value or default of the field.
\<close>

text \<open>
  Linked descriptors hold the descriptors of the message types they refer to; here they hold
  names, and a resolver gives the descriptor of a name.
\<close>

type_synonym resolver = "string \<Rightarrow> message_desc"

record codec =
  unmarshalJSON :: "resolver \<Rightarrow> message_desc \<Rightarrow> string \<Rightarrow> string + dmsg"
  unmarshalWire :: "resolver \<Rightarrow> message_desc \<Rightarrow> string \<Rightarrow> string + dmsg"
  marshalWire :: "dmsg \<Rightarrow> string + string"
  marshalJSON :: "dmsg \<Rightarrow> string + string"

definition maxDiffsPerSample :: nat where
  "maxDiffsPerSample = 32"

subsection \<open>Reading a dynamic message\<close>

definition linked :: "files \<Rightarrow> resolver" where
  "linked F name = (case FindDescriptorByName F name of
     Some (DMessage md) \<Rightarrow> md | _ \<Rightarrow> MessageDesc name False [] [] [] [] [] [])"

definition dm_Numbers :: "dmsg \<Rightarrow> int list" where
  "dm_Numbers m = map (\<lambda>p. fd_Number (fst p)) (dm_Fields m)"

definition dm_Get :: "resolver \<Rightarrow> dmsg \<Rightarrow> field_desc \<Rightarrow> pvalue" where
  "dm_Get F m fd =
     (case find (\<lambda>p. fd_Number (fst p) = fd_Number fd) (dm_Fields m) of
        Some p \<Rightarrow> snd p
      | None \<Rightarrow>
          if IsMap fd then PMap []
          else if IsList fd then PList []
          else if fd_Kind fd = MessageKind \<or> fd_Kind fd = GroupKind
            then PMessage (DMsg (F (fd_Message fd)) [] [])
          else PScalar (fd_Default fd))"

fun vsize :: "pvalue \<Rightarrow> nat" and msize :: "dmsg \<Rightarrow> nat" where
  "vsize (PScalar g) = 0"
| "vsize (PMessage m) = msize m"
| "vsize (PList vs) = sum_list (map (\<lambda>v. Suc (vsize v)) vs)"
| "vsize (PMap kvs) = sum_list (map (\<lambda>kv. Suc (vsize (snd kv))) kvs)"
| "msize (DMsg md fs u) = sum_list (map (\<lambda>p. Suc (vsize (snd p))) fs)"

lemma member_size: "x \<in> set xs \<Longrightarrow> f x < sum_list (map (\<lambda>y. Suc (f y)) xs)"
  by (induction xs) auto

lemma nth_size: "i < length vs \<Longrightarrow> vsize (vs ! i) < vsize (PList vs)"
  using member_size [of "vs ! i" vs vsize] by simp

lemma map_size: "map_of kvs k = Some v \<Longrightarrow> vsize v < vsize (PMap kvs)"
  using member_size [of "(k, v)" kvs "\<lambda>kv. vsize (snd kv)"] by (simp add: map_of_SomeD)

lemma Get_size_le: "vsize (dm_Get F m fd) \<le> msize m"
proof (cases "find (\<lambda>p. fd_Number (fst p) = fd_Number fd) (dm_Fields m)")
  case None
  then show ?thesis by (simp add: dm_Get_def)
next
  case (Some p)
  then have "p \<in> set (dm_Fields m)" by (auto simp: find_Some_iff)
  then show ?thesis
    using Some member_size [of p "dm_Fields m" "\<lambda>p. vsize (snd p)"] by (cases m) (simp add: dm_Get_def)
qed

lemma Get_size_less: "fd_Number fd \<in> set (dm_Numbers m) \<Longrightarrow> vsize (dm_Get F m fd) < msize m"
proof -
  assume "fd_Number fd \<in> set (dm_Numbers m)"
  then obtain p where "find (\<lambda>p. fd_Number (fst p) = fd_Number fd) (dm_Fields m) = Some p"
    by (cases "find (\<lambda>p. fd_Number (fst p) = fd_Number fd) (dm_Fields m)")
      (auto simp: find_None_iff dm_Numbers_def)
  moreover from this have "p \<in> set (dm_Fields m)" by (auto simp: find_Some_iff)
  ultimately show ?thesis
    using member_size [of p "dm_Fields m" "\<lambda>p. vsize (snd p)"] by (cases m) (simp add: dm_Get_def)
qed

subsection \<open>The loops over fields, keys and indices\<close>

text \<open>Each loop stops as soon as the cap on the number of diffs is reached.\<close>

fun loop_diffs :: "('a \<Rightarrow> diff list \<Rightarrow> fault + diff list) \<Rightarrow> 'a list \<Rightarrow> diff list \<Rightarrow> fault + diff list" where
  "loop_diffs f [] ds = Inr ds"
| "loop_diffs f (x # xs) ds =
     (case f x ds of
        Inl p \<Rightarrow> Inl p
      | Inr ds' \<Rightarrow> if length ds' \<ge> maxDiffsPerSample then Inr ds' else loop_diffs f xs ds')"

lemma loop_diffs_cong [fundef_cong]:
  assumes "xs = ys" and "ds = es" and "\<And>x d. x \<in> set ys \<Longrightarrow> f x d = g x d"
  shows "loop_diffs f xs ds = loop_diffs g ys es"
  using assms(3) unfolding assms(1,2) by (induction ys arbitrary: es) (auto split: sum.splits)

definition diff_nums :: "dmsg \<Rightarrow> dmsg \<Rightarrow> int list" where
  "diff_nums om nm = sort (remdups (dm_Numbers om @ dm_Numbers nm))"

definition map_keys :: "go_env \<Rightarrow> (goval \<times> pvalue) list \<Rightarrow> (goval \<times> pvalue) list \<Rightarrow> (string \<times> goval) list" where
  "map_keys e om nm =
     fold (\<lambda>k m. if map_of m (mapKeyString e k) = None then AList.update (mapKeyString e k) k m else m)
       (map fst nm)
       (fold (\<lambda>k m. AList.update (mapKeyString e k) k m) (map fst om) [])"

definition add_diff :: "string \<Rightarrow> fault + string \<Rightarrow> fault + string \<Rightarrow> diff list \<Rightarrow> fault + diff list" where
  "add_diff path old new diffs =
     (case old of Inl p \<Rightarrow> Inl p
      | Inr os \<Rightarrow> (case new of Inl p \<Rightarrow> Inl p
         | Inr ns \<Rightarrow> Inr (diffs @ [\<lparr>d_Path = path, d_Old = os, d_New = ns\<rparr>])))"

definition map_Get :: "(goval \<times> pvalue) list \<Rightarrow> goval \<Rightarrow> pvalue" where
  "map_Get m k = (case map_of m k of Some v \<Rightarrow> v | None \<Rightarrow> PScalar VInvalid)"

lemma fields_ByNumber_number: "fields_ByNumber md n = Some fd \<Longrightarrow> fd_Number fd = n"
  by (auto simp: fields_ByNumber_def find_Some_iff)

lemma map_Get_size_le: "vsize (map_Get m k) \<le> vsize (PMap m)"
proof (cases "map_of m k")
  case (Some v)
  from map_size [OF Some] Some show ?thesis by (simp add: map_Get_def)
qed (simp add: map_Get_def)

lemma map_Get_size_less: "m \<noteq> [] \<Longrightarrow> vsize (map_Get m k) < vsize (PMap m)"
proof (cases "map_of m k")
  case (Some v)
  from map_size [OF Some] Some show ?thesis by (simp add: map_Get_def)
qed (cases m, simp_all add: map_Get_def)

lemma map_keys_Nil [simp]: "map_keys e [] [] = []"
  by (simp add: map_keys_def)

lemma keys_size:
  assumes "(ks, b) \<in> set (map_keys e om nm)"
  shows "Suc (2 * vsize (map_Get om k) + 2 * vsize (map_Get nm k)) <
    2 * vsize (PMap om) + 2 * vsize (PMap nm)"
proof -
  from assms have "om \<noteq> [] \<or> nm \<noteq> []" by auto
  then show ?thesis
    using map_Get_size_le [of om k] map_Get_size_le [of nm k]
      map_Get_size_less [of om k] map_Get_size_less [of nm k] by linarith
qed

lemma fields_size:
  assumes "n \<in> set (diff_nums om nm)" and "Some ofd = fields_ByNumber omd n"
    and "Some nfd = fields_ByNumber nmd n"
  shows "Suc (2 * vsize (dm_Get OF om ofd) + 2 * vsize (dm_Get NF nm nfd)) < 2 * msize om + 2 * msize nm"
proof -
  from assms(2,3) have nums: "fd_Number ofd = n" "fd_Number nfd = n"
    by (simp_all add: fields_ByNumber_number)
  from assms(1) have "n \<in> set (dm_Numbers om) \<or> n \<in> set (dm_Numbers nm)"
    by (simp add: diff_nums_def)
  then show ?thesis
    using nums Get_size_le [of OF om ofd] Get_size_le [of NF nm nfd]
      Get_size_less [of ofd om OF] Get_size_less [of nfd nm NF] by auto
qed

lemma elems_size:
  "\<not> length ol \<le> i \<Longrightarrow> \<not> length nl \<le> i \<Longrightarrow>
     Suc (2 * vsize (ol ! i) + 2 * vsize (nl ! i)) < 2 * vsize (PList ol) + 2 * vsize (PList nl)"
  using nth_size [of i ol] nth_size [of i nl] by linarith

lemma value_sizes:
  "value_Map v = Inr kvs \<Longrightarrow> vsize v = vsize (PMap kvs)"
  "value_List v = Inr vs \<Longrightarrow> vsize v = vsize (PList vs)"
  "value_Message v = Inr m \<Longrightarrow> vsize v = msize m"
  by (cases v; simp add: value_Map_def value_List_def value_Message_def)+

subsection \<open>The walk over two parses\<close>

function (sequential)
  diffMessages :: "go_env \<Rightarrow> resolver \<Rightarrow> resolver \<Rightarrow> dmsg \<Rightarrow> dmsg \<Rightarrow> string \<Rightarrow> diff list \<Rightarrow> fault + diff list"
and diffValues :: "go_env \<Rightarrow> resolver \<Rightarrow> resolver \<Rightarrow> field_desc \<Rightarrow> field_desc \<Rightarrow> pvalue \<Rightarrow> pvalue \<Rightarrow>
    string \<Rightarrow> diff list \<Rightarrow> fault + diff list"
and diffMaps :: "go_env \<Rightarrow> resolver \<Rightarrow> resolver \<Rightarrow> field_desc \<Rightarrow> field_desc \<Rightarrow> (goval \<times> pvalue) list \<Rightarrow>
    (goval \<times> pvalue) list \<Rightarrow> string \<Rightarrow> diff list \<Rightarrow> fault + diff list"
and diffLists :: "go_env \<Rightarrow> resolver \<Rightarrow> resolver \<Rightarrow> field_desc \<Rightarrow> field_desc \<Rightarrow> pvalue list \<Rightarrow> pvalue list \<Rightarrow>
    string \<Rightarrow> diff list \<Rightarrow> fault + diff list"
where
  "diffMessages e OF NF om nm path diffs =
     (if length diffs \<ge> maxDiffsPerSample then Inr diffs
      else
        (case loop_diffs (\<lambda>n ds.
            (case (fields_ByNumber (dm_Descriptor om) n, fields_ByNumber (dm_Descriptor nm) n) of
               (Some ofd, None) \<Rightarrow>
                 add_diff (joinPath path (fd_Name ofd)) (formatField e ofd (dm_Get OF om ofd))
                   (Inr ''<unknown field in new schema>'') ds
             | (None, Some nfd) \<Rightarrow>
                 add_diff (joinPath path (fd_Name nfd)) (Inr ''<unknown field in old schema>'')
                   (formatField e nfd (dm_Get NF nm nfd)) ds
             | (Some ofd, Some nfd) \<Rightarrow>
                 diffValues e OF NF ofd nfd (dm_Get OF om ofd) (dm_Get NF nm nfd)
                   (joinPath path (fd_Name ofd)) ds
             | (None, None) \<Rightarrow> Inl (Panic ''invalid memory address or nil pointer dereference'')))
            (diff_nums om nm) diffs of
           Inl p \<Rightarrow> Inl p
         | Inr ds \<Rightarrow>
             if length ds \<ge> maxDiffsPerSample then Inr ds
             else if dm_Unknown om \<noteq> dm_Unknown nm then
               add_diff (joinPath path ''~unknown_fields'')
                 (Inr (sprintf e ''%d bytes'' [AInt (int (length (dm_Unknown om)))]))
                 (Inr (sprintf e ''%d bytes'' [AInt (int (length (dm_Unknown nm)))])) ds
             else Inr ds))"
| "diffValues e OF NF ofd nfd ov nv path diffs =
     (if length diffs \<ge> maxDiffsPerSample then Inr diffs
      else if IsMap ofd \<or> IsMap nfd then
        (if \<not> IsMap ofd \<or> \<not> IsMap nfd then
           add_diff path (formatField e ofd ov) (formatField e nfd nv) diffs
         else
           (case value_Map ov of Inl p \<Rightarrow> Inl p
            | Inr om \<Rightarrow> (case value_Map nv of Inl p \<Rightarrow> Inl p
               | Inr nm \<Rightarrow> diffMaps e OF NF ofd nfd om nm path diffs)))
      else if IsList ofd \<or> IsList nfd then
        (if \<not> IsList ofd \<or> \<not> IsList nfd then
           add_diff path (formatField e ofd ov) (formatField e nfd nv) diffs
         else
           (case value_List ov of Inl p \<Rightarrow> Inl p
            | Inr ol \<Rightarrow> (case value_List nv of Inl p \<Rightarrow> Inl p
               | Inr nl \<Rightarrow> diffLists e OF NF ofd nfd ol nl path diffs)))
      else if fd_Kind ofd \<noteq> fd_Kind nfd then
        add_diff path (formatField e ofd ov) (formatField e nfd nv) diffs
      else if fd_Kind ofd = MessageKind \<or> fd_Kind ofd = GroupKind then
        (case value_Message ov of Inl p \<Rightarrow> Inl p
         | Inr om \<Rightarrow> (case value_Message nv of Inl p \<Rightarrow> Inl p
            | Inr nm \<Rightarrow> diffMessages e OF NF om nm path diffs))
      else if fd_Kind ofd = EnumKind then
        (case value_Enum ov of Inl p \<Rightarrow> Inl p
         | Inr on \<Rightarrow> (case value_Enum nv of Inl p \<Rightarrow> Inl p
            | Inr nn \<Rightarrow>
                if on \<noteq> nn then
                  add_diff path (Inr (formatEnum e ofd on)) (Inr (formatEnum e nfd nn)) diffs
                else if enumName e ofd on \<noteq> enumName e nfd nn then
                  add_diff path (Inr (enumName e ofd on)) (Inr (enumName e nfd nn)) diffs
                else Inr diffs))
      else
        (case go_equal (scalar_of ov) (scalar_of nv) of
           Inl p \<Rightarrow> Inl p
         | Inr eq \<Rightarrow> if \<not> eq then add_diff path (formatField e ofd ov) (formatField e nfd nv) diffs
             else Inr diffs))"
| "diffMaps e OF NF ofd nfd om nm path diffs =
     loop_diffs (\<lambda>ks ds.
       let k = the (map_of (map_keys e om nm) ks); p = path @ ''['' @ ks @ '']'' in
       if map_of om k \<noteq> None \<and> map_of nm k = None then
         add_diff p (formatField e (MapValue ofd) (map_Get om k)) (Inr ''<absent>'') ds
       else if map_of om k = None \<and> map_of nm k \<noteq> None then
         add_diff p (Inr ''<absent>'') (formatField e (MapValue nfd) (map_Get nm k)) ds
       else diffValues e OF NF (MapValue ofd) (MapValue nfd) (map_Get om k) (map_Get nm k) p ds)
       (sort (map fst (map_keys e om nm))) diffs"
| "diffLists e OF NF ofd nfd ol nl path diffs =
     loop_diffs (\<lambda>i ds.
       let p = sprintf e ''%s[%d]'' [AStr path, AInt (int i)] in
       if i \<ge> length ol then add_diff p (Inr ''<absent>'') (formatField e nfd (nl ! i)) ds
       else if i \<ge> length nl then add_diff p (formatField e ofd (ol ! i)) (Inr ''<absent>'') ds
       else diffValues e OF NF ofd nfd (ol ! i) (nl ! i) p ds)
       [0..<max (length ol) (length nl)] diffs"
  by pat_completeness auto

termination
proof (relation "measure (\<lambda>x. case x of
    Inl (Inl (e, OF, NF, om, nm, path, diffs)) \<Rightarrow> 2 * (msize om + msize nm)
  | Inl (Inr (e, OF, NF, ofd, nfd, ov, nv, path, diffs)) \<Rightarrow> 2 * (vsize ov + vsize nv) + 1
  | Inr (Inl (e, OF, NF, ofd, nfd, om, nm, path, diffs)) \<Rightarrow> 2 * (vsize (PMap om) + vsize (PMap nm))
  | Inr (Inr (e, OF, NF, ofd, nfd, ol, nl, path, diffs)) \<Rightarrow> 2 * (vsize (PList ol) + vsize (PList nl)))",
  goal_cases)
qed (auto simp del: vsize.simps simp: value_sizes intro: fields_size keys_size elems_size)

declare diffMessages.simps [simp del] diffValues.simps [simp del] diffMaps.simps [simp del]
  diffLists.simps [simp del]

subsection \<open>Verifying one sample\<close>

definition unmarshal :: "codec \<Rightarrow> files \<Rightarrow> message_desc \<Rightarrow> string \<Rightarrow> string \<Rightarrow> string + dmsg" where
  "unmarshal c F md encoding bytes =
     (if encoding = ''json'' then unmarshalJSON c (linked F) md bytes else unmarshalWire c (linked F) md bytes)"

definition canonicalWire :: "codec \<Rightarrow> dmsg \<Rightarrow> string" where
  "canonicalWire c m = (case marshalWire c m of
     Inl err \<Rightarrow> ''<marshal error: '' @ err @ ''>'' | Inr b \<Rightarrow> b)"

definition canonicalJSON :: "codec \<Rightarrow> dmsg \<Rightarrow> string" where
  "canonicalJSON c m = (case marshalJSON c m of
     Inl err \<Rightarrow> ''<marshal error: '' @ err @ ''>'' | Inr b \<Rightarrow> b)"

text \<open>The payload of a sample, or the error text of the switch over its encoding.\<close>

definition sample_payload :: "go_env \<Rightarrow> sample \<Rightarrow> string + string" where
  "sample_payload e s =
     (if s_Encoding s = ''json'' then Inr (s_Data s)
      else if s_Encoding s = ''wire'' then
        (case DecodeString (s_Data s) of
           Inl off \<Rightarrow> Inl (''wire sample is not valid base64: '' @ corrupt_input_error e off)
         | Inr b \<Rightarrow> Inr b)
      else Inl (sprintf e ''unknown encoding %q (want json or wire)'' [AStr (s_Encoding s)]))"

definition verifySample :: "go_env \<Rightarrow> codec \<Rightarrow> files \<Rightarrow> files \<Rightarrow> sample \<Rightarrow> fault + sample_result" where
  "verifySample e c oldFiles newFiles s =
     (let res = \<lparr>sr_Name = s_Name s, sr_Message = s_Message s, sr_Encoding = s_Encoding s,
            sr_Status = '''', sr_WireEqual = False, sr_JSONEqual = False, sr_Diffs = [], sr_Error = ''''\<rparr>;
          fail = (\<lambda>status err. Inr (res\<lparr>sr_Status := status, sr_Error := err\<rparr>)) in
      case findMessage oldFiles (s_Message s) of
        None \<Rightarrow> fail ''ERROR'' (sprintf e ''message %s not found in the old schema'' [AStr (s_Message s)])
      | Some mdOld \<Rightarrow>
      (case findMessage newFiles (s_Message s) of
        None \<Rightarrow> fail ''ERROR'' (sprintf e ''message %s not found in the new schema'' [AStr (s_Message s)])
      | Some mdNew \<Rightarrow>
      (case sample_payload e s of
        Inl err \<Rightarrow> fail ''ERROR'' err
      | Inr bytes \<Rightarrow>
      (case unmarshal c oldFiles mdOld (s_Encoding s) bytes of
        Inl err \<Rightarrow> fail ''ERROR'' (sprintf e ''payload does not parse under the old schema: %v'' [AStr err])
      | Inr mOld \<Rightarrow>
      (case unmarshal c newFiles mdNew (s_Encoding s) bytes of
        Inl err \<Rightarrow> fail ''PARSE_ERROR''
          (sprintf e ''payload parses under the old schema but fails under the new schema: %v'' [AStr err])
      | Inr mNew \<Rightarrow>
          (let wireEq = (canonicalWire c mOld = canonicalWire c mNew);
               jsonEq = (canonicalJSON c mOld = canonicalJSON c mNew);
               res' = res\<lparr>sr_WireEqual := wireEq, sr_JSONEqual := jsonEq\<rparr> in
           if \<not> wireEq \<or> \<not> jsonEq then
             (case diffMessages e (linked oldFiles) (linked newFiles) mOld mNew (s_Message s) [] of
                Inl p \<Rightarrow> Inl p
              | Inr diffs \<Rightarrow> Inr (res'\<lparr>sr_Status := ''MISMATCH'', sr_Diffs := diffs\<rparr>))
           else Inr (res'\<lparr>sr_Status := ''OK''\<rparr>)))))))"

definition VerifySamples :: "go_env \<Rightarrow> codec \<Rightarrow> files \<Rightarrow> files \<Rightarrow> sample list \<Rightarrow> fault + sample_result list" where
  "VerifySamples e c oldFiles newFiles samples = map_run (verifySample e c oldFiles newFiles) samples"

subsection \<open>Findings from samples\<close>

definition dimOf :: "string \<Rightarrow> dimension" where
  "dimOf encoding = (if encoding = ''json'' then DimensionJSON else DimensionWire)"

definition sample_finding :: "sample_result \<Rightarrow> string \<Rightarrow> severity \<Rightarrow> dimension \<Rightarrow> string \<Rightarrow> finding" where
  "sample_finding r code sev dim detail =
     \<lparr>f_Code = code, f_Severity = sev, f_Dimension = dim, f_Message = sr_Message r,
      f_Path = (case sr_Diffs r of [] \<Rightarrow> '''' | d # _ \<Rightarrow> d_Path d), f_Detail = detail\<rparr>"

definition sampleFindings_of :: "go_env \<Rightarrow> sample_result \<Rightarrow> finding list" where
  "sampleFindings_of e r =
     (let label = (if sr_Name r \<noteq> '''' then sr_Name r @ '' ('' @ sr_Message r @ '')'' else sr_Message r) in
      if sr_Status r = ''PARSE_ERROR'' then
        [sample_finding r ''SAMPLE_PARSE_FAILED'' SeverityFail (dimOf (sr_Encoding r))
           (sprintf e ''sample %s: %s'' [AStr label, AStr (sr_Error r)])]
      else if sr_Status r = ''MISMATCH'' then
        (if \<not> sr_WireEqual r then
           [sample_finding r ''SAMPLE_WIRE_MISMATCH'' SeverityFail DimensionWire
              (sprintf e ''sample %s re-serializes to different wire bytes under the new schema'' [AStr label])]
         else []) @
        (if \<not> sr_JSONEqual r then
           [sample_finding r ''SAMPLE_JSON_MISMATCH'' SeverityFail DimensionJSON
              (sprintf e ''sample %s renders differently in JSON under the new schema'' [AStr label])]
         else [])
      else if sr_Status r = ''ERROR'' then
        [sample_finding r ''SAMPLE_UNVERIFIABLE'' SeverityWarn (dimOf (sr_Encoding r))
           (sprintf e ''sample %s could not be verified: %s'' [AStr label, AStr (sr_Error r)])]
      else [])"

definition sampleFindings :: "go_env \<Rightarrow> sample_result list \<Rightarrow> finding list" where
  "sampleFindings e results = concat (map (sampleFindings_of e) results)"

subsection \<open>Diffs are capped and rooted at the message\<close>

definition extends :: "string \<Rightarrow> diff list \<Rightarrow> fault + diff list \<Rightarrow> bool" where
  "extends path ds r \<longleftrightarrow>
     (\<forall>ds'. r = Inr ds' \<longrightarrow>
        (\<exists>new. ds' = ds @ new \<and> (\<forall>d \<in> set new. hasPrefix (d_Path d) path)) \<and>
        (length ds < maxDiffsPerSample \<longrightarrow> length ds' \<le> maxDiffsPerSample))"

lemma extends_Inl [simp]: "extends path ds (Inl p)"
  by (simp add: extends_def)

lemma extends_same [simp]: "extends path ds (Inr ds)"
  by (auto simp: extends_def)

lemma extends_add_diff: "hasPrefix p path \<Longrightarrow> extends path ds (add_diff p os ns ds)"
  by (auto simp: extends_def add_diff_def split: sum.splits)

lemma hasPrefix_trans: "hasPrefix q p \<Longrightarrow> hasPrefix p r \<Longrightarrow> hasPrefix q r"
  by (auto simp: hasPrefix_iff)

lemma extends_weaken: "extends p ds r \<Longrightarrow> hasPrefix p path \<Longrightarrow> extends path ds r"
  unfolding extends_def using hasPrefix_trans by blast

lemma extends_trans:
  assumes "extends path ds (Inr ds')" and "length ds' < maxDiffsPerSample" and "extends path ds' r"
  shows "extends path ds r"
proof -
  obtain new where new: "ds' = ds @ new" "\<forall>d \<in> set new. hasPrefix (d_Path d) path"
    using assms(1) by (auto simp: extends_def)
  show ?thesis
    unfolding extends_def
  proof (intro allI impI)
    fix ds''
    assume "r = Inr ds''"
    with assms(2,3) obtain more where "ds'' = ds' @ more" "\<forall>d \<in> set more. hasPrefix (d_Path d) path"
      and "length ds'' \<le> maxDiffsPerSample" by (auto simp: extends_def)
    with new show "(\<exists>new. ds'' = ds @ new \<and> (\<forall>d \<in> set new. hasPrefix (d_Path d) path)) \<and>
        (length ds < maxDiffsPerSample \<longrightarrow> length ds'' \<le> maxDiffsPerSample)"
      by (auto intro!: exI [of _ "new @ more"])
  qed
qed

lemma extends_if:
  "(b \<Longrightarrow> extends path ds r) \<Longrightarrow> (\<not> b \<Longrightarrow> extends path ds s) \<Longrightarrow> extends path ds (if b then r else s)"
  by simp

lemma extends_bind:
  "(\<And>x. r = Inr x \<Longrightarrow> extends path ds (g x)) \<Longrightarrow>
     extends path ds (case r of Inl p \<Rightarrow> Inl p | Inr x \<Rightarrow> g x)"
  by (cases r) simp_all

lemma extends_loop:
  assumes "\<And>x d. x \<in> set xs \<Longrightarrow> extends path d (f x d)"
  shows "extends path ds (loop_diffs f xs ds)"
  using assms
proof (induction xs arbitrary: ds)
  case (Cons x xs)
  show ?case
  proof (cases "f x ds")
    case (Inr ds')
    have first: "extends path ds (Inr ds')" using Cons.prems [of x ds] Inr by simp
    have rest: "extends path ds' (loop_diffs f xs ds')" using Cons.IH Cons.prems by simp
    show ?thesis
    proof (cases "length ds' \<ge> maxDiffsPerSample")
      case False
      then have "extends path ds (loop_diffs f xs ds')" using extends_trans [OF first _ rest] by simp
      with False Inr show ?thesis by simp
    qed (use Inr first in simp)
  qed simp
qed simp

lemma extends_then:
  assumes "extends path ds r"
    and "\<And>ds'. length ds' < maxDiffsPerSample \<Longrightarrow> extends path ds' (g ds')"
  shows "extends path ds (case r of Inl p \<Rightarrow> Inl p
     | Inr ds' \<Rightarrow> if length ds' \<ge> maxDiffsPerSample then Inr ds' else g ds')"
proof (cases r)
  case (Inr ds')
  show ?thesis
  proof (cases "length ds' \<ge> maxDiffsPerSample")
    case False
    then have "extends path ds (g ds')"
      using extends_trans [of path ds ds' "g ds'"] assms(1) assms(2) [of ds'] Inr by simp
    with False Inr show ?thesis by simp
  qed (use Inr assms in simp)
qed simp

lemma hasPrefix_append [simp]: "hasPrefix (p @ s) p" "hasPrefix p p"
  by (auto simp: hasPrefix_iff)

lemma hasPrefix_joinPath [simp]: "hasPrefix (joinPath path s) path"
  by (simp add: joinPath_def hasPrefix_iff)

lemma index_path: "sprintf e ''%s[%d]'' [AStr path, AInt i] = path @ ''['' @ itoa i @ '']''"
  by (simp add: sprintf.simps)

lemma diff_extends:
  shows "extends path diffs (diffMessages e OF NF om nm path diffs)"
    and "extends path diffs (diffValues e OF NF ofd nfd ov nv path diffs)"
    and "extends path diffs (diffMaps e OF NF ofd nfd mo mn path diffs)"
    and "extends path diffs (diffLists e OF NF ofd nfd ol nl path diffs)"
proof (induction e OF NF om nm path diffs and e OF NF ofd nfd ov nv path diffs
    and e OF NF ofd nfd mo mn path diffs and e OF NF ofd nfd ol nl path diffs
    rule: diffMessages_diffValues_diffMaps_diffLists.induct)
  case (1 e OF NF om nm path diffs)
  show ?case
  proof (cases "length diffs \<ge> maxDiffsPerSample")
    case False
    have "extends path ds (diffValues e OF NF ofd nfd (dm_Get OF om ofd) (dm_Get NF nm nfd)
        (joinPath path (fd_Name ofd)) ds)"
      if "n \<in> set (diff_nums om nm)" "fields_ByNumber (dm_Descriptor om) n = Some ofd"
        "fields_ByNumber (dm_Descriptor nm) n = Some nfd" for n ofd nfd ds
      using 1 [OF False that(1)] that(2,3) by (blast intro: extends_weaken hasPrefix_joinPath)
    with False show ?thesis
      unfolding diffMessages.simps
      by (auto intro!: extends_then extends_loop extends_add_diff split: option.splits)
  qed (simp add: diffMessages.simps)
next
  case (2 e OF NF ofd nfd ov nv path diffs)
  show ?case
    unfolding diffValues.simps
    by (intro extends_if extends_bind; (rule 2 extends_same extends_add_diff; (assumption | rule hasPrefix_append)))
next
  case (3 e OF NF ofd nfd om nm path diffs)
  show ?case
    unfolding diffMaps.simps Let_def
  proof (intro extends_loop extends_if)
    fix ks d
    let ?k = "the (map_of (map_keys e om nm) ks)"
    assume "ks \<in> set (sort (map fst (map_keys e om nm)))"
      and "\<not> (map_of om ?k \<noteq> None \<and> map_of nm ?k = None)"
      and "\<not> (map_of om ?k = None \<and> map_of nm ?k \<noteq> None)"
    from 3 [OF this(1) refl refl this(2,3), of d]
    show "extends path d (diffValues e OF NF (MapValue ofd) (MapValue nfd) (map_Get om ?k)
        (map_Get nm ?k) (path @ ''['' @ ks @ '']'') d)"
      by (rule extends_weaken) simp
  qed (simp_all add: extends_add_diff)
next
  case (4 e OF NF ofd nfd ol nl path diffs)
  have "extends path ds (diffValues e OF NF ofd nfd (ol ! i) (nl ! i) (path @ ''['' @ itoa (int i) @ '']'') ds)"
    if "i < max (length ol) (length nl)" "\<not> length ol \<le> i" "\<not> length nl \<le> i" for i ds
    using 4 [of i, OF _ refl that(2,3), of ds] that(1)
    unfolding index_path by (auto intro: extends_weaken)
  then show ?case
    unfolding diffLists.simps Let_def index_path
    by (intro extends_loop) (auto intro: extends_add_diff)
qed

subsection \<open>What a sample proves\<close>

text \<open>The two parses of a sample that exists under both schemas.\<close>

definition sample_parses :: "go_env \<Rightarrow> codec \<Rightarrow> files \<Rightarrow> files \<Rightarrow> sample \<Rightarrow> dmsg \<Rightarrow> (string + dmsg) \<Rightarrow> bool" where
  "sample_parses e c OF NF s mo rn \<longleftrightarrow>
     (\<exists>mdo mdn bytes. findMessage OF (s_Message s) = Some mdo \<and> findMessage NF (s_Message s) = Some mdn \<and>
        sample_payload e s = Inr bytes \<and> unmarshal c OF mdo (s_Encoding s) bytes = Inr mo \<and>
        unmarshal c NF mdn (s_Encoding s) bytes = rn)"

definition same_rendering :: "codec \<Rightarrow> dmsg \<Rightarrow> dmsg \<Rightarrow> bool" where
  "same_rendering c mo mn \<longleftrightarrow>
     canonicalWire c mo = canonicalWire c mn \<and> canonicalJSON c mo = canonicalJSON c mn"

definition sample_ok :: "go_env \<Rightarrow> codec \<Rightarrow> files \<Rightarrow> files \<Rightarrow> sample \<Rightarrow> bool" where
  "sample_ok e c OF NF s \<longleftrightarrow>
     (\<exists>mo mn. sample_parses e c OF NF s mo (Inr mn) \<and> same_rendering c mo mn)"

definition sample_breaks :: "go_env \<Rightarrow> codec \<Rightarrow> files \<Rightarrow> files \<Rightarrow> sample \<Rightarrow> bool" where
  "sample_breaks e c OF NF s \<longleftrightarrow>
     (\<exists>mo rn. sample_parses e c OF NF s mo rn \<and>
        (case rn of Inl err \<Rightarrow> True | Inr mn \<Rightarrow> \<not> same_rendering c mo mn))"

lemma verifySample_cases:
  assumes "verifySample e c OF NF s = Inr r"
  obtains (err) "sr_Status r = ''ERROR''" "\<nexists>mo rn. sample_parses e c OF NF s mo rn" "sr_Diffs r = []"
  | (parse) mo err where "sr_Status r = ''PARSE_ERROR''" "sample_parses e c OF NF s mo (Inl err)" "sr_Diffs r = []"
  | (mismatch) mo mn where "sr_Status r = ''MISMATCH''" "sample_parses e c OF NF s mo (Inr mn)"
      "sr_WireEqual r = (canonicalWire c mo = canonicalWire c mn)"
      "sr_JSONEqual r = (canonicalJSON c mo = canonicalJSON c mn)" "\<not> same_rendering c mo mn"
      "diffMessages e (linked OF) (linked NF) mo mn (s_Message s) [] = Inr (sr_Diffs r)"
  | (ok) mo mn where "sr_Status r = ''OK''" "sample_parses e c OF NF s mo (Inr mn)" "same_rendering c mo mn"
      "sr_Diffs r = []"
proof -
  note run = assms [unfolded verifySample_def Let_def]
  show thesis
  proof (cases "findMessage OF (s_Message s) = None \<or> findMessage NF (s_Message s) = None \<or>
      isl (sample_payload e s)")
    case True
    with run show thesis
      by (intro err) (auto simp: sample_parses_def split: option.splits sum.splits)
  next
    case False
    then obtain mdo mdn bytes where found: "findMessage OF (s_Message s) = Some mdo"
      "findMessage NF (s_Message s) = Some mdn" "sample_payload e s = Inr bytes"
      by (cases "sample_payload e s") auto
    show thesis
    proof (cases "unmarshal c OF mdo (s_Encoding s) bytes")
      case (Inl e1)
      with run found show thesis by (intro err) (auto simp: sample_parses_def)
    next
      case mo: (Inr mo)
      show thesis
      proof (cases "unmarshal c NF mdn (s_Encoding s) bytes")
        case (Inl e2)
        with run found mo show thesis by (intro parse [of mo e2]) (auto simp: sample_parses_def)
      next
        case mn: (Inr mn)
        with found mo have parses: "sample_parses e c OF NF s mo (Inr mn)" by (simp add: sample_parses_def)
        show thesis
        proof (cases "same_rendering c mo mn")
          case True
          with run found mo mn show thesis
            by (intro ok [OF _ parses]) (auto simp: same_rendering_def)
        next
          case False
          with run found mo mn show thesis
            by (intro mismatch [OF _ parses]) (auto simp: same_rendering_def split: sum.splits if_splits)
        qed
      qed
    qed
  qed
qed

lemma parses_functional:
  "sample_parses e c OF NF s mo rn \<Longrightarrow> sample_parses e c OF NF s mo' rn' \<Longrightarrow> mo' = mo \<and> rn' = rn"
  by (auto simp: sample_parses_def)

lemma sample_finding_sel [simp]:
  "f_Severity (sample_finding r code sev dim d) = sev" "f_Message (sample_finding r code sev dim d) = sr_Message r"
  by (simp_all add: sample_finding_def)

lemma sampleFindings_judged:
  assumes "verifySample e c OF NF s = Inr r"
  shows "all_info (sampleFindings_of e r) \<longleftrightarrow> sample_ok e c OF NF s"
    and "no_fail (sampleFindings_of e r) \<longleftrightarrow> \<not> sample_breaks e c OF NF s"
  using assms
  by (cases rule: verifySample_cases;
      auto simp: sampleFindings_of_def Let_def sample_ok_def sample_breaks_def same_rendering_def
        dest: parses_functional split: sum.splits)+

lemma map_run_Inr_iff: "map_run f xs = Inr ys \<longleftrightarrow> list_all2 (\<lambda>x y. f x = Inr y) xs ys"
proof (induction xs arbitrary: ys)
  case (Cons x xs)
  show ?case
    by (cases "f x"; cases "map_run f xs") (auto simp: list_all2_Cons1 simp flip: Cons.IH)
qed auto

lemma VerifySamples_judged:
  assumes "VerifySamples e c OF NF ss = Inr rs"
  shows "all_info (sampleFindings e rs) \<longleftrightarrow> (\<forall>s \<in> set ss. sample_ok e c OF NF s)"
    and "no_fail (sampleFindings e rs) \<longleftrightarrow> \<not> (\<exists>s \<in> set ss. sample_breaks e c OF NF s)"
proof -
  from assms have "list_all2 (\<lambda>s r. verifySample e c OF NF s = Inr r) ss rs"
    by (simp add: VerifySamples_def map_run_Inr_iff)
  then have "(all_info (sampleFindings e rs) \<longleftrightarrow> (\<forall>s \<in> set ss. sample_ok e c OF NF s)) \<and>
      (no_fail (sampleFindings e rs) \<longleftrightarrow> \<not> (\<exists>s \<in> set ss. sample_breaks e c OF NF s))"
    by (induction rule: list_all2_induct) (auto simp: sampleFindings_def sampleFindings_judged)
  then show "all_info (sampleFindings e rs) \<longleftrightarrow> (\<forall>s \<in> set ss. sample_ok e c OF NF s)"
    and "no_fail (sampleFindings e rs) \<longleftrightarrow> \<not> (\<exists>s \<in> set ss. sample_breaks e c OF NF s)"
    by simp_all
qed

subsection \<open>Independence of the iteration order\<close>

text \<open>Samples are verified without ranging over a map in a way that shows: only the library matters.\<close>

lemma show_goval_cong: "same_lib e e' \<Longrightarrow> show_goval e = show_goval e'"
proof
  fix v assume "same_lib e e'" then show "show_goval e v = show_goval e' v"
    by (cases v) (simp_all add: same_lib_def)
qed

lemma format_cong:
  assumes "same_lib e e'"
  shows "formatField e = formatField e'" "formatEnum e = formatEnum e'" "enumName e = enumName e'"
    "map_keys e = map_keys e'"
  unfolding fun_eq_iff formatField_def formatEnum_def enumName_def map_keys_def mapKeyString_def
  by (simp_all only: formatValue_cong [OF assms] sprintf_cong [OF assms] show_goval_cong [OF assms] simp_thms)

lemma diff_cong:
  assumes "same_lib e e'"
  shows "diffMessages e OF NF om nm path diffs = diffMessages e' OF NF om nm path diffs"
    and "diffValues e OF NF ofd nfd ov nv path diffs = diffValues e' OF NF ofd nfd ov nv path diffs"
    and "diffMaps e OF NF ofd nfd mo mn path diffs = diffMaps e' OF NF ofd nfd mo mn path diffs"
    and "diffLists e OF NF ofd nfd ol nl path diffs = diffLists e' OF NF ofd nfd ol nl path diffs"
  using assms
proof (induction e OF NF om nm path diffs and e OF NF ofd nfd ov nv path diffs
    and e OF NF ofd nfd mo mn path diffs and e OF NF ofd nfd ol nl path diffs
    rule: diffMessages_diffValues_diffMaps_diffLists.induct)
  case (1 e OF NF om nm path diffs)
  note lib = "1.prems"
  show ?case
    unfolding diffMessages.simps format_cong [OF lib] sprintf_cong [OF lib]
    by (intro if_cong refl arg_cong [where f = "case_sum _ _"] loop_diffs_cong)
      (auto intro: "1.IH" [OF _ _ _ _ _ lib] split: option.splits)
next
  case (2 e OF NF ofd nfd ov nv path diffs)
  note lib = "2.prems"
  show ?case
    unfolding diffValues.simps format_cong [OF lib]
    by (intro if_cong refl sum.case_cong; (rule "2.IH"; (assumption | rule lib)))
next
  case (3 e OF NF ofd nfd om nm path diffs)
  note lib = "3.prems"
  show ?case
    unfolding diffMaps.simps Let_def format_cong [OF lib]
    using "3.IH" [OF _ refl refl _ _ lib] by (intro loop_diffs_cong if_cong refl) (simp_all add: format_cong [OF lib])
next
  case (4 e OF NF ofd nfd ol nl path diffs)
  note lib = "4.prems"
  show ?case
    unfolding diffLists.simps Let_def format_cong [OF lib] sprintf_cong [OF lib]
    using "4.IH" [OF _ refl _ _ lib] by (intro loop_diffs_cong if_cong refl) (simp_all add: sprintf_cong [OF lib])
qed

lemma verifySample_cong: "same_lib e e' \<Longrightarrow> verifySample e = verifySample e'"
  unfolding fun_eq_iff verifySample_def sample_payload_def corrupt_input_error_def
  by (simp only: sprintf_cong diff_cong(1) simp_thms)

lemma VerifySamples_cong: "same_lib e e' \<Longrightarrow> VerifySamples e = VerifySamples e'"
  unfolding fun_eq_iff VerifySamples_def by (simp only: verifySample_cong simp_thms)

lemma sampleFindings_cong: "same_lib e e' \<Longrightarrow> sampleFindings e = sampleFindings e'"
  unfolding fun_eq_iff sampleFindings_def sampleFindings_of_def [abs_def] by (simp only: sprintf_cong simp_thms)

lemma verifySample_reordered:
  assumes "reordered F F'" and "reordered G G'"
  shows "verifySample e c F G s = verifySample e c F' G' s"
proof -
  from assms have "linked F = linked F'" "linked G = linked G'"
    by (simp_all add: reordered_def linked_def [abs_def])
  then have "unmarshal c F md enc b = unmarshal c F' md enc b"
    "unmarshal c G md enc b = unmarshal c G' md enc b" for md enc b
    by (simp_all add: unmarshal_def)
  with \<open>linked F = linked F'\<close> \<open>linked G = linked G'\<close> show ?thesis
    by (simp only: verifySample_def findMessage_cong [OF assms(1)] findMessage_cong [OF assms(2)])
qed

lemma VerifySamples_reordered:
  assumes "reordered F F'" and "reordered G G'"
  shows "VerifySamples e c F G ss = VerifySamples e c F' G' ss"
  unfolding VerifySamples_def by (intro arg_cong [where f = "\<lambda>f. map_run f ss"] ext verifySample_reordered assms)

subsection \<open>Properties\<close>

text \<open>
  What submitted samples prove. If verification ends, the findings of the samples are all
  harmless exactly when every sample is found and parses under both schemas and both parses
  render to the same wire bytes and the same JSON; they include a FAIL exactly when some sample
  parses under the old schema and then fails to parse, or renders differently, under the new
  one. A sample that could not be verified is never a pass.
\<close>
theorem samples_verdict:
  assumes "VerifySamples e c OF NF ss = Inr rs"
  shows "(verdictOf (sampleFindings e rs) = VerdictCompatible \<longleftrightarrow> (\<forall>s \<in> set ss. sample_ok e c OF NF s)) \<and>
    (verdictOf (sampleFindings e rs) = VerdictIncompatible \<longleftrightarrow> (\<exists>s \<in> set ss. sample_breaks e c OF NF s))"
  using VerifySamples_judged [OF assms] by (simp add: verdictOf_compatible verdictOf_incompatible)

text \<open>A codec for concrete runs: it parses every payload to one message per schema.\<close>

definition fixed_codec :: "(message_desc \<Rightarrow> dmsg) \<Rightarrow> codec" where
  "fixed_codec parse = \<lparr>unmarshalJSON = (\<lambda>F md s. if s = ''bad'' then Inl ''syntax error'' else Inr (parse md)),
     unmarshalWire = (\<lambda>F md s. Inr (parse md)),
     marshalWire = (\<lambda>m. Inr (concat (map (\<lambda>p. itoa (fd_Number (fst p))) (dm_Fields m)))),
     marshalJSON = (\<lambda>m. Inr (concat (map (\<lambda>p. fd_JSONName (fst p) @ kind_String (fd_Kind (fst p))) (dm_Fields m))))\<rparr>"

definition counter :: "kind \<Rightarrow> message_desc" where
  "counter k = msg ''p.C'' [plain_field ''name'' 1 StringKind, plain_field ''count'' 2 k] [] []"

definition counter_files :: "kind \<Rightarrow> files" where
  "counter_files k = mk_files [pay_file ''m.proto'' [counter k]]"

definition hits :: "message_desc \<Rightarrow> dmsg" where
  "hits md = DMsg md (map (\<lambda>f. (f, PScalar (if fd_Kind f = StringKind then VString ''hits''
     else if fd_Kind f = Int32Kind then VInt32 5 else VInt64 5))) (md_Fields md)) []"

definition json_sample :: sample where
  "json_sample = \<lparr>s_Name = ''s'', s_Message = ''p.C'', s_Encoding = ''json'', s_Data = ''{}''\<rparr>"

lemma counter_run:
  "VerifySamples plain_env (fixed_codec hits) (counter_files Int32Kind) (counter_files Int64Kind) [json_sample] =
     Inr [\<lparr>sr_Name = ''s'', sr_Message = ''p.C'', sr_Encoding = ''json'', sr_Status = ''MISMATCH'',
        sr_WireEqual = True, sr_JSONEqual = False,
        sr_Diffs = [\<lparr>d_Path = ''p.C.count'', d_Old = ''5'', d_New = ''5''\<rparr>], sr_Error = ''''\<rparr>]"
  by code_simp

theorem samples_verdict_witness:
  "sample_breaks plain_env (fixed_codec hits) (counter_files Int32Kind) (counter_files Int64Kind) json_sample"
proof -
  have "verdictOf (sampleFindings plain_env
      [\<lparr>sr_Name = ''s'', sr_Message = ''p.C'', sr_Encoding = ''json'', sr_Status = ''MISMATCH'',
        sr_WireEqual = True, sr_JSONEqual = False,
        sr_Diffs = [\<lparr>d_Path = ''p.C.count'', d_Old = ''5'', d_New = ''5''\<rparr>], sr_Error = ''''\<rparr>]) =
      VerdictIncompatible"
    by code_simp
  with samples_verdict [OF counter_run] show ?thesis by simp
qed

text \<open>
  C30. The diffs of a mismatching sample: at most 32 are recorded, and the path of each starts
  with the name of the sample's message. Every other outcome records none.
\<close>
theorem sample_diffs_capped_and_rooted:
  assumes "VerifySamples e c OF NF ss = Inr rs"
  shows "list_all2 (\<lambda>s r. length (sr_Diffs r) \<le> maxDiffsPerSample \<and>
     (\<forall>d \<in> set (sr_Diffs r). hasPrefix (d_Path d) (s_Message s)) \<and>
     (sr_Diffs r \<noteq> [] \<longrightarrow> sr_Status r = ''MISMATCH'')) ss rs"
proof -
  have "length (sr_Diffs r) \<le> maxDiffsPerSample \<and> (\<forall>d \<in> set (sr_Diffs r). hasPrefix (d_Path d) (s_Message s)) \<and>
      (sr_Diffs r \<noteq> [] \<longrightarrow> sr_Status r = ''MISMATCH'')"
    if "verifySample e c OF NF s = Inr r" for s r
    using that
  proof (cases rule: verifySample_cases)
    case (mismatch mo mn)
    then show ?thesis
      using diff_extends(1) [of "s_Message s" "[]" e "linked OF" "linked NF" mo mn]
      by (simp add: extends_def maxDiffsPerSample_def)
  qed simp_all
  with assms show ?thesis
    unfolding VerifySamples_def map_run_Inr_iff by (rule list_all2_mono) blast
qed

theorem sample_diffs_capped_and_rooted_witness:
  "list_all2 (\<lambda>s r. length (sr_Diffs r) \<le> maxDiffsPerSample \<and>
     (\<forall>d \<in> set (sr_Diffs r). hasPrefix (d_Path d) (s_Message s)) \<and>
     (sr_Diffs r \<noteq> [] \<longrightarrow> sr_Status r = ''MISMATCH'')) [json_sample]
     (projr (VerifySamples plain_env (fixed_codec hits) (counter_files Int32Kind) (counter_files Int64Kind)
        [json_sample]))"
  using sample_diffs_capped_and_rooted [OF counter_run] counter_run by simp

subsection \<open>Repeated and bytes fields\<close>

lemma IsList_not_map: "IsList fd \<Longrightarrow> \<not> IsMap fd"
  by (simp add: IsList_def)

lemma formatField_element:
  "IsList fd \<Longrightarrow> isl (value_List v) \<Longrightarrow> \<exists>p. formatField e fd v = Inl p"
  by (auto simp: formatField_def IsList_not_map isl_def)

lemma diffLists_panics:
  assumes "IsList ofd" and "IsList nfd" and "length diffs < maxDiffsPerSample"
    and "ol \<noteq> [] \<or> nl \<noteq> []" and "\<forall>v \<in> set ol \<union> set nl. isl (value_List v)"
  shows "\<exists>p. diffLists e OF NF ofd nfd ol nl path diffs = Inl p"
proof -
  have upt: "[0..<max (length ol) (length nl)] = 0 # [1..<max (length ol) (length nl)]"
    using assms(4) by (simp add: upt_conv_Cons less_max_iff_disj)
  have elem: "\<exists>p. diffValues e OF NF ofd nfd u v q diffs = Inl p" if "isl (value_List u)" for u v q
    using that assms(1-3) by (auto simp: diffValues.simps IsList_not_map isl_def)
  have fmt: "\<exists>p. formatField e fd v = Inl p" if "v \<in> set ol \<union> set nl" "IsList fd" for fd v
    using formatField_element [OF that(2)] assms(5) that(1) by blast
  have "ol ! 0 \<in> set ol" if "ol \<noteq> []" using that by (cases ol) simp_all
  moreover have "nl ! 0 \<in> set nl" if "nl \<noteq> []" using that by (cases nl) simp_all
  ultimately consider "ol = []" "\<exists>p. formatField e nfd (nl ! 0) = Inl p"
    | "ol \<noteq> []" "nl = []" "\<exists>p. formatField e ofd (ol ! 0) = Inl p"
    | "ol \<noteq> []" "nl \<noteq> []" "isl (value_List (ol ! 0))"
    using fmt [of "ol ! 0" ofd] fmt [of "nl ! 0" nfd] assms by blast
  then show ?thesis
    unfolding diffLists.simps upt
    using elem [of "ol ! 0" "nl ! 0" "sprintf e ''%s[%d]'' [AStr path, AInt 0]"]
    by cases (auto simp: add_diff_def Let_def)
qed


definition tags_field :: field_desc where
  "tags_field = (plain_field ''tags'' 3 StringKind)\<lparr>fd_Cardinality := Repeated\<rparr>"

definition tagged :: "kind \<Rightarrow> message_desc" where
  "tagged k = msg ''p.C'' [plain_field ''count'' 2 k, tags_field] [] []"

definition tagged_value :: "message_desc \<Rightarrow> dmsg" where
  "tagged_value md = DMsg md (map (\<lambda>f. (f, if fd_Number f = 3 then PList [PScalar (VString ''a'')]
     else if fd_Kind f = Int32Kind then PScalar (VInt32 5) else PScalar (VInt64 5))) (md_Fields md)) []"



text \<open>
  Wire samples reach the parser unchanged: whatever bytes a client encodes with the standard
  base64 encoding, the payload of the sample is those bytes.
\<close>
theorem wire_sample_payload_roundtrip:
  "sample_payload e (s\<lparr>s_Encoding := ''wire'', s_Data := EncodeToString bs\<rparr>) = Inr bs"
  by (simp add: sample_payload_def base64_roundtrip)

end
