(* ===== verification/Check.thy ===== *)
theory Check
  imports Sample
begin

text \<open>
  \<open>Check\<close> of \<open>internal/compat/check.go\<close>, the entry of the judgement core: the walk over the two
  closures, then the samples if there are any, then the verdict over all findings.
\<close>

record input =
  in_Old :: files
  in_New :: files
  in_OwnedPaths :: "string list"
  in_Samples :: "sample list"

definition Check :: "go_env \<Rightarrow> codec \<Rightarrow> input \<Rightarrow> fault + report" where
  "Check e c inp =
     (case compareFiles e (in_OwnedPaths inp) (in_Old inp) (in_New inp) of
        Inl p \<Rightarrow> Inl p
      | Inr findings \<Rightarrow>
          if in_Samples inp \<noteq> [] then
            (case VerifySamples e c (in_Old inp) (in_New inp) (in_Samples inp) of
               Inl p \<Rightarrow> Inl p
             | Inr samples \<Rightarrow>
                 (let findings = findings @ sampleFindings e samples in
                  Inr \<lparr>rep_Verdict = verdictOf findings, rep_Findings = findings, rep_Samples = samples\<rparr>))
          else Inr \<lparr>rep_Verdict = verdictOf findings, rep_Findings = findings, rep_Samples = []\<rparr>)"

lemma Check_Inr:
  assumes "Check e c inp = Inr rep"
  obtains fs rs where "compareFiles e (in_OwnedPaths inp) (in_Old inp) (in_New inp) = Inr fs"
    "VerifySamples e c (in_Old inp) (in_New inp) (in_Samples inp) = Inr rs"
    "rep = \<lparr>rep_Verdict = verdictOf (fs @ sampleFindings e rs), rep_Findings = fs @ sampleFindings e rs,
       rep_Samples = rs\<rparr>"
  using assms
  by (auto simp: Check_def Let_def VerifySamples_def sampleFindings_def split: sum.splits if_splits)

lemma Check_total:
  "(\<exists>rep. Check e c inp = Inr rep) \<longleftrightarrow>
     run_ok (compareFiles e (in_OwnedPaths inp) (in_Old inp) (in_New inp)) \<and>
     (\<exists>rs. VerifySamples e c (in_Old inp) (in_New inp) (in_Samples inp) = Inr rs)"
  by (auto simp: Check_def VerifySamples_def run_ok_def Let_def split: sum.splits)

lemma Check_judged:
  assumes "fair_env e" and "Check e c inp = Inr rep"
  shows "(rep_Verdict rep = VerdictCompatible \<longleftrightarrow>
      closure_safe (in_OwnedPaths inp) (in_Old inp) (in_New inp) \<and>
      (\<forall>s \<in> set (in_Samples inp). sample_ok e c (in_Old inp) (in_New inp) s)) \<and>
    (rep_Verdict rep = VerdictIncompatible \<longleftrightarrow>
      closure_broken (in_OwnedPaths inp) (in_Old inp) (in_New inp) \<or>
      (\<exists>s \<in> set (in_Samples inp). sample_breaks e c (in_Old inp) (in_New inp) s)) \<and>
    rep_Verdict rep = verdictOf (rep_Findings rep)"
  using assms(2)
proof (rule Check_Inr)
  fix fs rs
  assume walk: "compareFiles e (in_OwnedPaths inp) (in_Old inp) (in_New inp) = Inr fs"
    and samples: "VerifySamples e c (in_Old inp) (in_New inp) (in_Samples inp) = Inr rs"
    and rep: "rep = \<lparr>rep_Verdict = verdictOf (fs @ sampleFindings e rs),
       rep_Findings = fs @ sampleFindings e rs, rep_Samples = rs\<rparr>"
  have "run_ok (compareFiles e (in_OwnedPaths inp) (in_Old inp) (in_New inp))"
    and "out (compareFiles e (in_OwnedPaths inp) (in_Old inp) (in_New inp)) = fs"
    using walk by simp_all
  with compareFiles_judged [OF assms(1), of "in_OwnedPaths inp" "in_Old inp" "in_New inp"]
    VerifySamples_judged [OF samples]
  show ?thesis by (simp add: rep verdictOf_compatible verdictOf_incompatible)
qed

text \<open>
  C1. The verdict of a check that ends: it is COMPATIBLE exactly when every owned declaration has
  a safe counterpart in the new closure and every sample is proved to render identically;
  INCOMPATIBLE exactly when a field or an enum value is lost or broken, or a sample proves a
  break; otherwise NEEDS\_REVIEW. It always is the verdict of the reported findings.
\<close>
theorem Check_verdict:
  assumes "fair_env e" and "Check e c inp = Inr rep"
  shows "(rep_Verdict rep = VerdictCompatible \<longleftrightarrow>
      closure_safe (in_OwnedPaths inp) (in_Old inp) (in_New inp) \<and>
      (\<forall>s \<in> set (in_Samples inp). sample_ok e c (in_Old inp) (in_New inp) s)) \<and>
    (rep_Verdict rep = VerdictIncompatible \<longleftrightarrow>
      closure_broken (in_OwnedPaths inp) (in_Old inp) (in_New inp) \<or>
      (\<exists>s \<in> set (in_Samples inp). sample_breaks e c (in_Old inp) (in_New inp) s)) \<and>
    rep_Verdict rep = verdictOf (rep_Findings rep)"
  by (rule Check_judged [OF assms])

definition counter_input :: input where
  "counter_input = \<lparr>in_Old = counter_files Int32Kind, in_New = counter_files Int32Kind, in_OwnedPaths = [],
     in_Samples = [json_sample]\<rparr>"

theorem Check_verdict_witness:
  "closure_safe [] (counter_files Int32Kind) (counter_files Int32Kind) \<and>
   sample_ok plain_env (fixed_codec hits) (counter_files Int32Kind) (counter_files Int32Kind) json_sample"
proof -
  have run: "Check plain_env (fixed_codec hits) counter_input =
      Inr (projr (Check plain_env (fixed_codec hits) counter_input))"
    by code_simp
  have "rep_Verdict (projr (Check plain_env (fixed_codec hits) counter_input)) = VerdictCompatible"
    by code_simp
  with Check_verdict [OF fair_plain_env run]
  have "closure_safe (in_OwnedPaths counter_input) (in_Old counter_input) (in_New counter_input) \<and>
      (\<forall>s \<in> set (in_Samples counter_input).
         sample_ok plain_env (fixed_codec hits) (in_Old counter_input) (in_New counter_input) s)"
    by blast
  then show ?thesis by (simp add: counter_input_def)
qed



subsection \<open>The shape of a report\<close>

definition result_wf :: "sample_result \<Rightarrow> bool" where
  "result_wf r \<longleftrightarrow>
     (if sr_Status r = ''OK'' then sr_WireEqual r \<and> sr_JSONEqual r \<and> sr_Diffs r = [] \<and> sr_Error r = ''''
      else if sr_Status r = ''MISMATCH'' then
        \<not> (sr_WireEqual r \<and> sr_JSONEqual r) \<and> length (sr_Diffs r) \<le> maxDiffsPerSample \<and> sr_Error r = ''''
      else sr_Status r \<in> {''PARSE_ERROR'', ''ERROR''} \<and> \<not> sr_WireEqual r \<and> \<not> sr_JSONEqual r \<and>
        sr_Diffs r = [] \<and> sr_Error r \<noteq> '''')"

definition report_wf :: "report \<Rightarrow> bool" where
  "report_wf rep \<longleftrightarrow> rep_Verdict rep = verdictOf (rep_Findings rep) \<and>
     (\<forall>r \<in> set (rep_Samples rep). result_wf r \<and>
        (if sr_Status r = ''OK'' then True
         else \<exists>f \<in> set (rep_Findings rep). f_Message f = sr_Message r \<and> f_Severity f \<noteq> SeverityInfo))"

lemma sprintf_literal: "c \<noteq> CHR ''%'' \<Longrightarrow> sprintf e (c # cs) args \<noteq> []"
  by (cases "(e, c # cs, args)" rule: sprintf.cases) (simp_all add: sprintf.simps)

lemma verifySample_wf:
  assumes "verifySample e c OF NF s = Inr r"
  shows "sr_Name r = s_Name s \<and> sr_Message r = s_Message s \<and> sr_Encoding r = s_Encoding s \<and> result_wf r"
proof -
  have payload: "sample_payload e s = Inl err \<Longrightarrow> err \<noteq> ''''" for err
    by (auto simp: sample_payload_def sprintf_literal split: if_splits sum.splits)
  have diffs: "length ds \<le> maxDiffsPerSample"
    if "diffMessages e (linked OF) (linked NF) mo mn (s_Message s) [] = Inr ds" for mo mn ds
    using diff_extends(1) [of "s_Message s" "[]" e "linked OF" "linked NF" mo mn] that
    by (simp add: extends_def maxDiffsPerSample_def)
  note run = assms [unfolded verifySample_def Let_def]
  show ?thesis
  proof (cases "findMessage OF (s_Message s)")
    case None
    with run show ?thesis by (auto simp: sprintf_literal result_wf_def)
  next
    case mdo: (Some mdo)
    show ?thesis
    proof (cases "findMessage NF (s_Message s)")
      case None
      with mdo run show ?thesis by (auto simp: sprintf_literal result_wf_def)
    next
      case mdn: (Some mdn)
      show ?thesis
      proof (cases "sample_payload e s")
        case (Inl err)
        with mdo mdn run payload show ?thesis by (auto simp: result_wf_def)
      next
        case bytes: (Inr bytes)
        show ?thesis
        proof (cases "unmarshal c OF mdo (s_Encoding s) bytes")
          case (Inl err)
          with mdo mdn bytes run show ?thesis by (auto simp: sprintf_literal result_wf_def)
        next
          case mo: (Inr mo)
          show ?thesis
          proof (cases "unmarshal c NF mdn (s_Encoding s) bytes")
            case (Inl err)
            with mdo mdn bytes mo run show ?thesis by (auto simp: sprintf_literal result_wf_def)
          next
            case (Inr mn)
            with mdo mdn bytes mo run diffs show ?thesis
              by (auto simp: result_wf_def split: sum.splits if_splits)
          qed
        qed
      qed
    qed
  qed
qed

lemma sampleFindings_told:
  assumes "result_wf r" and "sr_Status r \<noteq> ''OK''"
  shows "\<exists>f \<in> set (sampleFindings_of e r). f_Message f = sr_Message r \<and> f_Severity f \<noteq> SeverityInfo"
proof -
  from assms consider "sr_Status r = ''MISMATCH''" "\<not> (sr_WireEqual r \<and> sr_JSONEqual r)"
    | "sr_Status r = ''PARSE_ERROR''" | "sr_Status r = ''ERROR''"
    by (auto simp: result_wf_def split: if_splits)
  then show ?thesis by cases (auto simp: sampleFindings_of_def Let_def)
qed

text \<open>
  C9. Every report of a check is well formed, as \<open>types.go\<close> describes it: the verdict is that of the
  findings; there is one sample result per sample, in order, with the sample's name, message and
  encoding; its status is one of the four documented ones, OK exactly with both comparisons equal,
  MISMATCH with at least one unequal and at most 32 diffs, and the two error statuses with a
  text and nothing else; and every result that is not OK is backed by a WARN or FAIL finding.
\<close>
theorem Check_report_wf:
  assumes "Check e c inp = Inr rep"
  shows "report_wf rep \<and>
    list_all2 (\<lambda>s r. sr_Name r = s_Name s \<and> sr_Message r = s_Message s \<and> sr_Encoding r = s_Encoding s)
      (in_Samples inp) (rep_Samples rep)"
  using assms
proof (rule Check_Inr)
  fix fs rs
  assume samples: "VerifySamples e c (in_Old inp) (in_New inp) (in_Samples inp) = Inr rs"
    and rep: "rep = \<lparr>rep_Verdict = verdictOf (fs @ sampleFindings e rs),
       rep_Findings = fs @ sampleFindings e rs, rep_Samples = rs\<rparr>"
  have all: "list_all2 (\<lambda>s r. verifySample e c (in_Old inp) (in_New inp) s = Inr r) (in_Samples inp) rs"
    using samples by (simp add: VerifySamples_def map_run_Inr_iff)
  then have "\<forall>r \<in> set rs. result_wf r"
    by (induction rule: list_all2_induct) (auto dest: verifySample_wf)
  moreover from this have "sr_Status r \<noteq> ''OK'' \<Longrightarrow> r \<in> set rs \<Longrightarrow>
      \<exists>f \<in> set (sampleFindings e rs). f_Message f = sr_Message r \<and> f_Severity f \<noteq> SeverityInfo" for r
    using sampleFindings_told [of r e] by (auto simp: sampleFindings_def)
  ultimately have "report_wf rep" by (auto simp: report_wf_def rep)
  moreover have "list_all2 (\<lambda>s r. sr_Name r = s_Name s \<and> sr_Message r = s_Message s \<and> sr_Encoding r = s_Encoding s)
      (in_Samples inp) rs"
    using all by (rule list_all2_mono) (auto dest: verifySample_wf)
  ultimately show ?thesis by (simp add: rep)
qed

theorem Check_report_wf_witness:
  "\<exists>rep. Check plain_env (fixed_codec hits) counter_input = Inr rep \<and> report_wf rep"
proof -
  have "(case Check plain_env (fixed_codec hits) counter_input of Inr _ \<Rightarrow> True | Inl _ \<Rightarrow> False)" by code_simp
  then obtain rep where rep: "Check plain_env (fixed_codec hits) counter_input = Inr rep" by (auto split: sum.splits)
  from Check_report_wf [OF rep] rep show ?thesis by blast
qed


end
