(* ===== verification/Store.thy ===== *)
theory Store
  imports Check
begin

text \<open>
  The records and the interface of \<open>internal/registry/store.go\<close>. \<open>store_ops\<close> is the Go interface
  \<open>Store\<close>: one field per method, over a state of any type; a method returns the new state where
  it writes. \<open>spec\<close> is what a store promises, a map from package and version to the registered
  version, a map of consumer declarations and the log of reports; the locale \<open>registry_store\<close>
  states that promise, and the two stores of the program interpret it. Times are natural
  numbers, readings of a clock that never goes back.
\<close>

subsection \<open>Records\<close>

record version =
  v_Package :: string
  v_Version :: string
  v_ContentHash :: string
  v_DescriptorSet :: string
  v_OwnedPaths :: "string list"
  v_CreatedAt :: nat

record usage =
  u_Message :: string
  u_Fields :: "string list"

record consumer_decl =
  cd_Package :: string
  cd_Consumer :: string
  cd_Encoding :: string
  cd_Usages :: "usage list"
  cd_UpdatedAt :: nat

text \<open>The report is a pointer in Go: \<open>None\<close> is nil.\<close>

record stored_report =
  st_Package :: string
  st_BaseVersion :: string
  st_HeadVersion :: string
  st_Report :: "report option"
  st_CreatedAt :: nat

datatype store_error = ErrVersionConflict | ErrNotFound | StoreFailure string

fun store_Error :: "store_error \<Rightarrow> string" where
  "store_Error ErrVersionConflict = ''version already exists with different content''"
| "store_Error ErrNotFound = ''not found''"
| "store_Error (StoreFailure text) = text"

record 's store_ops =
  PutVersion :: "'s \<Rightarrow> version \<Rightarrow> 's \<times> (store_error + bool)"
  GetVersion :: "'s \<Rightarrow> string \<Rightarrow> string \<Rightarrow> store_error + version"
  LatestVersion :: "'s \<Rightarrow> string \<Rightarrow> store_error + version"
  ListVersions :: "'s \<Rightarrow> string \<Rightarrow> store_error + version list"
  PutReport :: "'s \<Rightarrow> stored_report \<Rightarrow> fault + 's \<times> store_error option"
  UpsertConsumer :: "'s \<Rightarrow> consumer_decl \<Rightarrow> 's \<times> store_error option"
  GetConsumer :: "'s \<Rightarrow> string \<Rightarrow> string \<Rightarrow> store_error + consumer_decl"

subsection \<open>What a store promises\<close>

record spec =
  sp_Versions :: "string \<times> string \<rightharpoonup> version"
  sp_Consumers :: "string \<times> string \<rightharpoonup> consumer_decl"
  sp_Reports :: "stored_report list"

definition version_key :: "version \<Rightarrow> string \<times> string" where
  "version_key v = (v_Package v, v_Version v)"

definition spec_PutVersion :: "nat \<Rightarrow> version \<Rightarrow> spec \<Rightarrow> spec \<times> (store_error + bool)" where
  "spec_PutVersion now v sp =
     (case sp_Versions sp (version_key v) of
        Some old \<Rightarrow> (sp, if v_ContentHash old = v_ContentHash v then Inr False else Inl ErrVersionConflict)
      | None \<Rightarrow> (sp\<lparr>sp_Versions := (sp_Versions sp)(version_key v \<mapsto> v\<lparr>v_CreatedAt := now\<rparr>)\<rparr>, Inr True))"

definition spec_lookup :: "('k \<rightharpoonup> 'v) \<Rightarrow> 'k \<Rightarrow> store_error + 'v" where
  "spec_lookup m k = (case m k of None \<Rightarrow> Inl ErrNotFound | Some v \<Rightarrow> Inr v)"

definition versions_of :: "spec \<Rightarrow> string \<Rightarrow> version set" where
  "versions_of sp pkg = {v. \<exists>ver. sp_Versions sp (pkg, ver) = Some v}"

definition spec_UpsertConsumer :: "nat \<Rightarrow> consumer_decl \<Rightarrow> spec \<Rightarrow> spec" where
  "spec_UpsertConsumer now d sp =
     sp\<lparr>sp_Consumers := (sp_Consumers sp)((cd_Package d, cd_Consumer d) \<mapsto> d\<lparr>cd_UpdatedAt := now\<rparr>)\<rparr>"

definition spec_PutReport :: "nat \<Rightarrow> stored_report \<Rightarrow> spec \<Rightarrow> spec" where
  "spec_PutReport now rep sp = sp\<lparr>sp_Reports := sp_Reports sp @ [rep\<lparr>st_CreatedAt := now\<rparr>]\<rparr>"

text \<open>
  What listing shows of a version; the descriptor set need not be loaded.
\<close>

definition version_meta :: "version \<Rightarrow> string \<times> string \<times> string \<times> nat" where
  "version_meta v = (v_Package v, v_Version v, v_ContentHash v, v_CreatedAt v)"

definition valid_encoding :: "string \<Rightarrow> bool" where
  "valid_encoding enc \<longleftrightarrow> enc \<in> {''wire'', ''json'', ''both''}"

lemma spec_PutVersion_get:
  assumes "spec_PutVersion now v sp = (sp', Inr b)"
  shows "\<exists>w. sp_Versions sp' (version_key v) = Some w \<and> v_ContentHash w = v_ContentHash v"
  using assms by (auto simp: spec_PutVersion_def split: option.splits if_splits)

lemma spec_PutVersion_keeps:
  "sp_Versions sp k = Some w \<Longrightarrow> sp_Versions (fst (spec_PutVersion now v sp)) k = Some w"
  by (auto simp: spec_PutVersion_def split: option.splits)

locale registry_store =
  fixes ops :: "'s store_ops"
    and inv :: "'s \<Rightarrow> bool"
    and abs :: "'s \<Rightarrow> spec"
    and now :: "'s \<Rightarrow> nat"
    and up :: "'s \<Rightarrow> bool"
  assumes put_up: "inv s \<Longrightarrow> up s \<Longrightarrow> PutVersion ops s v = (s', r) \<Longrightarrow>
        inv s' \<and> up s' \<and> (abs s', r) = spec_PutVersion (now s) v (abs s)"
    and put_down: "inv s \<Longrightarrow> \<not> up s \<Longrightarrow> PutVersion ops s v = (s', r) \<Longrightarrow>
        inv s' \<and> abs s' = abs s \<and> (\<exists>m. r = Inl (StoreFailure m))"
    and get_up: "inv s \<Longrightarrow> up s \<Longrightarrow> GetVersion ops s p n = spec_lookup (sp_Versions (abs s)) (p, n)"
    and get_down: "inv s \<Longrightarrow> \<not> up s \<Longrightarrow> \<exists>m. GetVersion ops s p n = Inl (StoreFailure m)"
    and latest_up: "inv s \<Longrightarrow> up s \<Longrightarrow>
        (case LatestVersion ops s p of
           Inl e \<Rightarrow> e = ErrNotFound \<and> versions_of (abs s) p = {}
         | Inr v \<Rightarrow> v \<in> versions_of (abs s) p \<and>
             (\<forall>w \<in> versions_of (abs s) p. v_CreatedAt w \<le> v_CreatedAt v))"
    and latest_down: "inv s \<Longrightarrow> \<not> up s \<Longrightarrow> \<exists>m. LatestVersion ops s p = Inl (StoreFailure m)"
    and list_up: "inv s \<Longrightarrow> up s \<Longrightarrow>
        \<exists>vs. ListVersions ops s p = Inr vs \<and> distinct (map v_Version vs) \<and> sorted (map v_CreatedAt vs) \<and>
          version_meta ` set vs = version_meta ` versions_of (abs s) p"
    and report_up: "inv s \<Longrightarrow> up s \<Longrightarrow> st_Report rep \<noteq> None \<Longrightarrow>
        \<exists>s'. PutReport ops s rep = Inr (s', None) \<and> inv s' \<and> up s' \<and>
          abs s' = spec_PutReport (now s) rep (abs s)"
    and report_down: "inv s \<Longrightarrow> \<not> up s \<Longrightarrow> PutReport ops s rep = Inr (s', er) \<Longrightarrow>
        inv s' \<and> abs s' = abs s \<and> er \<noteq> None"
    and report_frame: "inv s \<Longrightarrow> PutReport ops s rep = Inr (s', er) \<Longrightarrow>
        inv s' \<and> sp_Versions (abs s') = sp_Versions (abs s) \<and> sp_Consumers (abs s') = sp_Consumers (abs s)"
    and upsert_up: "inv s \<Longrightarrow> up s \<Longrightarrow> valid_encoding (cd_Encoding d) \<Longrightarrow>
        \<exists>s'. UpsertConsumer ops s d = (s', None) \<and> inv s' \<and> up s' \<and>
          abs s' = spec_UpsertConsumer (now s) d (abs s)"
    and upsert_frame: "inv s \<Longrightarrow> UpsertConsumer ops s d = (s', er) \<Longrightarrow>
        inv s' \<and> sp_Versions (abs s') = sp_Versions (abs s) \<and> sp_Reports (abs s') = sp_Reports (abs s) \<and>
        (er \<noteq> None \<longrightarrow> abs s' = abs s)"
    and getc_up: "inv s \<Longrightarrow> up s \<Longrightarrow> GetConsumer ops s p n = spec_lookup (sp_Consumers (abs s)) (p, n)"
begin

lemma put_frame:
  assumes "inv s" and "PutVersion ops s v = (s', r)"
  shows "inv s'" and "sp_Versions (abs s) \<subseteq>\<^sub>m sp_Versions (abs s')" and "sp_Consumers (abs s') = sp_Consumers (abs s)"
    and "\<forall>b. r \<noteq> Inr True \<longrightarrow> abs s' = abs s"
proof -
  have "inv s' \<and> (abs s' = abs s \<and> r \<noteq> Inr True \<or> (abs s', r) = spec_PutVersion (now s) v (abs s))"
    using put_up [OF assms(1) _ assms(2)] put_down [OF assms(1) _ assms(2)] by (cases "up s") auto
  then show "inv s'" "sp_Versions (abs s) \<subseteq>\<^sub>m sp_Versions (abs s')"
    "sp_Consumers (abs s') = sp_Consumers (abs s)" "\<forall>b. r \<noteq> Inr True \<longrightarrow> abs s' = abs s"
    by (auto simp: spec_PutVersion_def map_le_def split: option.splits if_splits)
qed

lemma get_after_put:
  assumes "inv s" and "PutVersion ops s v = (s', Inr b)"
  shows "\<exists>w. GetVersion ops s' (v_Package v) (v_Version v) = Inr w \<and> v_ContentHash w = v_ContentHash v \<and>
    (b \<longrightarrow> w = v\<lparr>v_CreatedAt := now s\<rparr>)"
proof -
  have "up s" using put_down [OF assms(1) _ assms(2)] by blast
  note put = put_up [OF assms(1) this assms(2)]
  then have abs: "abs s' = fst (spec_PutVersion (now s) v (abs s))"
    and r: "snd (spec_PutVersion (now s) v (abs s)) = Inr b"
    by (metis fst_conv, metis snd_conv)
  from r have "\<exists>w. sp_Versions (abs s') (v_Package v, v_Version v) = Some w \<and> v_ContentHash w = v_ContentHash v \<and>
      (b \<longrightarrow> w = v\<lparr>v_CreatedAt := now s\<rparr>)"
    unfolding abs by (auto simp: spec_PutVersion_def version_key_def split: option.splits if_splits)
  with put show ?thesis by (auto simp: get_up spec_lookup_def)
qed

lemma getc_after_upsert:
  assumes "inv s" and "up s" and "valid_encoding (cd_Encoding d)"
  shows "\<exists>s'. UpsertConsumer ops s d = (s', None) \<and>
    GetConsumer ops s' (cd_Package d) (cd_Consumer d) = Inr (d\<lparr>cd_UpdatedAt := now s\<rparr>)"
  using upsert_up [OF assms] by (auto simp: getc_up spec_UpsertConsumer_def spec_lookup_def)

text \<open>With distinct times, the latest version is the one registered last.\<close>

lemma latest_unique:
  assumes "inv s" and "up s" and "v \<in> versions_of (abs s) p"
    and "\<forall>w \<in> versions_of (abs s) p. w \<noteq> v \<longrightarrow> v_CreatedAt w < v_CreatedAt v"
  shows "LatestVersion ops s p = Inr v"
  using latest_up [OF assms(1,2), of p] assms(3,4) by (auto split: sum.splits) (metis leD)

end

end
