(* ===== verification/Impact.thy ===== *)
theory Impact
  imports Store
begin

text \<open>
  The projection of a report onto what a consumer declared to read, from
  \<open>internal/registry/service.go\<close>: \<open>dimensionRelevant\<close>, \<open>usageCovers\<close>, the loop of
  \<open>consumerImpact\<close>, and the small helpers \<open>countSeverity\<close> and \<open>unionStrings\<close>.
\<close>

record consumer_impact =
  ci_Consumer :: string
  ci_Encoding :: string
  ci_Verdict :: verdict
  ci_Findings :: "finding list"

definition dimensionRelevant :: "string \<Rightarrow> dimension \<Rightarrow> bool" where
  "dimensionRelevant encoding dim =
     (if dim = DimensionBoth \<or> encoding = ''both'' then True
      else if encoding = ''wire'' then dim = DimensionWire
      else dim = DimensionJSON)"

fun field_covers :: "string \<Rightarrow> string list \<Rightarrow> bool" where
  "field_covers path [] = False"
| "field_covers path (field # fnames) =
     (if path = field \<or> hasPrefix path (field @ ''.'') \<or> hasPrefix path (field @ ''['') then True
      else field_covers path fnames)"

fun usage_loop :: "usage list \<Rightarrow> finding \<Rightarrow> bool" where
  "usage_loop [] f = False"
| "usage_loop (u # us) f =
     (if u_Message u \<noteq> f_Message f then usage_loop us f
      else if u_Fields u = [] \<or> f_Path f = '''' then True
      else if field_covers (f_Path f) (u_Fields u) then True
      else usage_loop us f)"

definition usageCovers :: "usage list \<Rightarrow> finding \<Rightarrow> bool" where
  "usageCovers usages f =
     (if usages = [] then True
      else if f_Message f = '''' then True
      else usage_loop usages f)"

fun impact_loop :: "string \<Rightarrow> usage list \<Rightarrow> finding list \<Rightarrow> verdict \<times> finding list \<Rightarrow> verdict \<times> finding list" where
  "impact_loop encoding usages [] st = st"
| "impact_loop encoding usages (f # fs) (v, kept) =
     (if \<not> dimensionRelevant encoding (f_Dimension f) then impact_loop encoding usages fs (v, kept)
      else if \<not> usageCovers usages f then impact_loop encoding usages fs (v, kept)
      else impact_loop encoding usages fs
        (case f_Severity f of
           SeverityFail \<Rightarrow> VerdictIncompatible
         | SeverityWarn \<Rightarrow> if v \<noteq> VerdictIncompatible then VerdictNeedsReview else v
         | SeverityInfo \<Rightarrow> v, kept @ [f]))"

definition impact_of :: "consumer_decl \<Rightarrow> string \<Rightarrow> report \<Rightarrow> consumer_impact" where
  "impact_of decl consumer rep =
     (let (v, kept) = impact_loop (cd_Encoding decl) (cd_Usages decl) (rep_Findings rep) (VerdictCompatible, []) in
      \<lparr>ci_Consumer = consumer, ci_Encoding = cd_Encoding decl, ci_Verdict = v, ci_Findings = kept\<rparr>)"

definition countSeverity :: "report \<Rightarrow> severity \<Rightarrow> nat" where
  "countSeverity r sev = fold (\<lambda>f n. if f_Severity f = sev then Suc n else n) (rep_Findings r) 0"

fun union_loop :: "string list \<Rightarrow> string list \<Rightarrow> string list \<Rightarrow> string list" where
  "union_loop [] seen acc = acc"
| "union_loop (s # ss) seen acc =
     (if s \<notin> set seen then union_loop ss (s # seen) (acc @ [s]) else union_loop ss seen acc)"

definition unionStrings :: "string list \<Rightarrow> string list \<Rightarrow> string list" where
  "unionStrings a b = union_loop (a @ b) [] []"

subsection \<open>The projection is a filter\<close>

definition affects :: "string \<Rightarrow> usage list \<Rightarrow> finding \<Rightarrow> bool" where
  "affects encoding usages f \<longleftrightarrow> dimensionRelevant encoding (f_Dimension f) \<and> usageCovers usages f"

definition whole_verdict :: "finding list \<Rightarrow> verdict" where
  "whole_verdict fs = fst (impact_loop ''both'' [] fs (VerdictCompatible, []))"

lemma impact_loop_filter:
  "impact_loop enc us fs (v, kept) = (max v (verdictOf (filter (affects enc us) fs)), kept @ filter (affects enc us) fs)"
proof (induction fs arbitrary: v kept)
  case (Cons f fs)
  have "max (case f_Severity f of SeverityFail \<Rightarrow> VerdictIncompatible
      | SeverityWarn \<Rightarrow> if v \<noteq> VerdictIncompatible then VerdictNeedsReview else v | SeverityInfo \<Rightarrow> v) w =
      max v (max (severity_verdict (f_Severity f)) w)" for w
    by (cases "f_Severity f"; cases v; cases w) (simp_all add: max_def less_eq_verdict_def)
  with Cons show ?case by (simp add: affects_def vo.agg_Cons)
qed (simp add: vo.agg_Nil)

lemma whole_verdict_eq: "whole_verdict fs = verdictOf fs"
proof -
  have "affects ''both'' [] = (\<lambda>_. True)" by (simp add: fun_eq_iff affects_def dimensionRelevant_def usageCovers_def)
  then show ?thesis by (simp add: whole_verdict_def impact_loop_filter)
qed

interpretation whole: verdict_aggregator whole_verdict
  by unfold_locales (simp_all add: whole_verdict_eq vo.agg_Nil vo.agg_Cons)

lemma field_covers_iff:
  "field_covers path fnames \<longleftrightarrow>
     (\<exists>field \<in> set fnames. path = field \<or> hasPrefix path (field @ ''.'') \<or> hasPrefix path (field @ ''[''))"
  by (induction fnames) auto

lemma usage_loop_iff:
  "usage_loop us f \<longleftrightarrow> (\<exists>u \<in> set us. u_Message u = f_Message f \<and>
     (u_Fields u = [] \<or> f_Path f = '''' \<or> field_covers (f_Path f) (u_Fields u)))"
  by (induction us) auto

lemma union_loop_set:
  "set acc \<subseteq> set seen \<Longrightarrow> distinct acc \<Longrightarrow> set seen = set acc \<Longrightarrow>
     set (union_loop ss seen acc) = set acc \<union> set ss \<and> distinct (union_loop ss seen acc)"
proof (induction ss arbitrary: seen acc)
  case (Cons s ss)
  then show ?case by (cases "s \<in> set seen") (auto simp: insert_absorb)
qed simp

lemma unionStrings_set [simp]: "set (unionStrings a b) = set a \<union> set b" "distinct (unionStrings a b)"
  using union_loop_set [of "[]" "[]" "a @ b"] by (simp_all add: unionStrings_def)

lemma countSeverity_eq: "countSeverity r sev = length (filter (\<lambda>f. f_Severity f = sev) (rep_Findings r))"
proof -
  have "fold (\<lambda>f n. if f_Severity f = sev then Suc n else n) fs n =
      n + length (filter (\<lambda>f. f_Severity f = sev) fs)" for fs :: "finding list" and n
    by (induction fs arbitrary: n) auto
  then show ?thesis by (simp add: countSeverity_def)
qed

subsection \<open>Properties\<close>


text \<open>
  A consumer that declared one encoding is not affected by breaks of the other: over wire, a
  report whose only findings above INFO are about JSON is COMPATIBLE, and over JSON a report
  whose only findings above INFO are about the wire is.
\<close>
theorem other_encoding_does_not_matter:
  assumes "cd_Encoding decl = ''wire'' \<and> dim = DimensionJSON \<or> cd_Encoding decl = ''json'' \<and> dim = DimensionWire"
    and "\<forall>f \<in> set (rep_Findings rep). f_Severity f = SeverityInfo \<or> f_Dimension f = dim"
  shows "ci_Verdict (impact_of decl c rep) = VerdictCompatible"
proof -
  have "\<not> dimensionRelevant (cd_Encoding decl) dim"
    using assms(1) by (auto simp: dimensionRelevant_def)
  with assms(2) have "\<forall>f \<in> set (filter (affects (cd_Encoding decl) (cd_Usages decl)) (rep_Findings rep)).
      f_Severity f = SeverityInfo"
    by (auto simp: affects_def)
  then show ?thesis by (simp add: impact_of_def impact_loop_filter vo.agg_compatible)
qed

definition ledger :: consumer_decl where
  "ledger = \<lparr>cd_Package = ''acme.pay'', cd_Consumer = ''ledger'', cd_Encoding = ''wire'',
     cd_Usages = [\<lparr>u_Message = ''p.C'', u_Fields = [''count'']\<rparr>], cd_UpdatedAt = 0\<rparr>"

definition rename_report :: report where
  "rename_report = \<lparr>rep_Verdict = VerdictIncompatible,
     rep_Findings = [add_finding ''FIELD_JSON_NAME_CHANGED'' SeverityFail DimensionJSON ''p.C'' ''count'' ''''],
     rep_Samples = []\<rparr>"

theorem other_encoding_does_not_matter_witness:
  "verdictOf (rep_Findings rename_report) = VerdictIncompatible \<and>
   ci_Verdict (impact_of ledger ''ledger'' rename_report) = VerdictCompatible"
proof
  show "verdictOf (rep_Findings rename_report) = VerdictIncompatible" by code_simp
  show "ci_Verdict (impact_of ledger ''ledger'' rename_report) = VerdictCompatible"
    by (rule other_encoding_does_not_matter [where dim = DimensionJSON]) (simp_all add: ledger_def rename_report_def)
qed

text \<open>
  A break that only a sample proves is hidden from a consumer that declares the very field:
  the path of a sample finding carries the message name (\<open>p.C.count\<close>), while usages list field
  paths (\<open>count\<close>), so \<open>usageCovers\<close> does not match them.
\<close>
theorem sample_break_hidden_from_field_usage:
  "\<exists>rs. VerifySamples plain_env (fixed_codec hits) (counter_files Int32Kind) (counter_files Int64Kind)
      [json_sample] = Inr rs \<and>
    (\<exists>f. sampleFindings plain_env rs = [f] \<and> f_Severity f = SeverityFail \<and> f_Message f = ''p.C'' \<and>
      f_Path f = ''p.C.count'' \<and> \<not> usageCovers [\<lparr>u_Message = ''p.C'', u_Fields = [''count'']\<rparr>] f)"
  unfolding counter_run
  by (simp add: sampleFindings_def sampleFindings_of_def sample_finding_def usageCovers_def hasPrefix_def)

end
