(* ===== verification/Service.thy ===== *)
theory Service
  imports Schema Impact
begin

text \<open>
  The four handlers of \<open>internal/registry/service.go\<close> over any store. A handler takes the state
  of the store and a request and returns the new state and an outcome: a reply, an error with
  its Connect code, or a crash, when the code panics. What the handlers call outside the
  program is the record \<open>world\<close>: the run time, the message codecs, the schema toolchain and the
  formatting of times.
\<close>

datatype code = CodeInvalidArgument | CodeNotFound | CodeAlreadyExists | CodeFailedPrecondition | CodeInternal

datatype 'a outcome = Reply 'a | Refuse code string | Crash fault

record world =
  w_env :: go_env
  w_codec :: codec
  w_tools :: toolchain
  w_formatTime :: "nat \<Rightarrow> string"

record register_request =
  rq_Package :: string
  rq_Version :: string
  rq_Files :: "source_file list"
  rq_BaseVersion :: string
  rq_Samples :: "sample list"
  rq_RequireCompatible :: bool

record register_response =
  rs_Package :: string
  rs_Version :: string
  rs_ContentHash :: string
  rs_AlreadyExisted :: bool
  rs_BaseVersion :: string
  rs_Compatibility :: "report option"

record check_request =
  ck_Package :: string
  ck_BaseVersion :: string
  ck_CandidateVersion :: string
  ck_CandidateFiles :: "source_file list"
  ck_Samples :: "sample list"
  ck_Consumer :: string

record check_response =
  cp_BaseVersion :: string
  cp_HeadVersion :: string
  cp_Report :: "report option"
  cp_ConsumerImpact :: "consumer_impact option"

record declare_request =
  dc_Package :: string
  dc_Consumer :: string
  dc_Encoding :: string
  dc_Usages :: "usage list"

record version_meta_reply =
  vm_Version :: string
  vm_ContentHash :: string
  vm_CreatedAt :: string

record list_response =
  ls_Package :: string
  ls_Versions :: "version_meta_reply list"

definition hex_EncodeToString :: "string \<Rightarrow> string" where
  "hex_EncodeToString bs = concat (map (\<lambda>c. [hex_digit (ord c div 16), hex_digit (ord c mod 16)]) bs)"

subsection \<open>Internals\<close>

text \<open>The base version to compare with; an error is the text of the Go error.\<close>

definition resolveBase :: "'s store_ops \<Rightarrow> world \<Rightarrow> 's \<Rightarrow> string \<Rightarrow> string \<Rightarrow> string \<Rightarrow> string + version option" where
  "resolveBase ops w s pkg newVersion requested =
     (if requested \<noteq> '''' then
        (case GetVersion ops s pkg requested of
           Inl ErrNotFound \<Rightarrow> Inl (sprintf (w_env w) ''base version %s/%s not found'' [AStr pkg, AStr requested])
         | Inl err \<Rightarrow> Inl (store_Error err)
         | Inr base \<Rightarrow> Inr (Some base))
      else
        (case LatestVersion ops s pkg of
           Inl ErrNotFound \<Rightarrow> Inr None
         | Inl err \<Rightarrow> Inl (store_Error err)
         | Inr latest \<Rightarrow> if v_Version latest = newVersion then Inr None else Inr (Some latest)))"

definition checkAgainst :: "world \<Rightarrow> version \<Rightarrow> compiled \<Rightarrow> sample list \<Rightarrow> report outcome" where
  "checkAgainst w base candidate samples =
     (case Load (w_tools w) (v_DescriptorSet base) of
        Inl err \<Rightarrow> Refuse CodeInternal (sprintf (w_env w) ''load base descriptors: %w''
          [AStr (schema_Error (w_env w) err)])
      | Inr oldFiles \<Rightarrow>
          (case Check (w_env w) (w_codec w)
              \<lparr>in_Old = oldFiles, in_New = c_Files candidate,
               in_OwnedPaths = unionStrings (v_OwnedPaths base) (c_OwnedPaths candidate),
               in_Samples = samples\<rparr> of
             Inl p \<Rightarrow> Crash p | Inr rep \<Rightarrow> Reply rep))"

definition checkVersions :: "world \<Rightarrow> version \<Rightarrow> version \<Rightarrow> sample list \<Rightarrow> report outcome" where
  "checkVersions w base head samples =
     (case Load (w_tools w) (v_DescriptorSet base) of
        Inl err \<Rightarrow> Refuse CodeInternal (sprintf (w_env w) ''load base descriptors: %w''
          [AStr (schema_Error (w_env w) err)])
      | Inr oldFiles \<Rightarrow>
          (case Load (w_tools w) (v_DescriptorSet head) of
             Inl err \<Rightarrow> Refuse CodeInternal (sprintf (w_env w) ''load head descriptors: %w''
               [AStr (schema_Error (w_env w) err)])
           | Inr headFiles \<Rightarrow>
               (case Check (w_env w) (w_codec w)
                   \<lparr>in_Old = oldFiles, in_New = headFiles,
                    in_OwnedPaths = unionStrings (v_OwnedPaths base) (v_OwnedPaths head),
                    in_Samples = samples\<rparr> of
                  Inl p \<Rightarrow> Crash p | Inr rep \<Rightarrow> Reply rep)))"

text \<open>The report is a pointer: reading the findings of a nil report panics.\<close>

definition consumerImpact :: "'s store_ops \<Rightarrow> world \<Rightarrow> 's \<Rightarrow> string \<Rightarrow> string \<Rightarrow> report option \<Rightarrow>
    consumer_impact outcome" where
  "consumerImpact ops w s pkg consumer report =
     (case GetConsumer ops s pkg consumer of
        Inl ErrNotFound \<Rightarrow> Refuse CodeNotFound
          (sprintf (w_env w) ''consumer %q has no declaration for package %s'' [AStr consumer, AStr pkg])
      | Inl err \<Rightarrow> Refuse CodeInternal (store_Error err)
      | Inr decl \<Rightarrow>
          (case report of
             None \<Rightarrow> Crash (Panic ''invalid memory address or nil pointer dereference'')
           | Some rep \<Rightarrow> Reply (impact_of decl consumer rep)))"

subsection \<open>RegisterVersion\<close>

text \<open>
  The part after the base has been resolved and compared, in its two calls of the store: the
  version is put, and then the report of a version that is new is logged, whose error is dropped.
\<close>

definition put_version :: "'s store_ops \<Rightarrow> world \<Rightarrow> 's \<Rightarrow> register_request \<Rightarrow> compiled \<Rightarrow> 's \<times> bool outcome" where
  "put_version ops w s r c =
     (case PutVersion ops s \<lparr>v_Package = rq_Package r, v_Version = rq_Version r, v_ContentHash = c_Hash c,
          v_DescriptorSet = c_DescriptorSet c, v_OwnedPaths = c_OwnedPaths c, v_CreatedAt = 0\<rparr> of
        (s', Inl ErrVersionConflict) \<Rightarrow>
          (s', Refuse CodeAlreadyExists
            (sprintf (w_env w) ''version %s of package %s already exists with different content; versions are immutable and cannot be overwritten''
               [AStr (rq_Version r), AStr (rq_Package r)]))
      | (s', Inl err) \<Rightarrow> (s', Refuse CodeInternal (store_Error err))
      | (s', Inr created) \<Rightarrow> (s', Reply created))"

definition log_and_reply :: "'s store_ops \<Rightarrow> 's \<Rightarrow> register_request \<Rightarrow> compiled \<Rightarrow> version option \<Rightarrow>
    report option \<Rightarrow> bool \<Rightarrow> 's \<times> register_response outcome" where
  "log_and_reply ops s r c base report created =
     (case (if report \<noteq> None \<and> created then
              PutReport ops s \<lparr>st_Package = rq_Package r, st_BaseVersion = v_Version (the base),
                st_HeadVersion = rq_Version r, st_Report = report, st_CreatedAt = 0\<rparr>
            else Inr (s, None)) of
        Inl p \<Rightarrow> (s, Crash p)
      | Inr (s', _) \<Rightarrow>
          (s', Reply \<lparr>rs_Package = rq_Package r, rs_Version = rq_Version r,
            rs_ContentHash = hex_EncodeToString (c_Hash c), rs_AlreadyExisted = (\<not> created),
            rs_BaseVersion = (case base of None \<Rightarrow> '''' | Some b \<Rightarrow> v_Version b),
            rs_Compatibility = report\<rparr>))"

definition store_version :: "'s store_ops \<Rightarrow> world \<Rightarrow> 's \<Rightarrow> register_request \<Rightarrow> compiled \<Rightarrow> version option \<Rightarrow>
    report option \<Rightarrow> 's \<times> register_response outcome" where
  "store_version ops w s r c base report =
     (case put_version ops w s r c of
        (s', Crash p) \<Rightarrow> (s', Crash p)
      | (s', Refuse co text) \<Rightarrow> (s', Refuse co text)
      | (s', Reply created) \<Rightarrow> log_and_reply ops s' r c base report created)"

lemmas store_version_defs = store_version_def put_version_def log_and_reply_def

text \<open>
  The part that only reads: up to the decision to store. It makes one call of the store, in
  \<open>resolveBase\<close>; the base and the report it returns are what is stored and answered later.
\<close>

definition resolve_and_check :: "'s store_ops \<Rightarrow> world \<Rightarrow> 's \<Rightarrow> register_request \<Rightarrow>
    (compiled \<times> version option \<times> report option) outcome" where
  "resolve_and_check ops w s r =
     (if rq_Package r = '''' \<or> rq_Version r = '''' \<or> rq_Files r = [] then
        Refuse CodeInvalidArgument ''package, version and files are required''
      else
      (case Compile (w_tools w) (rq_Files r) of
        Inl err \<Rightarrow> Refuse CodeInvalidArgument (schema_Error (w_env w) err)
      | Inr compiled \<Rightarrow>
      (case resolveBase ops w s (rq_Package r) (rq_Version r) (rq_BaseVersion r) of
        Inr (Some base) \<Rightarrow>
          (case checkAgainst w base compiled (rq_Samples r) of
             Crash p \<Rightarrow> Crash p
           | Refuse c text \<Rightarrow> Refuse c text
           | Reply report \<Rightarrow>
               if rq_RequireCompatible r \<and> rep_Verdict report = VerdictIncompatible then
                 Refuse CodeFailedPrecondition
                   (sprintf (w_env w) ''version %s is proven incompatible with %s (%d FAIL findings); registration refused, nothing stored''
                      [AStr (rq_Version r), AStr (v_Version base), AInt (int (countSeverity report SeverityFail))])
               else Reply (compiled, Some base, Some report))
      | _ \<Rightarrow> Reply (compiled, None, None))))"

definition RegisterVersion :: "'s store_ops \<Rightarrow> world \<Rightarrow> 's \<Rightarrow> register_request \<Rightarrow> 's \<times> register_response outcome" where
  "RegisterVersion ops w s r =
     (case resolve_and_check ops w s r of
        Crash p \<Rightarrow> (s, Crash p)
      | Refuse c text \<Rightarrow> (s, Refuse c text)
      | Reply (compiled, base, report) \<Rightarrow> store_version ops w s r compiled base report)"

text \<open>The version that a registration stores.\<close>

definition registered :: "register_request \<Rightarrow> compiled \<Rightarrow> nat \<Rightarrow> version" where
  "registered r c now =
     \<lparr>v_Package = rq_Package r, v_Version = rq_Version r, v_ContentHash = c_Hash c,
      v_DescriptorSet = c_DescriptorSet c, v_OwnedPaths = c_OwnedPaths c, v_CreatedAt = now\<rparr>"

lemma resolve_and_check_reply:
  assumes "resolve_and_check ops w s r = Reply (c, base, rep)"
  shows "Compile (w_tools w) (rq_Files r) = Inr c"
    and "case resolveBase ops w s (rq_Package r) (rq_Version r) (rq_BaseVersion r) of
         Inr (Some b) \<Rightarrow> base = Some b \<and> (\<exists>report. checkAgainst w b c (rq_Samples r) = Reply report \<and> rep = Some report \<and>
           (rq_RequireCompatible r \<longrightarrow> rep_Verdict report \<noteq> VerdictIncompatible))
       | _ \<Rightarrow> base = None \<and> rep = None"
  using assms by (auto simp: resolve_and_check_def split: if_splits sum.splits option.splits outcome.splits)

subsection \<open>CheckCompatibility\<close>

text \<open>
  In the branch for a registered candidate the error of \<open>checkVersions\<close> is assigned to the variable
  declared inside the branch, so it is lost and the report stays nil.
\<close>

definition candidate_report :: "'s store_ops \<Rightarrow> world \<Rightarrow> 's \<Rightarrow> check_request \<Rightarrow> version \<Rightarrow>
    (string \<times> report option) outcome" where
  "candidate_report ops w s r base =
     (if ck_CandidateVersion r \<noteq> '''' then
        (case GetVersion ops s (ck_Package r) (ck_CandidateVersion r) of
           Inl ErrNotFound \<Rightarrow> Refuse CodeNotFound (sprintf (w_env w) ''candidate version %s/%s not found''
             [AStr (ck_Package r), AStr (ck_CandidateVersion r)])
         | Inl err \<Rightarrow> Refuse CodeInternal (store_Error err)
         | Inr head \<Rightarrow>
             (case checkVersions w base head (ck_Samples r) of
                Crash p \<Rightarrow> Crash p
              | Refuse _ _ \<Rightarrow> Reply (v_Version head, None)
              | Reply rep \<Rightarrow> Reply (v_Version head, Some rep)))
      else
        (case Compile (w_tools w) (ck_CandidateFiles r) of
           Inl err \<Rightarrow> Refuse CodeInvalidArgument (schema_Error (w_env w) err)
         | Inr compiled \<Rightarrow>
             (case checkAgainst w base compiled (ck_Samples r) of
                Crash p \<Rightarrow> Crash p
              | Refuse c text \<Rightarrow> Refuse c text
              | Reply rep \<Rightarrow> Reply (''(unregistered candidate)'', Some rep))))"

definition CheckCompatibility :: "'s store_ops \<Rightarrow> world \<Rightarrow> 's \<Rightarrow> check_request \<Rightarrow> 's \<times> check_response outcome" where
  "CheckCompatibility ops w s r =
     (if ck_Package r = '''' \<or> ck_BaseVersion r = '''' then
        (s, Refuse CodeInvalidArgument ''package and base_version are required'')
      else if ck_CandidateVersion r = '''' \<and> ck_CandidateFiles r = [] then
        (s, Refuse CodeInvalidArgument ''candidate_version or candidate_files is required'')
      else
      (case GetVersion ops s (ck_Package r) (ck_BaseVersion r) of
        Inl ErrNotFound \<Rightarrow> (s, Refuse CodeNotFound (sprintf (w_env w) ''base version %s/%s not found''
          [AStr (ck_Package r), AStr (ck_BaseVersion r)]))
      | Inl err \<Rightarrow> (s, Refuse CodeInternal (store_Error err))
      | Inr base \<Rightarrow>
      (case candidate_report ops w s r base of
        Crash p \<Rightarrow> (s, Crash p)
      | Refuse c text \<Rightarrow> (s, Refuse c text)
      | Reply (headVersion, report) \<Rightarrow>
      (case (if ck_CandidateVersion r \<noteq> '''' then
               PutReport ops s \<lparr>st_Package = ck_Package r, st_BaseVersion = v_Version base,
                 st_HeadVersion = headVersion, st_Report = report, st_CreatedAt = 0\<rparr>
             else Inr (s, None)) of
        Inl p \<Rightarrow> (s, Crash p)
      | Inr (s', _) \<Rightarrow>
          (let resp = \<lparr>cp_BaseVersion = v_Version base, cp_HeadVersion = headVersion, cp_Report = report,
                 cp_ConsumerImpact = None\<rparr> in
           if ck_Consumer r \<noteq> '''' then
             (case consumerImpact ops w s' (ck_Package r) (ck_Consumer r) report of
                Crash p \<Rightarrow> (s', Crash p)
              | Refuse c text \<Rightarrow> (s', Refuse c text)
              | Reply impact \<Rightarrow> (s', Reply (resp\<lparr>cp_ConsumerImpact := Some impact\<rparr>)))
           else (s', Reply resp))))))"

subsection \<open>DeclareConsumer and ListVersions\<close>

definition DeclareConsumer :: "'s store_ops \<Rightarrow> world \<Rightarrow> 's \<Rightarrow> declare_request \<Rightarrow> 's \<times> bool outcome" where
  "DeclareConsumer ops w s r =
     (if dc_Package r = '''' \<or> dc_Consumer r = '''' then
        (s, Refuse CodeInvalidArgument ''package and consumer are required'')
      else if dc_Encoding r \<notin> {''wire'', ''json'', ''both''} then
        (s, Refuse CodeInvalidArgument
          (sprintf (w_env w) ''encoding must be wire, json or both, got %q'' [AStr (dc_Encoding r)]))
      else if \<exists>u \<in> set (dc_Usages r). u_Message u = '''' then
        (s, Refuse CodeInvalidArgument ''usage entries require a message name'')
      else
        (case UpsertConsumer ops s \<lparr>cd_Package = dc_Package r, cd_Consumer = dc_Consumer r,
            cd_Encoding = dc_Encoding r, cd_Usages = dc_Usages r, cd_UpdatedAt = 0\<rparr> of
           (s', Some err) \<Rightarrow> (s', Refuse CodeInternal (store_Error err))
         | (s', None) \<Rightarrow> (s', Reply True)))"

definition ListVersions_handler :: "'s store_ops \<Rightarrow> world \<Rightarrow> 's \<Rightarrow> string \<Rightarrow> list_response outcome" where
  "ListVersions_handler ops w s pkg =
     (if pkg = '''' then Refuse CodeInvalidArgument ''package is required''
      else
        (case ListVersions ops s pkg of
           Inl err \<Rightarrow> Refuse CodeInternal (store_Error err)
         | Inr versions \<Rightarrow>
             Reply \<lparr>ls_Package = pkg, ls_Versions = map (\<lambda>v. \<lparr>vm_Version = v_Version v,
               vm_ContentHash = hex_EncodeToString (v_ContentHash v),
               vm_CreatedAt = w_formatTime w (v_CreatedAt v)\<rparr>) versions\<rparr>))"

text \<open>The declaration that a request makes, and what a listing shows of a version.\<close>

definition declared :: "declare_request \<Rightarrow> nat \<Rightarrow> consumer_decl" where
  "declared r now = \<lparr>cd_Package = dc_Package r, cd_Consumer = dc_Consumer r, cd_Encoding = dc_Encoding r,
     cd_Usages = dc_Usages r, cd_UpdatedAt = now\<rparr>"

definition list_entry :: "world \<Rightarrow> version \<Rightarrow> version_meta_reply" where
  "list_entry w v = \<lparr>vm_Version = v_Version v, vm_ContentHash = hex_EncodeToString (v_ContentHash v),
     vm_CreatedAt = w_formatTime w (v_CreatedAt v)\<rparr>"

lemma checkAgainst_judged: "checkAgainst w b c ss = Reply rep \<Longrightarrow> rep_Verdict rep = verdictOf (rep_Findings rep)"
  by (auto simp: checkAgainst_def Check_def Let_def split: sum.splits if_splits)

text \<open>The report that a check of two registered versions stores.\<close>

definition check_log :: "check_request \<Rightarrow> version \<Rightarrow> version \<Rightarrow> report option \<Rightarrow> stored_report" where
  "check_log r base head rep = \<lparr>st_Package = ck_Package r, st_BaseVersion = v_Version base,
     st_HeadVersion = v_Version head, st_Report = rep, st_CreatedAt = 0\<rparr>"

subsection \<open>Steps of a store\<close>

text \<open>
  The atomic steps a store takes, in any order and on behalf of any number of concurrent
  requests; \<open>env\<close> is what happens around it (time passes, the database goes down or comes back).
\<close>

inductive store_step :: "'s store_ops \<Rightarrow> ('s \<Rightarrow> 's \<Rightarrow> bool) \<Rightarrow> 's \<Rightarrow> 's \<Rightarrow> bool" for ops env where
  put: "PutVersion ops s v = (s', res) \<Longrightarrow> store_step ops env s s'"
| report: "PutReport ops s rep = Inr (s', res) \<Longrightarrow> store_step ops env s s'"
| upsert: "UpsertConsumer ops s d = (s', res) \<Longrightarrow> store_step ops env s s'"
| env: "env s s' \<Longrightarrow> store_step ops env s s'"

lemma store_version_steps:
  assumes "store_version ops w s r c base rep = (s', res)"
  shows "(store_step ops env)\<^sup>*\<^sup>* s s'"
proof -
  obtain s1 put where put: "PutVersion ops s \<lparr>v_Package = rq_Package r, v_Version = rq_Version r,
      v_ContentHash = c_Hash c, v_DescriptorSet = c_DescriptorSet c, v_OwnedPaths = c_OwnedPaths c,
      v_CreatedAt = 0\<rparr> = (s1, put)" by force
  then have one: "(store_step ops env)\<^sup>*\<^sup>* s s1" by (blast intro: store_step.put)
  have two: "(store_step ops env)\<^sup>*\<^sup>* s s2" if "PutReport ops s1 q = Inr (s2, e)" for q s2 e
    using one that by (blast intro: store_step.report rtranclp.rtrancl_into_rtrancl)
  show ?thesis
    using assms one two unfolding store_version_defs put
    by (auto split: sum.splits store_error.splits if_splits prod.splits)
qed

lemma RegisterVersion_steps:
  assumes "RegisterVersion ops w s r = (s', res)"
  shows "(store_step ops env)\<^sup>*\<^sup>* s s'"
  using assms store_version_steps [of ops w s r _ _ _ s' res env]
  by (auto simp: RegisterVersion_def split: outcome.splits)

lemma CheckCompatibility_state:
  assumes "CheckCompatibility ops w s r = (s', res)"
  shows "s' = s \<or> (\<exists>rep e. PutReport ops s rep = Inr (s', e))"
  using assms
  by (auto simp: CheckCompatibility_def Let_def
      split: sum.splits option.splits outcome.splits if_splits prod.splits store_error.splits)

lemma CheckCompatibility_steps:
  "CheckCompatibility ops w s r = (s', res) \<Longrightarrow> (store_step ops env)\<^sup>*\<^sup>* s s'"
  by (drule CheckCompatibility_state) (blast intro: store_step.report)

lemma DeclareConsumer_steps:
  "DeclareConsumer ops w s r = (s', res) \<Longrightarrow> (store_step ops env)\<^sup>*\<^sup>* s s'"
  by (auto simp: DeclareConsumer_def split: if_splits prod.splits option.splits dest: store_step.upsert)

subsection \<open>Handlers over any store that keeps its promise\<close>

text \<open>The locale adds the surroundings to the promise of a store; its lemmas are about the handlers.\<close>

locale registry_service = registry_store +
  fixes env :: "'a \<Rightarrow> 'a \<Rightarrow> bool"
  assumes env_keeps: "env s s' \<Longrightarrow> inv s \<Longrightarrow> inv s' \<and> abs s' = abs s"
begin

lemma step_keeps:
  assumes "store_step ops env s s'" and "inv s"
  shows "inv s' \<and> sp_Versions (abs s) \<subseteq>\<^sub>m sp_Versions (abs s')"
  using assms(1)
proof (cases rule: store_step.cases)
  case (put v res)
  then show ?thesis using put_frame [OF assms(2)] by blast
next
  case (report rep res)
  then show ?thesis using report_frame [OF assms(2)] by (metis map_le_refl)
next
  case (upsert d res)
  then show ?thesis using upsert_frame [OF assms(2)] by (metis map_le_refl)
next
  case env
  then show ?thesis using env_keeps [OF _ assms(2)] by (metis map_le_refl)
qed

lemma steps_keep:
  assumes "(store_step ops env)\<^sup>*\<^sup>* s s'" and "inv s"
  shows "inv s' \<and> sp_Versions (abs s) \<subseteq>\<^sub>m sp_Versions (abs s')"
  using assms(1)
proof (induction rule: rtranclp_induct)
  case base
  then show ?case using assms(2) by simp
next
  case (step t u)
  then show ?case using step_keeps map_le_trans by metis
qed

lemma versions_immutable:
  assumes "(store_step ops env)\<^sup>*\<^sup>* s s'" and "inv s" and "GetVersion ops s p n = Inr v" and "up s'"
  shows "GetVersion ops s' p n = Inr v"
proof -
  note keep = steps_keep [OF assms(1,2)]
  have "up s" using get_down [OF assms(2), of p n] assms(3) by auto
  then have "sp_Versions (abs s) (p, n) = Some v"
    using assms(2,3) by (simp add: get_up spec_lookup_def split: option.splits)
  with keep have "sp_Versions (abs s') (p, n) = Some v" by (auto simp: map_le_def dom_def)
  with keep assms(4) show ?thesis by (simp add: get_up spec_lookup_def)
qed

lemma store_version_outcome:
  assumes "inv s" and "store_version ops w s r c base rep = (s', res)"
  shows "case res of
      Reply resp \<Rightarrow> inv s' \<and> up s' \<and>
        (\<exists>v. sp_Versions (abs s') (rq_Package r, rq_Version r) = Some v \<and> v_ContentHash v = c_Hash c \<and>
          rs_AlreadyExisted resp = (sp_Versions (abs s) (rq_Package r, rq_Version r) = Some v) \<and>
          (\<not> rs_AlreadyExisted resp \<longrightarrow> sp_Versions (abs s) (rq_Package r, rq_Version r) = None \<and>
             v = registered r c (now s) \<and>
             sp_Versions (abs s') = (sp_Versions (abs s))((rq_Package r, rq_Version r) \<mapsto> v)) \<and>
          (rs_AlreadyExisted resp \<longrightarrow> abs s' = abs s)) \<and>
        rs_ContentHash resp = hex_EncodeToString (c_Hash c) \<and> rs_Compatibility resp = rep
    | Refuse co text \<Rightarrow> inv s' \<and> abs s' = abs s \<and> (co = CodeAlreadyExists \<longleftrightarrow> up s \<and>
        (\<exists>v. sp_Versions (abs s) (rq_Package r, rq_Version r) = Some v \<and> v_ContentHash v \<noteq> c_Hash c))
    | Crash p \<Rightarrow> False"
proof -
  define v where "v = \<lparr>v_Package = rq_Package r, v_Version = rq_Version r, v_ContentHash = c_Hash c,
    v_DescriptorSet = c_DescriptorSet c, v_OwnedPaths = c_OwnedPaths c, v_CreatedAt = 0\<rparr>"
  obtain s1 put where put: "PutVersion ops s v = (s1, put)" by force
  have key: "version_key v = (rq_Package r, rq_Version r)" by (simp add: v_def version_key_def)
  show ?thesis
  proof (cases "up s")
    case False
    from put_down [OF assms(1) False put] assms(2) put False show ?thesis
      by (auto simp: store_version_defs v_def)
  next
    case True
    note spec = put_up [OF assms(1) True put]
    then have abs1: "abs s1 = fst (spec_PutVersion (now s) v (abs s))"
      and put1: "put = snd (spec_PutVersion (now s) v (abs s))" by (metis fst_conv, metis snd_conv)
    show ?thesis
    proof (cases "sp_Versions (abs s) (rq_Package r, rq_Version r)")
      case (Some old)
      with assms(2) put spec abs1 put1 True key show ?thesis
        by (auto simp: store_version_defs v_def spec_PutVersion_def split: if_splits)
    next
      case None
      have pv: "put = Inr True" and a1: "abs s1 = (abs s)\<lparr>sp_Versions := (sp_Versions (abs s))
          ((rq_Package r, rq_Version r) \<mapsto> v\<lparr>v_CreatedAt := now s\<rparr>)\<rparr>"
        using None abs1 put1 key by (simp_all add: spec_PutVersion_def)
      define q where "q = \<lparr>st_Package = rq_Package r, st_BaseVersion = v_Version (the base),
        st_HeadVersion = rq_Version r, st_Report = rep, st_CreatedAt = 0\<rparr>"
      obtain s2 e where two: "(if rep \<noteq> None then PutReport ops s1 q else Inr (s1, None)) = Inr (s2, e)"
        and s2: "inv s2" "up s2" "sp_Versions (abs s2) = sp_Versions (abs s1)"
        using report_up [of s1 q] spec by (cases "rep = None") (auto simp: q_def spec_PutReport_def)
      have "s' = s2" and "\<exists>resp. res = Reply resp \<and> \<not> rs_AlreadyExisted resp \<and>
          rs_ContentHash resp = hex_EncodeToString (c_Hash c) \<and> rs_Compatibility resp = rep"
        using assms(2) put two unfolding store_version_defs q_def v_def pv by auto
      with s2 a1 None show ?thesis by (auto simp: v_def registered_def)
    qed
  qed
qed

lemma register_cases:
  assumes "RegisterVersion ops w s r = (s', res)"
  obtains (refused) "s' = s" "\<forall>resp. res \<noteq> Reply resp"
  | (stored) c base rep where "Compile (w_tools w) (rq_Files r) = Inr c"
      "store_version ops w s r c base rep = (s', res)"
      "case resolveBase ops w s (rq_Package r) (rq_Version r) (rq_BaseVersion r) of
         Inr (Some b) \<Rightarrow> base = Some b \<and> (\<exists>report. checkAgainst w b c (rq_Samples r) = Reply report \<and> rep = Some report \<and>
           (rq_RequireCompatible r \<longrightarrow> rep_Verdict report \<noteq> VerdictIncompatible))
       | _ \<Rightarrow> base = None \<and> rep = None"
proof (cases "resolve_and_check ops w s r")
  case (Reply d)
  obtain c base rep where d: "d = (c, base, rep)" by (cases d)
  with assms Reply have "store_version ops w s r c base rep = (s', res)" by (simp add: RegisterVersion_def)
  then show thesis using stored resolve_and_check_reply [OF Reply [unfolded d]] by blast
qed (use assms refused in \<open>auto simp: RegisterVersion_def\<close>)

lemma register_refused:
  assumes "inv s" and "RegisterVersion ops w s r = (s', res)" and "\<forall>resp. res \<noteq> Reply resp"
  shows "inv s' \<and> abs s' = abs s"
  using assms(2)
proof (cases rule: register_cases)
  case (stored c base rep)
  from store_version_outcome [OF assms(1) stored(2)] assms(3) show ?thesis
    by (auto split: outcome.splits)
qed (simp add: assms)

lemma register_replied:
  assumes "inv s" and "RegisterVersion ops w s r = (s', Reply resp)"
  obtains c v where "Compile (w_tools w) (rq_Files r) = Inr c" "inv s'" "up s'"
    "sp_Versions (abs s') (rq_Package r, rq_Version r) = Some v" "v_ContentHash v = c_Hash c"
    "rs_ContentHash resp = hex_EncodeToString (c_Hash c)"
    "rs_AlreadyExisted resp = (sp_Versions (abs s) (rq_Package r, rq_Version r) = Some v)"
    "rs_AlreadyExisted resp \<Longrightarrow> abs s' = abs s"
    "\<not> rs_AlreadyExisted resp \<Longrightarrow> sp_Versions (abs s) (rq_Package r, rq_Version r) = None \<and>
       v = registered r c (now s) \<and> sp_Versions (abs s') = (sp_Versions (abs s))((rq_Package r, rq_Version r) \<mapsto> v)"
  using assms(2)
proof (cases rule: register_cases)
  case (stored c base rep)
  from store_version_outcome [OF assms(1) stored(2)] show thesis
    using stored(1) by (auto intro: that)
next
  case refused
  then show thesis by blast
qed

lemma register_conflict:
  assumes "inv s" and "RegisterVersion ops w s r = (s', res)" and "Compile (w_tools w) (rq_Files r) = Inr c"
    and "sp_Versions (abs s) (rq_Package r, rq_Version r) = Some v" and "v_ContentHash v \<noteq> c_Hash c"
  shows "\<forall>resp. res \<noteq> Reply resp"
proof (intro allI notI)
  fix resp
  assume "res = Reply resp"
  with assms(2) have "RegisterVersion ops w s r = (s', Reply resp)" by simp
  from register_replied [OF assms(1) this] assms(3-5) show False by (metis sum.inject(2) option.inject option.distinct(1))
qed

lemma register_required:
  assumes "inv s" and "RegisterVersion ops w s r = (s', Reply resp)" and "rq_RequireCompatible r"
  shows "case resolveBase ops w s (rq_Package r) (rq_Version r) (rq_BaseVersion r) of
      Inr (Some b) \<Rightarrow> \<exists>c rep. Compile (w_tools w) (rq_Files r) = Inr c \<and>
        checkAgainst w b c (rq_Samples r) = Reply rep \<and>
        rs_Compatibility resp = Some rep \<and> rep_Verdict rep \<noteq> VerdictIncompatible
    | _ \<Rightarrow> rs_Compatibility resp = None"
  using assms(2)
proof (cases rule: register_cases)
  case (stored c base rep)
  from store_version_outcome [OF assms(1) stored(2)] have "rs_Compatibility resp = rep" by simp
  with stored(1,3) assms(3) show ?thesis by (auto split: sum.splits option.splits)
qed simp

lemma register_retry:
  assumes "inv s" and "RegisterVersion ops w s r = (s1, Reply resp)" and "RegisterVersion ops w' s1 r = (s2, Reply resp')"
    and "Compile (w_tools w') (rq_Files r) = Compile (w_tools w) (rq_Files r)"
  shows "rs_AlreadyExisted resp' \<and> abs s2 = abs s1 \<and> rs_ContentHash resp' = rs_ContentHash resp"
  using assms(1,2)
proof (rule register_replied)
  fix c v
  assume c: "Compile (w_tools w) (rq_Files r) = Inr c" and inv: "inv s1"
    and v: "sp_Versions (abs s1) (rq_Package r, rq_Version r) = Some v" and h: "v_ContentHash v = c_Hash c"
    and hex: "rs_ContentHash resp = hex_EncodeToString (c_Hash c)"
  show ?thesis
    using inv assms(3)
  proof (rule register_replied)
    fix c' v'
    assume c': "Compile (w_tools w') (rq_Files r) = Inr c'"
      and "rs_ContentHash resp' = hex_EncodeToString (c_Hash c')"
      and "rs_AlreadyExisted resp' \<Longrightarrow> abs s2 = abs s1"
      and "\<not> rs_AlreadyExisted resp' \<Longrightarrow> sp_Versions (abs s1) (rq_Package r, rq_Version r) = None \<and>
        v' = registered r c' (now s1) \<and>
        sp_Versions (abs s2) = (sp_Versions (abs s1))((rq_Package r, rq_Version r) \<mapsto> v')"
    then show ?thesis using v hex assms(4) c by auto
  qed
qed

text \<open>
  A retry right after the registration, with no base requested, finds its own version as the
  latest one, compares nothing and succeeds.
\<close>

lemma register_retry_succeeds:
  assumes "inv s" and "RegisterVersion ops w s r = (s1, Reply resp)" and "\<not> rs_AlreadyExisted resp"
    and "rq_BaseVersion r = ''''"
    and "\<forall>v \<in> versions_of (abs s) (rq_Package r). v_CreatedAt v < now s"
  shows "\<exists>s2 resp'. RegisterVersion ops w s1 r = (s2, Reply resp') \<and> rs_AlreadyExisted resp' \<and> abs s2 = abs s1"
  using assms(1,2)
proof (rule register_replied)
  fix c v
  assume c: "Compile (w_tools w) (rq_Files r) = Inr c" and s1: "inv s1" "up s1"
    and v: "sp_Versions (abs s1) (rq_Package r, rq_Version r) = Some v" and h: "v_ContentHash v = c_Hash c"
    and new: "\<not> rs_AlreadyExisted resp \<Longrightarrow> sp_Versions (abs s) (rq_Package r, rq_Version r) = None \<and>
       v = registered r c (now s) \<and> sp_Versions (abs s1) = (sp_Versions (abs s))((rq_Package r, rq_Version r) \<mapsto> v)"
  note new = new [OF assms(3)]
  have v1: "v_Version v = rq_Version r" "v_CreatedAt v = now s" using new by (simp_all add: registered_def)
  have "LatestVersion ops s1 (rq_Package r) = Inr v"
    by (rule latest_unique [OF s1]) (use v v1 assms(5) new in \<open>auto simp: versions_of_def split: if_splits\<close>)
  then have base: "resolveBase ops w s1 (rq_Package r) (rq_Version r) (rq_BaseVersion r) = Inr None"
    using assms(4) v1 by (simp add: resolveBase_def)
  have "\<not> (rq_Package r = '''' \<or> rq_Version r = '''' \<or> rq_Files r = [])"
    using assms(2) by (auto simp: RegisterVersion_def resolve_and_check_def)
  with c base have reg: "RegisterVersion ops w s1 r = store_version ops w s1 r c None None"
    by (auto simp: RegisterVersion_def resolve_and_check_def)
  obtain s2 res where out: "store_version ops w s1 r c None None = (s2, res)" by force
  obtain put where p: "PutVersion ops s1 (registered r c 0) = (s2, put)" and put: "put = Inr False"
    using put_up [OF s1, of "registered r c 0"] v h out
    by (cases "PutVersion ops s1 (registered r c 0)")
      (auto simp: store_version_defs registered_def spec_PutVersion_def version_key_def)
  then have "\<exists>resp'. res = Reply resp' \<and> rs_AlreadyExisted resp'"
    using out by (auto simp: store_version_defs registered_def)
  moreover have "abs s2 = abs s1"
    using put_up [OF s1 p] put v by (auto simp: spec_PutVersion_def version_key_def registered_def split: if_splits)
  ultimately show ?thesis using reg out by auto
qed

lemma check_frame:
  assumes "inv s" and "CheckCompatibility ops w s r = (s', res)"
  shows "inv s' \<and> sp_Versions (abs s') = sp_Versions (abs s) \<and> sp_Consumers (abs s') = sp_Consumers (abs s)"
  using CheckCompatibility_state [OF assms(2)] report_frame [OF assms(1)] assms(1) by blast

lemma check_reply:
  assumes "inv s" and "up s" and "CheckCompatibility ops w s r = (s', Reply resp)" and "ck_CandidateVersion r \<noteq> ''''"
  obtains base head where "GetVersion ops s (ck_Package r) (ck_BaseVersion r) = Inr base"
    "GetVersion ops s (ck_Package r) (ck_CandidateVersion r) = Inr head"
    "case checkVersions w base head (ck_Samples r) of
       Reply rep \<Rightarrow> cp_Report resp = Some rep \<and> abs s' = spec_PutReport (now s) (check_log r base head (Some rep)) (abs s) \<and>
         (if ck_Consumer r = '''' then cp_ConsumerImpact resp = None
          else \<exists>d. GetConsumer ops s (ck_Package r) (ck_Consumer r) = Inr d \<and>
            cp_ConsumerImpact resp = Some (impact_of d (ck_Consumer r) rep))
     | Refuse c t \<Rightarrow> cp_Report resp = None \<and> (\<exists>er. PutReport ops s (check_log r base head None) = Inr (s', er))
     | Crash p \<Rightarrow> False"
proof -
  from assms(3,4) obtain base head where base: "GetVersion ops s (ck_Package r) (ck_BaseVersion r) = Inr base"
    and head: "GetVersion ops s (ck_Package r) (ck_CandidateVersion r) = Inr head"
    by (auto simp: CheckCompatibility_def candidate_report_def split: sum.splits store_error.splits if_splits outcome.splits)
  show thesis
  proof (rule that [OF base head])
    show "case checkVersions w base head (ck_Samples r) of
       Reply rep \<Rightarrow> cp_Report resp = Some rep \<and> abs s' = spec_PutReport (now s) (check_log r base head (Some rep)) (abs s) \<and>
         (if ck_Consumer r = '''' then cp_ConsumerImpact resp = None
          else \<exists>d. GetConsumer ops s (ck_Package r) (ck_Consumer r) = Inr d \<and>
            cp_ConsumerImpact resp = Some (impact_of d (ck_Consumer r) rep))
     | Refuse c t \<Rightarrow> cp_Report resp = None \<and> (\<exists>er. PutReport ops s (check_log r base head None) = Inr (s', er))
     | Crash p \<Rightarrow> False"
    proof (cases "checkVersions w base head (ck_Samples r)")
      case (Reply rep)
      obtain s1 where put: "PutReport ops s (check_log r base head (Some rep)) = Inr (s1, None)" "inv s1" "up s1"
        "abs s1 = spec_PutReport (now s) (check_log r base head (Some rep)) (abs s)"
        using report_up [OF assms(1,2), of "check_log r base head (Some rep)"] by (auto simp: check_log_def)
      then have "GetConsumer ops s1 p n = GetConsumer ops s p n" for p n
        using assms(1,2) by (simp add: getc_up spec_PutReport_def)
      with put Reply assms(3,4) base head show ?thesis
        by (auto simp: CheckCompatibility_def candidate_report_def consumerImpact_def check_log_def Let_def
            split: if_splits sum.splits outcome.splits store_error.splits)
    next
      case (Refuse c t)
      with assms(3,4) base head show ?thesis
        by (auto simp: CheckCompatibility_def candidate_report_def consumerImpact_def check_log_def Let_def
            split: if_splits sum.splits outcome.splits store_error.splits)
    next
      case (Crash p)
      with assms(3,4) base head show ?thesis
        by (auto simp: CheckCompatibility_def candidate_report_def split: if_splits)
    qed
  qed
qed

lemma declare_outcome:
  assumes "inv s" and "up s" and "DeclareConsumer ops w s r = (s', res)"
  shows "case res of
      Reply b \<Rightarrow> b \<and> GetConsumer ops s' (dc_Package r) (dc_Consumer r) = Inr \<lparr>cd_Package = dc_Package r,
        cd_Consumer = dc_Consumer r, cd_Encoding = dc_Encoding r, cd_Usages = dc_Usages r, cd_UpdatedAt = now s\<rparr>
    | Refuse c t \<Rightarrow> c = CodeInvalidArgument \<and> s' = s
    | Crash p \<Rightarrow> False"
proof -
  let ?d = "\<lparr>cd_Package = dc_Package r, cd_Consumer = dc_Consumer r, cd_Encoding = dc_Encoding r,
    cd_Usages = dc_Usages r, cd_UpdatedAt = 0\<rparr>"
  show ?thesis
  proof (cases "valid_encoding (dc_Encoding r)")
    case True
    from getc_after_upsert [OF assms(1,2), of ?d] True assms(3) show ?thesis
      by (auto simp: DeclareConsumer_def split: if_splits)
  next
    case False
    with assms(3) show ?thesis by (auto simp: DeclareConsumer_def valid_encoding_def split: if_splits)
  qed
qed

end

end
