(* ===== verification/MemStore.thy ===== *)
theory MemStore
  imports Store
begin

text \<open>
  \<open>internal/registry/memstore.go\<close>: the store in memory, two-level Go maps from package to version
  (or consumer) to record. Every method holds the mutex for its whole body, so methods are
  atomic steps. \<open>time.Now\<close> reads the field \<open>ms_clock\<close>, which only \<open>mem_tick\<close> advances, between
  calls and by any amount, zero included.
\<close>

record memstore =
  ms_versions :: "(string \<times> (string \<times> version) list) list"
  ms_reports :: "stored_report list"
  ms_consumers :: "(string \<times> (string \<times> consumer_decl) list) list"
  ms_clock :: nat

definition NewMemStore :: "nat \<Rightarrow> memstore" where
  "NewMemStore now = \<lparr>ms_versions = [], ms_reports = [], ms_consumers = [], ms_clock = now\<rparr>"

definition mem_tick :: "nat \<Rightarrow> memstore \<Rightarrow> memstore" where
  "mem_tick d s = s\<lparr>ms_clock := ms_clock s + d\<rparr>"

text \<open>The inner map of a package, and assignment through it.\<close>

definition inner :: "(string \<times> (string \<times> 'v) list) list \<Rightarrow> string \<Rightarrow> (string \<times> 'v) list" where
  "inner m p = (case map_of m p of Some q \<Rightarrow> q | None \<Rightarrow> [])"

definition put2 :: "string \<Rightarrow> string \<Rightarrow> 'v \<Rightarrow> (string \<times> (string \<times> 'v) list) list \<Rightarrow>
    (string \<times> (string \<times> 'v) list) list" where
  "put2 p n x m = AList.update p (AList.update n x (inner m p)) m"

definition mem_PutVersion :: "memstore \<Rightarrow> version \<Rightarrow> memstore \<times> (store_error + bool)" where
  "mem_PutVersion s v =
     (let pkg = inner (ms_versions s) (v_Package v);
          s' = (if map_of (ms_versions s) (v_Package v) = None
                then s\<lparr>ms_versions := AList.update (v_Package v) pkg (ms_versions s)\<rparr> else s) in
      case map_of pkg (v_Version v) of
        Some existing \<Rightarrow>
          (s', if v_ContentHash existing = v_ContentHash v then Inr False else Inl ErrVersionConflict)
      | None \<Rightarrow>
          (s'\<lparr>ms_versions := put2 (v_Package v) (v_Version v) (v\<lparr>v_CreatedAt := ms_clock s\<rparr>) (ms_versions s')\<rparr>,
           Inr True))"

definition mem_GetVersion :: "memstore \<Rightarrow> string \<Rightarrow> string \<Rightarrow> store_error + version" where
  "mem_GetVersion s pkg ver =
     (case map_of (ms_versions s) pkg of
        None \<Rightarrow> Inl ErrNotFound
      | Some p \<Rightarrow> (case map_of p ver of None \<Rightarrow> Inl ErrNotFound | Some v \<Rightarrow> Inr v))"

fun latest_loop :: "version option \<Rightarrow> version list \<Rightarrow> version option" where
  "latest_loop latest [] = latest"
| "latest_loop latest (v # vs) =
     latest_loop (case latest of None \<Rightarrow> Some v
        | Some l \<Rightarrow> if v_CreatedAt v > v_CreatedAt l then Some v else Some l) vs"

definition mem_LatestVersion :: "go_env \<Rightarrow> memstore \<Rightarrow> string \<Rightarrow> store_error + version" where
  "mem_LatestVersion e s pkg =
     (case map_of (ms_versions s) pkg of
        None \<Rightarrow> Inl ErrNotFound
      | Some p \<Rightarrow>
          (case latest_loop None (map snd (range_map (strOrder e pkg (ms_clock s)) p)) of
             None \<Rightarrow> Inl ErrNotFound | Some v \<Rightarrow> Inr v))"

definition mem_ListVersions :: "go_env \<Rightarrow> memstore \<Rightarrow> string \<Rightarrow> store_error + version list" where
  "mem_ListVersions e s pkg =
     Inr (sort_key v_CreatedAt (map snd (range_map (strOrder e pkg (ms_clock s)) (inner (ms_versions s) pkg))))"

definition mem_PutReport :: "memstore \<Rightarrow> stored_report \<Rightarrow> fault + memstore \<times> store_error option" where
  "mem_PutReport s rep =
     Inr (s\<lparr>ms_reports := ms_reports s @ [rep\<lparr>st_CreatedAt := ms_clock s\<rparr>]\<rparr>, None)"

definition mem_UpsertConsumer :: "memstore \<Rightarrow> consumer_decl \<Rightarrow> memstore \<times> store_error option" where
  "mem_UpsertConsumer s decl =
     (let s' = (if map_of (ms_consumers s) (cd_Package decl) = None
                then s\<lparr>ms_consumers := AList.update (cd_Package decl) [] (ms_consumers s)\<rparr> else s) in
      (s'\<lparr>ms_consumers := put2 (cd_Package decl) (cd_Consumer decl)
            (decl\<lparr>cd_UpdatedAt := ms_clock s\<rparr>) (ms_consumers s')\<rparr>, None))"

definition mem_GetConsumer :: "memstore \<Rightarrow> string \<Rightarrow> string \<Rightarrow> store_error + consumer_decl" where
  "mem_GetConsumer s pkg consumer =
     (case map_of (ms_consumers s) pkg of
        None \<Rightarrow> Inl ErrNotFound
      | Some p \<Rightarrow> (case map_of p consumer of None \<Rightarrow> Inl ErrNotFound | Some d \<Rightarrow> Inr d))"

definition mem_ops :: "go_env \<Rightarrow> memstore store_ops" where
  "mem_ops e = \<lparr>PutVersion = mem_PutVersion, GetVersion = mem_GetVersion,
     LatestVersion = mem_LatestVersion e, ListVersions = mem_ListVersions e, PutReport = mem_PutReport,
     UpsertConsumer = mem_UpsertConsumer, GetConsumer = mem_GetConsumer\<rparr>"

subsection \<open>Two-level maps\<close>

definition lookup2 :: "(string \<times> (string \<times> 'v) list) list \<Rightarrow> string \<times> string \<Rightarrow> 'v option" where
  "lookup2 m k = map_of (inner m (fst k)) (snd k)"

definition maps_ok :: "(string \<times> (string \<times> 'v) list) list \<Rightarrow> bool" where
  "maps_ok m \<longleftrightarrow> (\<forall>p. distinct (map fst (inner m p)))"

lemma inner_update [simp]: "inner (AList.update p q m) r = (if r = p then q else inner m r)"
  by (simp add: inner_def update_conv')

lemma lookup2_put2 [simp]: "lookup2 (put2 p n x m) = (lookup2 m)((p, n) \<mapsto> x)"
  by (auto simp: fun_eq_iff lookup2_def put2_def update_conv')

lemma maps_ok_put2 [simp]: "maps_ok m \<Longrightarrow> maps_ok (put2 p n x m)"
  by (simp add: maps_ok_def put2_def distinct_update)

lemma inner_create: "map_of m p = None \<Longrightarrow> inner (AList.update p [] m) = inner m"
  by (auto simp: fun_eq_iff inner_def update_conv')

lemma lookup2_create: "map_of m p = None \<Longrightarrow> lookup2 (AList.update p [] m) = lookup2 m"
  by (simp add: fun_eq_iff lookup2_def inner_create)

lemma lookup2_case:
  "(case map_of m p of None \<Rightarrow> Inl ErrNotFound
     | Some q \<Rightarrow> (case map_of q n of None \<Rightarrow> Inl ErrNotFound | Some v \<Rightarrow> Inr v)) = spec_lookup (lookup2 m) (p, n)"
  by (simp add: spec_lookup_def lookup2_def inner_def split: option.splits)

subsection \<open>The promise is kept\<close>

definition mem_abs :: "memstore \<Rightarrow> spec" where
  "mem_abs s = \<lparr>sp_Versions = lookup2 (ms_versions s), sp_Consumers = lookup2 (ms_consumers s),
     sp_Reports = ms_reports s\<rparr>"

definition mem_inv :: "memstore \<Rightarrow> bool" where
  "mem_inv s \<longleftrightarrow> maps_ok (ms_versions s) \<and> maps_ok (ms_consumers s) \<and>
     (\<forall>k v. lookup2 (ms_versions s) k = Some v \<longrightarrow> version_key v = k \<and> v_CreatedAt v \<le> ms_clock s)"

lemma mem_PutVersion_spec:
  assumes "mem_inv s" and "mem_PutVersion s v = (s', r)"
  shows "mem_inv s' \<and> (mem_abs s', r) = spec_PutVersion (ms_clock s) v (mem_abs s)"
proof (cases "lookup2 (ms_versions s) (version_key v)")
  case (Some old)
  then have "map_of (inner (ms_versions s) (v_Package v)) (v_Version v) = Some old"
    by (simp add: lookup2_def version_key_def)
  moreover from this have "map_of (ms_versions s) (v_Package v) \<noteq> None"
    by (auto simp: inner_def split: option.splits)
  ultimately show ?thesis
    using assms Some by (auto simp: mem_PutVersion_def spec_PutVersion_def mem_abs_def Let_def)
next
  case None
  then have "map_of (inner (ms_versions s) (v_Package v)) (v_Version v) = None"
    by (simp add: lookup2_def version_key_def)
  moreover have create: "inner (AList.update (v_Package v) (inner m (v_Package v)) m) = inner m" for m :: "(string \<times> (string \<times> version) list) list"
    by (auto simp: fun_eq_iff)
  moreover have "lookup2 (AList.update (v_Package v) (inner m (v_Package v)) m) = lookup2 m"
    "maps_ok (AList.update (v_Package v) (inner m (v_Package v)) m) = maps_ok m"
    for m :: "(string \<times> (string \<times> version) list) list"
    by (simp_all add: fun_eq_iff lookup2_def maps_ok_def create)
  ultimately show ?thesis
    using assms None
    by (auto simp: mem_PutVersion_def spec_PutVersion_def mem_abs_def mem_inv_def version_key_def Let_def
        split: if_splits)
qed

lemma mem_Upsert_spec:
  assumes "mem_inv s" and "mem_UpsertConsumer s d = (s', r)"
  shows "mem_inv s' \<and> r = None \<and> mem_abs s' = spec_UpsertConsumer (ms_clock s) d (mem_abs s)"
proof -
  have "maps_ok (AList.update (cd_Package d) [] m) = maps_ok m" if "map_of m (cd_Package d) = None"
    for m :: "(string \<times> (string \<times> consumer_decl) list) list"
    using inner_create [OF that] by (simp add: maps_ok_def)
  with assms show ?thesis
    by (cases "map_of (ms_consumers s) (cd_Package d)")
      (auto simp: mem_UpsertConsumer_def spec_UpsertConsumer_def mem_abs_def mem_inv_def lookup2_create Let_def)
qed

lemma mem_tick_keeps [simp]: "mem_abs (mem_tick d s) = mem_abs s" "mem_inv s \<Longrightarrow> mem_inv (mem_tick d s)"
  by (auto simp: mem_tick_def mem_abs_def mem_inv_def trans_le_add1)

lemma latest_loop_max:
  "latest_loop l vs = Some v \<Longrightarrow> v \<in> set vs \<union> set_option l \<and>
     (\<forall>w \<in> set vs \<union> set_option l. v_CreatedAt w \<le> v_CreatedAt v)"
proof (induction vs arbitrary: l)
  case (Cons x vs)
  from Cons.IH [OF Cons.prems [unfolded latest_loop.simps]] show ?case
    by (cases l) (fastforce split: if_splits)+
qed simp

lemma latest_loop_None: "latest_loop l vs = None \<longleftrightarrow> l = None \<and> vs = []"
  by (induction vs arbitrary: l) (auto split: option.splits)

lemma mem_versions_of:
  assumes "fair_env e" and "mem_inv s"
  shows "set (map snd (range_map (strOrder e p i) (inner (ms_versions s) p))) = versions_of (mem_abs s) p"
proof -
  from assms(2) have dist: "distinct (map fst (inner (ms_versions s) p))" by (simp add: mem_inv_def maps_ok_def)
  then have "set (range_map (strOrder e p i) (inner (ms_versions s) p)) = set (inner (ms_versions s) p)"
    using assms(1) by (intro set_range_map fair_strOrder)
  moreover have "v \<in> snd ` set (inner (ms_versions s) p) \<longleftrightarrow> (\<exists>n. map_of (inner (ms_versions s) p) n = Some v)" for v
    using dist by (force simp: map_of_eq_Some_iff)
  ultimately show ?thesis by (auto simp: versions_of_def mem_abs_def lookup2_def)
qed

lemma mem_list_distinct:
  assumes "fair_env e" and "mem_inv s"
  shows "distinct (map v_Version (map snd (range_map (strOrder e p i) (inner (ms_versions s) p))))"
proof -
  let ?m = "inner (ms_versions s) p"
  from assms(2) have dist: "distinct (map fst ?m)" by (simp add: mem_inv_def maps_ok_def)
  have "n = v_Version v" if "(n, v) \<in> set ?m" for n v
  proof -
    from that dist have "lookup2 (ms_versions s) (p, n) = Some v" by (simp add: lookup2_def map_of_eq_Some_iff)
    with assms(2) show ?thesis by (auto simp: mem_inv_def version_key_def)
  qed
  moreover have "set (range_map (strOrder e p i) ?m) = set ?m"
    using dist assms(1) by (intro set_range_map fair_strOrder)
  ultimately have "map v_Version (map snd (range_map (strOrder e p i) ?m)) = map fst (range_map (strOrder e p i) ?m)"
    by force
  also have "\<dots> = strOrder e p i (map fst ?m)" by (simp add: range_map_def comp_def)
  finally show ?thesis
    using dist mset_eq_imp_distinct_iff [OF fair_strOrder [OF assms(1), of p i "map fst ?m"]] by simp
qed

lemma mem_latest_spec:
  assumes "fair_env e" and "mem_inv s"
  shows "case mem_LatestVersion e s p of
      Inl err \<Rightarrow> err = ErrNotFound \<and> versions_of (mem_abs s) p = {}
    | Inr v \<Rightarrow> v \<in> versions_of (mem_abs s) p \<and> (\<forall>w \<in> versions_of (mem_abs s) p. v_CreatedAt w \<le> v_CreatedAt v)"
proof (cases "map_of (ms_versions s) p")
  case None
  then have "versions_of (mem_abs s) p = {}" by (auto simp: versions_of_def mem_abs_def lookup2_def inner_def)
  with None show ?thesis by (simp add: mem_LatestVersion_def)
next
  case (Some q)
  then have q: "q = inner (ms_versions s) p" by (simp add: inner_def)
  let ?vs = "map snd (range_map (strOrder e p (ms_clock s)) q)"
  note vs = mem_versions_of [OF assms, of p "ms_clock s", folded q]
  show ?thesis
  proof (cases "latest_loop None ?vs")
    case None
    with Some vs show ?thesis by (simp add: mem_LatestVersion_def latest_loop_None)
  next
    case (Some v)
    from latest_loop_max [OF this, unfolded vs] \<open>map_of (ms_versions s) p = Some q\<close> Some
    show ?thesis by (simp add: mem_LatestVersion_def)
  qed
qed

lemma mem_store:
  assumes "fair_env e"
  shows "registry_store (mem_ops e) mem_inv mem_abs ms_clock (\<lambda>_. True)"
proof (unfold_locales, goal_cases)
  case (1 s v s' r)
  then show ?case using mem_PutVersion_spec by (simp add: mem_ops_def)
next
  case (3 s p n)
  then show ?case by (simp add: mem_ops_def mem_GetVersion_def lookup2_case mem_abs_def)
next
  case (5 s p)
  then show ?case using mem_latest_spec [OF assms, of s p] by (simp add: mem_ops_def)
next
  case (7 s p)
  let ?vs = "map snd (range_map (strOrder e p (ms_clock s)) (inner (ms_versions s) p))"
  have "mset (sort_key v_CreatedAt ?vs) = mset ?vs" by simp
  then have "distinct (map v_Version (sort_key v_CreatedAt ?vs))"
    using mem_list_distinct [OF assms 7(1), of p "ms_clock s"]
    by (metis mset_eq_imp_distinct_iff mset_map)
  with 7 show ?case
    using mem_versions_of [OF assms, of s p "ms_clock s"] by (simp add: mem_ops_def mem_ListVersions_def)
next
  case (8 s rep)
  then show ?case by (auto simp: mem_ops_def mem_PutReport_def mem_inv_def mem_abs_def spec_PutReport_def)
next
  case (10 s rep s' er)
  then show ?case by (auto simp: mem_ops_def mem_PutReport_def mem_inv_def mem_abs_def)
next
  case (11 s d)
  then show ?case
    using mem_Upsert_spec [of s d "fst (mem_UpsertConsumer s d)" "snd (mem_UpsertConsumer s d)"]
    by (auto simp: mem_ops_def intro!: exI [of _ "fst (mem_UpsertConsumer s d)"] prod_eqI)
next
  case (12 s d s' er)
  then show ?case using mem_Upsert_spec [of s d s' er] by (simp add: mem_ops_def spec_UpsertConsumer_def)
next
  case (13 s p n)
  then show ?case by (simp add: mem_ops_def mem_GetConsumer_def lookup2_case mem_abs_def)
qed simp_all

interpretation plain_mem: registry_store "mem_ops plain_env" mem_inv mem_abs ms_clock "\<lambda>_. True"
  by (rule mem_store) simp

end
