(* ===== verification/PGStore.thy ===== *)
theory PGStore
  imports Store "HOL-Library.Product_Lexorder"
begin

text \<open>
  \<open>internal/registry/pgstore.go\<close> over the tables of \<open>schema.sql\<close>: four tables with their serial
  ids, unique keys and foreign keys. Each method of the store runs one transaction or one
  query, so it is an atomic step: a transaction that does not commit leaves the tables as they
  were, while the id sequences keep what they handed out. A transaction that fails because another
  one has just inserted the same package is a failure that changes nothing, too. \<open>now()\<close> reads the field \<open>pg_clock\<close>,
  which only \<open>pg_tick\<close> advances. \<open>pg_down\<close> is the error of a database that cannot be reached
  or refuses the transaction; every method then fails before it changes anything. JSON columns hold the decoded value.
\<close>

record package_row =
  pk_id :: nat
  pk_name :: string

record version_row =
  vr_id :: nat
  vr_package_id :: nat
  vr_version :: string
  vr_content_hash :: string
  vr_descriptor_set :: string
  vr_owned_paths :: "string list"
  vr_created_at :: nat

record report_row =
  rr_id :: nat
  rr_package_id :: nat
  rr_base_version :: string
  rr_head_version :: string
  rr_verdict :: string
  rr_report :: report
  rr_created_at :: nat

record consumer_row =
  cr_id :: nat
  cr_package_id :: nat
  cr_consumer :: string
  cr_encoding :: string
  cr_usages :: "usage list"
  cr_updated_at :: nat

record pgstore =
  pg_packages :: "package_row list"
  pg_versions :: "version_row list"
  pg_reports :: "report_row list"
  pg_consumers :: "consumer_row list"
  pg_pkgSeq :: nat
  pg_verSeq :: nat
  pg_repSeq :: nat
  pg_conSeq :: nat
  pg_clock :: nat
  pg_down :: "string option"

definition NewPGStore :: "nat \<Rightarrow> pgstore" where
  "NewPGStore now = \<lparr>pg_packages = [], pg_versions = [], pg_reports = [], pg_consumers = [], pg_pkgSeq = 1,
     pg_verSeq = 1, pg_repSeq = 1, pg_conSeq = 1, pg_clock = now, pg_down = None\<rparr>"

definition pg_tick :: "nat \<Rightarrow> pgstore \<Rightarrow> pgstore" where
  "pg_tick d s = s\<lparr>pg_clock := pg_clock s + d\<rparr>"

text \<open>Leaving a transaction without committing: only the sequences have moved.\<close>

definition rollback :: "pgstore \<Rightarrow> pgstore \<Rightarrow> pgstore" where
  "rollback s tx = s\<lparr>pg_pkgSeq := pg_pkgSeq tx, pg_verSeq := pg_verSeq tx, pg_repSeq := pg_repSeq tx,
     pg_conSeq := pg_conSeq tx\<rparr>"

definition ensurePackage :: "pgstore \<Rightarrow> string \<Rightarrow> pgstore \<times> nat" where
  "ensurePackage s name =
     (let tx = s\<lparr>pg_pkgSeq := Suc (pg_pkgSeq s)\<rparr> in
      case find (\<lambda>r. pk_name r = name) (pg_packages s) of
        Some row \<Rightarrow> (tx, pk_id row)
      | None \<Rightarrow> (tx\<lparr>pg_packages := pg_packages s @ [\<lparr>pk_id = pg_pkgSeq s, pk_name = name\<rparr>]\<rparr>, pg_pkgSeq s))"

definition pg_PutVersion :: "pgstore \<Rightarrow> version \<Rightarrow> pgstore \<times> (store_error + bool)" where
  "pg_PutVersion s v =
     (case pg_down s of
        Some err \<Rightarrow> (s, Inl (StoreFailure err))
      | None \<Rightarrow>
          (let (tx, pkgID) = ensurePackage s (v_Package v);
               tx' = tx\<lparr>pg_verSeq := Suc (pg_verSeq tx)\<rparr> in
           case find (\<lambda>r. vr_package_id r = pkgID \<and> vr_version r = v_Version v) (pg_versions tx) of
             None \<Rightarrow>
               (tx'\<lparr>pg_versions := pg_versions tx @
                  [\<lparr>vr_id = pg_verSeq tx, vr_package_id = pkgID, vr_version = v_Version v,
                    vr_content_hash = v_ContentHash v, vr_descriptor_set = v_DescriptorSet v,
                    vr_owned_paths = v_OwnedPaths v, vr_created_at = pg_clock s\<rparr>]\<rparr>, Inr True)
           | Some row \<Rightarrow>
               (rollback s tx',
                if vr_content_hash row \<noteq> v_ContentHash v then Inl ErrVersionConflict else Inr False)))"

text \<open>The join of versions and packages, for one package name.\<close>

definition row_version :: "string \<Rightarrow> version_row \<Rightarrow> version" where
  "row_version name r =
     \<lparr>v_Package = name, v_Version = vr_version r, v_ContentHash = vr_content_hash r,
      v_DescriptorSet = vr_descriptor_set r, v_OwnedPaths = vr_owned_paths r, v_CreatedAt = vr_created_at r\<rparr>"

definition join_versions :: "pgstore \<Rightarrow> string \<Rightarrow> version_row list" where
  "join_versions s name =
     concat (map (\<lambda>r. map (\<lambda>p. r) (filter (\<lambda>p. pk_id p = vr_package_id r \<and> pk_name p = name) (pg_packages s)))
       (pg_versions s))"

definition pg_GetVersion :: "pgstore \<Rightarrow> string \<Rightarrow> string \<Rightarrow> store_error + version" where
  "pg_GetVersion s pkg ver =
     (case pg_down s of
        Some err \<Rightarrow> Inl (StoreFailure err)
      | None \<Rightarrow>
          (case filter (\<lambda>r. vr_version r = ver) (join_versions s pkg) of
             [] \<Rightarrow> Inl ErrNotFound | r # _ \<Rightarrow> Inr (row_version pkg r)))"

definition pg_LatestVersion :: "pgstore \<Rightarrow> string \<Rightarrow> store_error + version" where
  "pg_LatestVersion s pkg =
     (case pg_down s of
        Some err \<Rightarrow> Inl (StoreFailure err)
      | None \<Rightarrow>
          (case rev (sort_key (\<lambda>r. (vr_created_at r, vr_id r)) (join_versions s pkg)) of
             [] \<Rightarrow> Inl ErrNotFound | r # _ \<Rightarrow> Inr (row_version pkg r)))"

definition pg_ListVersions :: "pgstore \<Rightarrow> string \<Rightarrow> store_error + version list" where
  "pg_ListVersions s pkg =
     (case pg_down s of
        Some err \<Rightarrow> Inl (StoreFailure err)
      | None \<Rightarrow>
          Inr (map (\<lambda>r. (row_version pkg r)\<lparr>v_DescriptorSet := []\<rparr>)
            (sort_key (\<lambda>r. (vr_created_at r, vr_id r)) (join_versions s pkg))))"

definition pg_PutReport :: "pgstore \<Rightarrow> stored_report \<Rightarrow> fault + pgstore \<times> store_error option" where
  "pg_PutReport s rep =
     (case pg_down s of
        Some err \<Rightarrow> Inr (s, Some (StoreFailure err))
      | None \<Rightarrow>
          (let (tx, pkgID) = ensurePackage s (st_Package rep) in
           case st_Report rep of
             None \<Rightarrow> Inl (Panic ''invalid memory address or nil pointer dereference'')
           | Some body \<Rightarrow>
               Inr (tx\<lparr>pg_repSeq := Suc (pg_repSeq tx), pg_reports := pg_reports tx @
                 [\<lparr>rr_id = pg_repSeq tx, rr_package_id = pkgID, rr_base_version = st_BaseVersion rep,
                   rr_head_version = st_HeadVersion rep, rr_verdict = verdict_str (rep_Verdict body),
                   rr_report = body, rr_created_at = pg_clock s\<rparr>]\<rparr>, None)))"

definition pg_UpsertConsumer :: "pgstore \<Rightarrow> consumer_decl \<Rightarrow> pgstore \<times> store_error option" where
  "pg_UpsertConsumer s decl =
     (case pg_down s of
        Some err \<Rightarrow> (s, Some (StoreFailure err))
      | None \<Rightarrow>
          (let (tx, pkgID) = ensurePackage s (cd_Package decl);
               tx' = tx\<lparr>pg_conSeq := Suc (pg_conSeq tx)\<rparr>;
               row = \<lparr>cr_id = pg_conSeq tx, cr_package_id = pkgID, cr_consumer = cd_Consumer decl,
                 cr_encoding = cd_Encoding decl, cr_usages = cd_Usages decl, cr_updated_at = pg_clock s\<rparr> in
           if cd_Encoding decl \<notin> {''wire'', ''json'', ''both''} then
             (rollback s tx', Some (StoreFailure ''upsert consumer: check constraint violated''))
           else if \<exists>r \<in> set (pg_consumers tx). cr_package_id r = pkgID \<and> cr_consumer r = cd_Consumer decl then
             (tx'\<lparr>pg_consumers := map (\<lambda>r. if cr_package_id r = pkgID \<and> cr_consumer r = cd_Consumer decl
                then r\<lparr>cr_encoding := cd_Encoding decl, cr_usages := cd_Usages decl, cr_updated_at := pg_clock s\<rparr>
                else r) (pg_consumers tx)\<rparr>, None)
           else (tx'\<lparr>pg_consumers := pg_consumers tx @ [row]\<rparr>, None)))"

definition row_consumer :: "string \<Rightarrow> consumer_row \<Rightarrow> consumer_decl" where
  "row_consumer name r = \<lparr>cd_Package = name, cd_Consumer = cr_consumer r, cd_Encoding = cr_encoding r,
     cd_Usages = cr_usages r, cd_UpdatedAt = cr_updated_at r\<rparr>"

definition join_consumers :: "pgstore \<Rightarrow> string \<Rightarrow> consumer_row list" where
  "join_consumers s name =
     concat (map (\<lambda>r. map (\<lambda>p. r) (filter (\<lambda>p. pk_id p = cr_package_id r \<and> pk_name p = name) (pg_packages s)))
       (pg_consumers s))"

definition pg_GetConsumer :: "pgstore \<Rightarrow> string \<Rightarrow> string \<Rightarrow> store_error + consumer_decl" where
  "pg_GetConsumer s pkg consumer =
     (case pg_down s of
        Some err \<Rightarrow> Inl (StoreFailure err)
      | None \<Rightarrow>
          (case filter (\<lambda>r. cr_consumer r = consumer) (join_consumers s pkg) of
             [] \<Rightarrow> Inl ErrNotFound | r # _ \<Rightarrow> Inr (row_consumer pkg r)))"

definition pg_ops :: "pgstore store_ops" where
  "pg_ops = \<lparr>PutVersion = pg_PutVersion, GetVersion = pg_GetVersion, LatestVersion = pg_LatestVersion,
     ListVersions = pg_ListVersions, PutReport = pg_PutReport, UpsertConsumer = pg_UpsertConsumer,
     GetConsumer = pg_GetConsumer\<rparr>"

subsection \<open>The tables\<close>

definition pg_inv :: "pgstore \<Rightarrow> bool" where
  "pg_inv s \<longleftrightarrow>
     distinct (map pk_id (pg_packages s)) \<and> distinct (map pk_name (pg_packages s)) \<and>
     (\<forall>p \<in> set (pg_packages s). pk_id p < pg_pkgSeq s) \<and>
     distinct (map (\<lambda>r. (vr_package_id r, vr_version r)) (pg_versions s)) \<and>
     (\<forall>r \<in> set (pg_versions s). vr_package_id r \<in> pk_id ` set (pg_packages s) \<and> vr_created_at r \<le> pg_clock s) \<and>
     (\<forall>r \<in> set (pg_reports s). rr_package_id r \<in> pk_id ` set (pg_packages s)) \<and>
     distinct (map (\<lambda>r. (cr_package_id r, cr_consumer r)) (pg_consumers s)) \<and>
     (\<forall>r \<in> set (pg_consumers s). cr_package_id r \<in> pk_id ` set (pg_packages s))"

definition pkg_id :: "pgstore \<Rightarrow> string \<Rightarrow> nat option" where
  "pkg_id s name = map_option pk_id (find (\<lambda>r. pk_name r = name) (pg_packages s))"

definition pkg_name :: "pgstore \<Rightarrow> nat \<Rightarrow> string" where
  "pkg_name s i = (case find (\<lambda>r. pk_id r = i) (pg_packages s) of Some r \<Rightarrow> pk_name r | None \<Rightarrow> [])"

definition pg_abs :: "pgstore \<Rightarrow> spec" where
  "pg_abs s =
     \<lparr>sp_Versions = (\<lambda>(p, n). case pkg_id s p of None \<Rightarrow> None
        | Some i \<Rightarrow> map_option (row_version p) (find (\<lambda>r. vr_package_id r = i \<and> vr_version r = n) (pg_versions s))),
      sp_Consumers = (\<lambda>(p, n). case pkg_id s p of None \<Rightarrow> None
        | Some i \<Rightarrow> map_option (row_consumer p) (find (\<lambda>r. cr_package_id r = i \<and> cr_consumer r = n) (pg_consumers s))),
      sp_Reports = map (\<lambda>r. \<lparr>st_Package = pkg_name s (rr_package_id r), st_BaseVersion = rr_base_version r,
        st_HeadVersion = rr_head_version r, st_Report = Some (rr_report r), st_CreatedAt = rr_created_at r\<rparr>)
        (pg_reports s)\<rparr>"

lemma join_one:
  assumes "distinct (map pk_name ps)"
  shows "filter (\<lambda>p. pk_id p = i \<and> pk_name p = name) ps =
    (case find (\<lambda>r. pk_name r = name) ps of None \<Rightarrow> [] | Some p \<Rightarrow> if pk_id p = i then [p] else [])"
  using assms
proof (induction ps)
  case (Cons q ps)
  show ?case
  proof (cases "pk_name q = name")
    case True
    then have "filter (\<lambda>p. pk_id p = i \<and> pk_name p = name) ps = []"
      using Cons.prems by (auto simp: filter_empty_conv intro: rev_image_eqI)
    with True show ?thesis by simp
  next
    case False
    with Cons show ?thesis by simp
  qed
qed simp

lemma join_rows:
  assumes "distinct (map pk_name ps)"
  shows "concat (map (\<lambda>r. map (\<lambda>p. r) (filter (\<lambda>p. pk_id p = f r \<and> pk_name p = name) ps)) rows) =
    (case map_option pk_id (find (\<lambda>r. pk_name r = name) ps) of
       None \<Rightarrow> [] | Some i \<Rightarrow> filter (\<lambda>r. f r = i) rows)"
proof (cases "find (\<lambda>r. pk_name r = name) ps")
  case None
  then show ?thesis by (simp add: join_one [OF assms])
next
  case (Some p)
  then show ?thesis by (induction rows) (auto simp: join_one [OF assms])
qed

lemma join_versions_eq:
  "pg_inv s \<Longrightarrow> join_versions s name =
     (case pkg_id s name of None \<Rightarrow> [] | Some i \<Rightarrow> filter (\<lambda>r. vr_package_id r = i) (pg_versions s))"
  unfolding join_versions_def pkg_id_def by (rule join_rows) (simp add: pg_inv_def)

lemma join_consumers_eq:
  "pg_inv s \<Longrightarrow> join_consumers s name =
     (case pkg_id s name of None \<Rightarrow> [] | Some i \<Rightarrow> filter (\<lambda>r. cr_package_id r = i) (pg_consumers s))"
  unfolding join_consumers_def pkg_id_def by (rule join_rows) (simp add: pg_inv_def)

subsection \<open>Creating a package\<close>

lemma find_append: "find P (xs @ ys) = (case find P xs of None \<Rightarrow> find P ys | Some x \<Rightarrow> Some x)"
  by (induction xs) auto

lemma find_cong_set: "(\<And>x. x \<in> set xs \<Longrightarrow> P x = Q x) \<Longrightarrow> find P xs = find Q xs"
  by (induction xs) auto

lemma find_memD: "find P xs = Some x \<Longrightarrow> x \<in> set xs \<and> P x"
  by (auto simp: find_Some_iff)

lemma ensurePackage_rows:
  assumes "ensurePackage s name = (tx, i)"
  shows "pg_versions tx = pg_versions s" "pg_reports tx = pg_reports s" "pg_consumers tx = pg_consumers s"
    "pg_clock tx = pg_clock s" "pg_down tx = pg_down s" "set (pg_packages s) \<subseteq> set (pg_packages tx)"
    "pg_verSeq tx = pg_verSeq s" "pg_repSeq tx = pg_repSeq s" "pg_conSeq tx = pg_conSeq s"
  using assms by (auto simp: ensurePackage_def Let_def split: option.splits)

lemma ensurePackage_inv:
  assumes "pg_inv s" and "ensurePackage s name = (tx, i)"
  shows "pg_inv tx"
proof (cases "find (\<lambda>r. pk_name r = name) (pg_packages s)")
  case None
  then have "name \<notin> pk_name ` set (pg_packages s)" by (auto simp: find_None_iff)
  moreover have "pg_pkgSeq s \<notin> pk_id ` set (pg_packages s)" using assms(1) by (auto simp: pg_inv_def)
  ultimately show ?thesis
    using None assms by (auto simp: ensurePackage_def Let_def pg_inv_def less_Suc_eq)
next
  case (Some r)
  with assms show ?thesis by (auto simp: ensurePackage_def Let_def pg_inv_def less_Suc_eq)
qed

lemma ensurePackage_id:
  assumes "pg_inv s" and "ensurePackage s name = (tx, i)"
  shows "pkg_id tx q = (if q = name then Some i else pkg_id s q)"
    and "pkg_id s q = Some i \<Longrightarrow> q = name"
    and "i \<in> pk_id ` set (pg_packages tx)"
    and "pkg_id s name = None \<Longrightarrow> i \<notin> pk_id ` set (pg_packages s)"
    and "pkg_id s name \<noteq> None \<Longrightarrow> pkg_id s name = Some i"
proof -
  have fresh: "pg_pkgSeq s \<notin> pk_id ` set (pg_packages s)" using assms(1) by (auto simp: pg_inv_def)
  show "pkg_id tx q = (if q = name then Some i else pkg_id s q)" "i \<in> pk_id ` set (pg_packages tx)"
    "pkg_id s name = None \<Longrightarrow> i \<notin> pk_id ` set (pg_packages s)"
    "pkg_id s name \<noteq> None \<Longrightarrow> pkg_id s name = Some i"
    using assms(2) fresh
    by (auto simp: ensurePackage_def Let_def pkg_id_def find_append dest: find_memD split: option.splits)
  show "q = name" if q: "pkg_id s q = Some i"
  proof -
    obtain p where p: "p \<in> set (pg_packages s)" "pk_name p = q" "pk_id p = i"
      using q by (auto simp: pkg_id_def dest: find_memD)
    with fresh assms(2) obtain p' where "p' \<in> set (pg_packages s)" "pk_name p' = name" "pk_id p' = i"
      by (auto simp: ensurePackage_def Let_def dest: find_memD split: option.splits)
    with p assms(1) have "p = p'" by (auto simp: pg_inv_def distinct_map inj_on_def)
    with p \<open>pk_name p' = name\<close> show ?thesis by simp
  qed
qed

lemma ensurePackage_name:
  assumes "pg_inv s" and "ensurePackage s name = (tx, i)"
  shows "pkg_name tx i = name" and "j \<in> pk_id ` set (pg_packages s) \<Longrightarrow> pkg_name tx j = pkg_name s j"
proof -
  have inv: "pg_inv tx" by (rule ensurePackage_inv [OF assms])
  have "pkg_id tx name = Some i" using ensurePackage_id(1) [OF assms] by simp
  then obtain p where p: "p \<in> set (pg_packages tx)" "pk_name p = name" "pk_id p = i"
    by (auto simp: pkg_id_def dest: find_memD)
  have "find (\<lambda>r. pk_id r = i) (pg_packages tx) = Some p"
    using find_unique [of pk_id "pg_packages tx" i p] inv p by (simp add: pg_inv_def)
  with p show "pkg_name tx i = name" by (simp add: pkg_name_def)
  assume "j \<in> pk_id ` set (pg_packages s)"
  then have "find (\<lambda>r. pk_id r = j) (pg_packages s) \<noteq> None" by (auto simp: find_None_iff)
  with assms(2) show "pkg_name tx j = pkg_name s j"
    by (auto simp: pkg_name_def ensurePackage_def Let_def find_append split: option.splits)
qed

lemma no_rows:
  assumes "pg_inv s" and "i \<notin> pk_id ` set (pg_packages s)"
  shows "find (\<lambda>r. vr_package_id r = i \<and> P r) (pg_versions s) = None"
    and "find (\<lambda>r. cr_package_id r = i \<and> Q r) (pg_consumers s) = None"
  using assms by (auto simp: find_None_iff pg_inv_def)

lemma ensurePackage_abs:
  assumes "pg_inv s" and "ensurePackage s name = (tx, i)"
  shows "pg_abs tx = pg_abs s"
proof -
  note rows = ensurePackage_rows [OF assms(2)] and id = ensurePackage_id [OF assms]
  have none: "find (\<lambda>r. vr_package_id r = i \<and> vr_version r = n) (pg_versions s) = None"
    "find (\<lambda>r. cr_package_id r = i \<and> cr_consumer r = n) (pg_consumers s) = None" if "pkg_id s name = None" for n
    by (rule no_rows [OF assms(1) id(4) [OF that]])+
  have "sp_Versions (pg_abs tx) (q, n) = sp_Versions (pg_abs s) (q, n) \<and>
      sp_Consumers (pg_abs tx) (q, n) = sp_Consumers (pg_abs s) (q, n)" for q n
  proof (cases "q = name")
    case True
    then show ?thesis
      using none id(1) [of q] id(5)
      by (cases "pkg_id s name") (simp_all add: pg_abs_def rows)
  next
    case False
    then show ?thesis using id(1) [of q] by (cases "pkg_id s q") (simp_all add: pg_abs_def rows)
  qed
  moreover have "sp_Reports (pg_abs tx) = sp_Reports (pg_abs s)"
    using assms(1) ensurePackage_name(2) [OF assms] by (auto simp: pg_abs_def rows pg_inv_def)
  ultimately show ?thesis by (intro spec.equality) (auto simp: fun_eq_iff)
qed

subsection \<open>The promise is kept\<close>

lemma ensurePackage_seq: "ensurePackage s name = (tx, i) \<Longrightarrow> pg_pkgSeq tx = Suc (pg_pkgSeq s)"
  by (auto simp: ensurePackage_def Let_def split: option.splits)

lemma pg_abs_cong:
  "pg_packages s = pg_packages t \<Longrightarrow> pg_versions s = pg_versions t \<Longrightarrow> pg_reports s = pg_reports t \<Longrightarrow>
     pg_consumers s = pg_consumers t \<Longrightarrow> pg_abs s = pg_abs t"
  by (simp only: pg_abs_def pkg_id_def pkg_name_def)

lemma seqs_abs [simp]:
  "pg_abs (s\<lparr>pg_verSeq := n\<rparr>) = pg_abs s" "pg_abs (s\<lparr>pg_conSeq := n\<rparr>) = pg_abs s" "pg_abs (rollback s tx) = pg_abs s"
  by (rule pg_abs_cong; simp add: rollback_def)+

lemma seqs_inv [simp]:
  "pg_inv (s\<lparr>pg_verSeq := n\<rparr>) = pg_inv s" "pg_inv (s\<lparr>pg_conSeq := n\<rparr>) = pg_inv s"
  by (simp_all add: pg_inv_def)

lemma rollback_down [simp]: "pg_down (rollback s tx) = pg_down s"
  by (simp add: rollback_def)

lemma rollback_inv: "pg_inv s \<Longrightarrow> pg_pkgSeq s \<le> pg_pkgSeq tx \<Longrightarrow> pg_inv (rollback s tx)"
  by (auto simp: pg_inv_def rollback_def)

lemma ensured_versions:
  assumes "pg_inv s" and "ensurePackage s p = (tx, i)"
  shows "sp_Versions (pg_abs s) (p, n) =
      map_option (row_version p) (find (\<lambda>r. vr_package_id r = i \<and> vr_version r = n) (pg_versions tx))"
    and "sp_Consumers (pg_abs s) (p, n) =
      map_option (row_consumer p) (find (\<lambda>r. cr_package_id r = i \<and> cr_consumer r = n) (pg_consumers tx))"
proof -
  have "pkg_id tx p = Some i" using ensurePackage_id(1) [OF assms, of p] by simp
  then have "sp_Versions (pg_abs tx) (p, n) =
      map_option (row_version p) (find (\<lambda>r. vr_package_id r = i \<and> vr_version r = n) (pg_versions tx))"
    "sp_Consumers (pg_abs tx) (p, n) =
      map_option (row_consumer p) (find (\<lambda>r. cr_package_id r = i \<and> cr_consumer r = n) (pg_consumers tx))"
    by (simp_all add: pg_abs_def)
  then show "sp_Versions (pg_abs s) (p, n) =
      map_option (row_version p) (find (\<lambda>r. vr_package_id r = i \<and> vr_version r = n) (pg_versions tx))"
    "sp_Consumers (pg_abs s) (p, n) =
      map_option (row_consumer p) (find (\<lambda>r. cr_package_id r = i \<and> cr_consumer r = n) (pg_consumers tx))"
    by (simp_all add: ensurePackage_abs [OF assms])
qed

lemma other_package:
  assumes "pg_inv s" and "pkg_id s p = Some i" and "pkg_id s q = Some i"
  shows "q = p"
proof -
  obtain a b where a: "a \<in> set (pg_packages s)" "pk_name a = p" "pk_id a = i"
    and b: "b \<in> set (pg_packages s)" "pk_name b = q" "pk_id b = i"
    using assms(2,3) by (auto simp: pkg_id_def dest!: find_memD)
  with assms(1) have "a = b" by (auto simp: pg_inv_def distinct_map inj_on_def)
  with a b show ?thesis by simp
qed

lemma insert_version:
  assumes "pg_inv tx" and "pkg_id tx p = Some i" and "vr_package_id row = i"
    and "find (\<lambda>r. vr_package_id r = i \<and> vr_version r = vr_version row) (pg_versions tx) = None"
    and "vr_created_at row \<le> pg_clock tx" and "i \<in> pk_id ` set (pg_packages tx)"
  shows "pg_inv (tx\<lparr>pg_versions := pg_versions tx @ [row]\<rparr>)"
    and "pg_abs (tx\<lparr>pg_versions := pg_versions tx @ [row]\<rparr>) =
      (pg_abs tx)\<lparr>sp_Versions := (sp_Versions (pg_abs tx))((p, vr_version row) \<mapsto> row_version p row)\<rparr>"
proof -
  let ?s = "tx\<lparr>pg_versions := pg_versions tx @ [row]\<rparr>"
  have ids: "pkg_id ?s = pkg_id tx" "pkg_name ?s = pkg_name tx"
    by (simp_all add: fun_eq_iff pkg_id_def pkg_name_def)
  from assms show "pg_inv ?s"
    by (auto simp: pg_inv_def find_None_iff)
  have "sp_Versions (pg_abs ?s) (q, n) =
      ((sp_Versions (pg_abs tx))((p, vr_version row) \<mapsto> row_version p row)) (q, n)" for q n
  proof (cases "pkg_id tx q = Some i")
    case True
    then have "q = p" using other_package [OF assms(1,2)] by blast
    with True assms(3,4) show ?thesis
      by (auto simp: pg_abs_def ids find_append split: option.splits)
  next
    case False
    then have "q \<noteq> p" using assms(2) by auto
    with False assms(3) show ?thesis
      by (auto simp: pg_abs_def ids find_append split: option.splits)
  qed
  moreover have "sp_Consumers (pg_abs ?s) = sp_Consumers (pg_abs tx)" "sp_Reports (pg_abs ?s) = sp_Reports (pg_abs tx)"
    by (auto simp: pg_abs_def ids fun_eq_iff split: option.split)
  ultimately show "pg_abs ?s = (pg_abs tx)\<lparr>sp_Versions := (sp_Versions (pg_abs tx))((p, vr_version row) \<mapsto> row_version p row)\<rparr>"
    by (intro spec.equality) (auto simp: fun_eq_iff)
qed

lemma pg_PutVersion_spec:
  assumes "pg_inv s" and "pg_down s = None" and "pg_PutVersion s v = (s', r)"
  shows "pg_inv s' \<and> pg_down s' = None \<and> (pg_abs s', r) = spec_PutVersion (pg_clock s) v (pg_abs s)"
proof -
  obtain tx i where tx: "ensurePackage s (v_Package v) = (tx, i)" by force
  note rows = ensurePackage_rows [OF tx] and inv = ensurePackage_inv [OF assms(1) tx]
    and abs = ensurePackage_abs [OF assms(1) tx] and id = ensurePackage_id [OF assms(1) tx]
  have get: "sp_Versions (pg_abs s) (version_key v) =
      map_option (row_version (v_Package v)) (find (\<lambda>r. vr_package_id r = i \<and> vr_version r = v_Version v) (pg_versions tx))"
    unfolding version_key_def by (rule ensured_versions(1) [OF assms(1) tx])
  show ?thesis
  proof (cases "find (\<lambda>r. vr_package_id r = i \<and> vr_version r = v_Version v) (pg_versions tx)")
    case (Some row)
    let ?tx = "tx\<lparr>pg_verSeq := Suc (pg_verSeq tx)\<rparr>"
    have "pg_inv (rollback s ?tx)"
      by (rule rollback_inv [OF assms(1)]) (simp add: ensurePackage_seq [OF tx])
    with Some assms(2,3) tx get show ?thesis
      by (auto simp: pg_PutVersion_def spec_PutVersion_def row_version_def split: if_splits)
  next
    case None
    define row where "row = \<lparr>vr_id = pg_verSeq tx, vr_package_id = i, vr_version = v_Version v,
      vr_content_hash = v_ContentHash v, vr_descriptor_set = v_DescriptorSet v,
      vr_owned_paths = v_OwnedPaths v, vr_created_at = pg_clock s\<rparr>"
    have "row_version (v_Package v) row = v\<lparr>v_CreatedAt := pg_clock s\<rparr>"
      by (simp add: row_def row_version_def)
    moreover define tx' where "tx' = tx\<lparr>pg_verSeq := Suc (pg_verSeq tx)\<rparr>"
    then have tx': "pg_inv tx'" "pg_abs tx' = pg_abs s" "pg_versions tx' = pg_versions tx" "pg_down tx' = None"
      "pg_packages tx' = pg_packages tx" "pg_clock tx' = pg_clock s"
      using inv abs rows assms(2) by simp_all
    moreover have "pkg_id tx' (v_Package v) = Some i"
      using id(1) [of "v_Package v"] tx'(5) by (simp add: pkg_id_def)
    ultimately have "pg_inv (tx'\<lparr>pg_versions := pg_versions tx' @ [row]\<rparr>)"
      "pg_abs (tx'\<lparr>pg_versions := pg_versions tx' @ [row]\<rparr>) =
        (pg_abs s)\<lparr>sp_Versions := (sp_Versions (pg_abs s))((v_Package v, v_Version v) \<mapsto> v\<lparr>v_CreatedAt := pg_clock s\<rparr>)\<rparr>"
      using insert_version [of tx' "v_Package v" i row] None id(3) by (simp_all add: row_def)
    moreover have "s' = tx'\<lparr>pg_versions := pg_versions tx' @ [row]\<rparr>" and "r = Inr True"
      using None assms(2,3) tx by (simp_all add: pg_PutVersion_def row_def tx'_def)
    ultimately show ?thesis
      using None get tx'(4) by (simp add: spec_PutVersion_def version_key_def)
  qed
qed

lemma find_map_upd:
  assumes "\<And>x. P (f x) = P x"
  shows "find P (map f xs) = map_option f (find P xs)"
  using assms by (induction xs) auto

lemma replace_consumers:
  assumes "pg_inv tx" and "pkg_id tx p = Some i" and "i \<in> pk_id ` set (pg_packages tx)"
    and dist: "distinct (map (\<lambda>r. (cr_package_id r, cr_consumer r)) rows)"
    and refs: "cr_package_id ` set rows \<subseteq> pk_id ` set (pg_packages tx)"
    and find: "\<And>j m. find (\<lambda>r. cr_package_id r = j \<and> cr_consumer r = m) rows =
      (if j = i \<and> m = n then Some row
       else find (\<lambda>r. cr_package_id r = j \<and> cr_consumer r = m) (pg_consumers tx))"
  shows "pg_inv (tx\<lparr>pg_consumers := rows\<rparr>)"
    and "pg_abs (tx\<lparr>pg_consumers := rows\<rparr>) =
      (pg_abs tx)\<lparr>sp_Consumers := (sp_Consumers (pg_abs tx))((p, n) \<mapsto> row_consumer p row)\<rparr>"
proof -
  let ?s = "tx\<lparr>pg_consumers := rows\<rparr>"
  have ids: "pkg_id ?s = pkg_id tx" "pkg_name ?s = pkg_name tx"
    by (simp_all add: fun_eq_iff pkg_id_def pkg_name_def)
  from assms(1) dist refs show "pg_inv ?s" by (auto simp: pg_inv_def)
  have "sp_Consumers (pg_abs ?s) (q, m) =
      ((sp_Consumers (pg_abs tx))((p, n) \<mapsto> row_consumer p row)) (q, m)" for q m
  proof (cases "pkg_id tx q = Some i")
    case True
    then have "q = p" using other_package [OF assms(1,2)] by blast
    with True show ?thesis by (auto simp: pg_abs_def ids find)
  next
    case False
    then have "q \<noteq> p" using assms(2) by auto
    with False show ?thesis by (auto simp: pg_abs_def ids find split: option.splits)
  qed
  moreover have "sp_Versions (pg_abs ?s) = sp_Versions (pg_abs tx)" "sp_Reports (pg_abs ?s) = sp_Reports (pg_abs tx)"
    by (auto simp: pg_abs_def ids fun_eq_iff split: option.split)
  ultimately show "pg_abs ?s =
      (pg_abs tx)\<lparr>sp_Consumers := (sp_Consumers (pg_abs tx))((p, n) \<mapsto> row_consumer p row)\<rparr>"
    by (intro spec.equality) (auto simp: fun_eq_iff)
qed

lemma pg_Upsert_spec:
  assumes "pg_inv s" and "pg_down s = None" and "valid_encoding (cd_Encoding d)"
    and "pg_UpsertConsumer s d = (s', r)"
  shows "pg_inv s' \<and> pg_down s' = None \<and> r = None \<and> pg_abs s' = spec_UpsertConsumer (pg_clock s) d (pg_abs s)"
proof -
  obtain tx0 i where tx0: "ensurePackage s (cd_Package d) = (tx0, i)" by force
  note rows = ensurePackage_rows [OF tx0] and inv = ensurePackage_inv [OF assms(1) tx0]
    and abs = ensurePackage_abs [OF assms(1) tx0] and id = ensurePackage_id [OF assms(1) tx0]
  define tx where "tx = tx0\<lparr>pg_conSeq := Suc (pg_conSeq tx0)\<rparr>"
  have tx: "pg_inv tx" "pg_abs tx = pg_abs s" "pg_down tx = None" "i \<in> pk_id ` set (pg_packages tx)"
    "pg_consumers tx = pg_consumers tx0" "pkg_id tx (cd_Package d) = Some i"
    using inv abs rows assms(2) id(1) [of "cd_Package d"] id(3) by (simp_all add: tx_def pkg_id_def)
  define row where "row = \<lparr>cr_id = pg_conSeq tx0, cr_package_id = i, cr_consumer = cd_Consumer d,
    cr_encoding = cd_Encoding d, cr_usages = cd_Usages d, cr_updated_at = pg_clock s\<rparr>"
  let ?hit = "\<lambda>r. cr_package_id r = i \<and> cr_consumer r = cd_Consumer d"
  define upd where "upd r = (if ?hit r then r\<lparr>cr_encoding := cd_Encoding d, cr_usages := cd_Usages d,
    cr_updated_at := pg_clock s\<rparr> else r)" for r :: consumer_row
  define rs where "rs = (if \<exists>r \<in> set (pg_consumers tx). ?hit r then map upd (pg_consumers tx)
    else pg_consumers tx @ [row])"
  have upd_eq: "upd = (\<lambda>r. if ?hit r then r\<lparr>cr_encoding := cd_Encoding d, cr_usages := cd_Usages d,
      cr_updated_at := pg_clock s\<rparr> else r)"
    by (simp add: fun_eq_iff upd_def)
  have "pg_UpsertConsumer s d = (tx\<lparr>pg_consumers := rs\<rparr>, None)"
    using assms(2,3) tx0
    by (simp add: pg_UpsertConsumer_def valid_encoding_def rs_def upd_eq row_def tx_def Let_def)
  then have s': "s' = tx\<lparr>pg_consumers := rs\<rparr>" "r = None" using assms(4) by simp_all
  have upd_key: "cr_package_id (upd x) = cr_package_id x" "cr_consumer (upd x) = cr_consumer x" for x
    by (simp_all add: upd_def)
  have dist: "distinct (map (\<lambda>r. (cr_package_id r, cr_consumer r)) (pg_consumers tx))"
    and refs: "cr_package_id ` set (pg_consumers tx) \<subseteq> pk_id ` set (pg_packages tx)"
    using tx(1) by (auto simp: pg_inv_def)
  have keys: "distinct (map (\<lambda>r. (cr_package_id r, cr_consumer r)) rs)"
    "cr_package_id ` set rs \<subseteq> pk_id ` set (pg_packages tx)"
    using dist refs tx(4) by (auto simp: rs_def comp_def upd_key row_def)
  obtain row' where row': "row_consumer (cd_Package d) row' = d\<lparr>cd_UpdatedAt := pg_clock s\<rparr>"
    and found: "\<And>j m. find (\<lambda>r. cr_package_id r = j \<and> cr_consumer r = m) rs =
      (if j = i \<and> m = cd_Consumer d then Some row'
       else find (\<lambda>r. cr_package_id r = j \<and> cr_consumer r = m) (pg_consumers tx))"
  proof (cases "\<exists>r \<in> set (pg_consumers tx). ?hit r")
    case True
    then obtain old where old: "find ?hit (pg_consumers tx) = Some old"
      by (cases "find ?hit (pg_consumers tx)") (auto simp: find_None_iff)
    have "find (\<lambda>r. cr_package_id r = j \<and> cr_consumer r = m) rs =
        map_option upd (find (\<lambda>r. cr_package_id r = j \<and> cr_consumer r = m) (pg_consumers tx))" for j m
      using True by (simp add: rs_def find_map_upd upd_key)
    moreover have "map_option upd (find (\<lambda>r. cr_package_id r = j \<and> cr_consumer r = m) (pg_consumers tx)) =
        find (\<lambda>r. cr_package_id r = j \<and> cr_consumer r = m) (pg_consumers tx)"
      if "\<not> (j = i \<and> m = cd_Consumer d)" for j m
      using that by (cases "find (\<lambda>r. cr_package_id r = j \<and> cr_consumer r = m) (pg_consumers tx)")
        (auto simp: upd_def dest: find_memD)
    moreover have "row_consumer (cd_Package d) (upd old) = d\<lparr>cd_UpdatedAt := pg_clock s\<rparr>"
      using find_memD [OF old] by (simp add: upd_def row_consumer_def)
    ultimately show thesis using old by (intro that [of "upd old"]) auto
  next
    case False
    then have "find ?hit (pg_consumers tx) = None" by (auto simp: find_None_iff)
    with False show thesis
      by (intro that [of row]) (auto simp: rs_def row_def row_consumer_def find_append split: option.splits)
  qed
  from replace_consumers [OF tx(1,6,4) keys found] tx(2,3) s' row' show ?thesis
    by (simp add: spec_UpsertConsumer_def)
qed

lemma pg_PutReport_spec:
  assumes "pg_inv s" and "pg_down s = None" and "st_Report rep \<noteq> None"
  shows "\<exists>s'. pg_PutReport s rep = Inr (s', None) \<and> pg_inv s' \<and> pg_down s' = None \<and>
    pg_abs s' = spec_PutReport (pg_clock s) rep (pg_abs s)"
proof -
  obtain body where body: "st_Report rep = Some body" using assms(3) by blast
  obtain tx i where tx: "ensurePackage s (st_Package rep) = (tx, i)" by force
  note rows = ensurePackage_rows [OF tx] and inv = ensurePackage_inv [OF assms(1) tx]
    and abs = ensurePackage_abs [OF assms(1) tx] and id = ensurePackage_id [OF assms(1) tx]
    and name = ensurePackage_name(1) [OF assms(1) tx]
  define row where "row = \<lparr>rr_id = pg_repSeq tx, rr_package_id = i, rr_base_version = st_BaseVersion rep,
    rr_head_version = st_HeadVersion rep, rr_verdict = verdict_str (rep_Verdict body),
    rr_report = body, rr_created_at = pg_clock s\<rparr>"
  let ?s = "tx\<lparr>pg_repSeq := Suc (pg_repSeq tx), pg_reports := pg_reports tx @ [row]\<rparr>"
  have run: "pg_PutReport s rep = Inr (?s, None)"
    using assms(2) body tx by (simp add: pg_PutReport_def row_def)
  have "pkg_id ?s = pkg_id tx" "pkg_name ?s = pkg_name tx"
    by (simp_all add: fun_eq_iff pkg_id_def pkg_name_def)
  then have "pg_abs ?s = spec_PutReport (pg_clock s) rep (pg_abs tx)"
    using name body by (cases rep) (auto simp: pg_abs_def spec_PutReport_def row_def fun_eq_iff split: option.split)
  moreover have "pg_inv ?s" using inv id(3) by (auto simp: pg_inv_def row_def)
  ultimately show ?thesis using run rows assms(2) by (simp add: abs)
qed

lemma filter_head: "(case filter P xs of [] \<Rightarrow> a | x # _ \<Rightarrow> f x) = (case find P xs of None \<Rightarrow> a | Some x \<Rightarrow> f x)"
  by (induction xs) auto

lemma find_filter: "find P (filter Q xs) = find (\<lambda>x. Q x \<and> P x) xs"
  by (induction xs) auto

lemma pg_GetVersion_spec:
  assumes "pg_inv s" and "pg_down s = None"
  shows "pg_GetVersion s p n = spec_lookup (sp_Versions (pg_abs s)) (p, n)"
  using assms
  by (auto simp: pg_GetVersion_def spec_lookup_def pg_abs_def join_versions_eq filter_head find_filter
      split: option.splits)

lemma pg_GetConsumer_spec:
  assumes "pg_inv s" and "pg_down s = None"
  shows "pg_GetConsumer s p n = spec_lookup (sp_Consumers (pg_abs s)) (p, n)"
  using assms
  by (auto simp: pg_GetConsumer_def spec_lookup_def pg_abs_def join_consumers_eq filter_head find_filter
      split: option.splits)

lemma pg_versions_of:
  assumes "pg_inv s"
  shows "versions_of (pg_abs s) p = row_version p ` set (join_versions s p)"
proof -
  have "find (\<lambda>r. vr_package_id r = i \<and> vr_version r = n) (pg_versions s) = Some r \<longleftrightarrow>
      r \<in> set (pg_versions s) \<and> vr_package_id r = i \<and> vr_version r = n" for i n r
    using find_unique [of "\<lambda>r. (vr_package_id r, vr_version r)" "pg_versions s" "(i, n)" r] assms
    by (simp add: pg_inv_def)
  then show ?thesis
    using assms by (cases "pkg_id s p") (auto simp: versions_of_def pg_abs_def join_versions_eq)
qed

lemma distinct_join:
  assumes "pg_inv s"
  shows "distinct (map vr_version (join_versions s p))"
proof -
  have "distinct (map (\<lambda>r. (vr_package_id r, vr_version r)) (filter (\<lambda>r. vr_package_id r = i) (pg_versions s)))" for i
    using assms by (simp add: pg_inv_def distinct_map_filter)
  then have "distinct (map vr_version (filter (\<lambda>r. vr_package_id r = i) (pg_versions s)))" for i
    by (auto simp: distinct_map inj_on_def)
  with assms show ?thesis by (simp add: join_versions_eq split: option.splits)
qed

lemma pg_latest_spec:
  assumes "pg_inv s" and "pg_down s = None"
  shows "case pg_LatestVersion s p of
      Inl err \<Rightarrow> err = ErrNotFound \<and> versions_of (pg_abs s) p = {}
    | Inr v \<Rightarrow> v \<in> versions_of (pg_abs s) p \<and> (\<forall>w \<in> versions_of (pg_abs s) p. v_CreatedAt w \<le> v_CreatedAt v)"
proof -
  let ?key = "\<lambda>r. (vr_created_at r, vr_id r)"
  let ?rs = "sort_key ?key (join_versions s p)"
  show ?thesis
  proof (cases "rev ?rs")
    case Nil
    then have "join_versions s p = []" by (metis rev_is_Nil_conv set_empty set_sort)
    with assms Nil show ?thesis by (simp add: pg_LatestVersion_def pg_versions_of)
  next
    case (Cons r rs)
    then have rs: "?rs = rev rs @ [r]" by (metis rev.simps(2) rev_rev_ident)
    have "sorted (map ?key ?rs)" by simp
    then have "\<forall>x \<in> set rs. ?key x \<le> ?key r" unfolding rs by (auto simp: sorted_append)
    then have max: "\<forall>x \<in> set rs. vr_created_at x \<le> vr_created_at r" by (auto simp: less_eq_prod_def)
    have "set (join_versions s p) = insert r (set rs)"
      using arg_cong [OF rs, of set] by simp
    with max assms Cons show ?thesis
      by (auto simp: pg_LatestVersion_def pg_versions_of row_version_def)
  qed
qed

lemma pg_list_spec:
  assumes "pg_inv s" and "pg_down s = None"
  shows "\<exists>vs. pg_ListVersions s p = Inr vs \<and> distinct (map v_Version vs) \<and> sorted (map v_CreatedAt vs) \<and>
    version_meta ` set vs = version_meta ` versions_of (pg_abs s) p"
proof -
  let ?key = "\<lambda>r. (vr_created_at r, vr_id r)"
  let ?rs = "sort_key ?key (join_versions s p)"
  let ?vs = "map (\<lambda>r. (row_version p r)\<lparr>v_DescriptorSet := []\<rparr>) ?rs"
  have "distinct (map vr_version ?rs)"
    using distinct_join [OF assms(1), of p] by (metis mset_eq_imp_distinct_iff mset_map mset_sort)
  then have "distinct (map v_Version ?vs)" by (simp add: comp_def row_version_def)
  moreover have "sorted (map fst (map ?key ?rs))"
    using sorted_sort_key [of ?key "join_versions s p"]
    by (auto simp: sorted_wrt_map less_eq_prod_def intro: sorted_wrt_mono_rel [rotated])
  then have "sorted (map v_CreatedAt ?vs)" by (simp add: comp_def row_version_def)
  moreover have "version_meta ` set ?vs = version_meta ` versions_of (pg_abs s) p"
    by (simp add: pg_versions_of [OF assms(1)] image_image version_meta_def row_version_def)
  ultimately show ?thesis using assms(2) by (simp add: pg_ListVersions_def)
qed

interpretation pg: registry_store pg_ops pg_inv pg_abs pg_clock "\<lambda>s. pg_down s = None"
proof (unfold_locales, goal_cases)
  case (1 s v s' r)
  then show ?case using pg_PutVersion_spec [of s v s' r] by (simp add: pg_ops_def)
next
  case (2 s v s' r)
  then show ?case by (auto simp: pg_ops_def pg_PutVersion_def)
next
  case (3 s p n)
  then show ?case by (simp add: pg_ops_def pg_GetVersion_spec)
next
  case (4 s p n)
  then show ?case by (auto simp: pg_ops_def pg_GetVersion_def)
next
  case (5 s p)
  then show ?case using pg_latest_spec [of s p] by (simp add: pg_ops_def)
next
  case (6 s p)
  then show ?case by (auto simp: pg_ops_def pg_LatestVersion_def)
next
  case (7 s p)
  then show ?case using pg_list_spec [of s p] by (simp add: pg_ops_def)
next
  case (8 s rep)
  then show ?case using pg_PutReport_spec [of s rep] by (simp add: pg_ops_def)
next
  case (9 s rep s' er)
  then show ?case by (auto simp: pg_ops_def pg_PutReport_def)
next
  case (10 s rep s' er)
  show ?case
  proof (cases "pg_down s = None \<and> st_Report rep \<noteq> None")
    case True
    with 10 pg_PutReport_spec [of s rep] show ?thesis by (auto simp: pg_ops_def spec_PutReport_def)
  next
    case False
    with 10 show ?thesis by (auto simp: pg_ops_def pg_PutReport_def split: option.splits prod.splits)
  qed
next
  case (11 s d)
  then show ?case
    using pg_Upsert_spec [of s d "fst (pg_UpsertConsumer s d)" "snd (pg_UpsertConsumer s d)"]
    by (auto simp: pg_ops_def intro!: exI [of _ "fst (pg_UpsertConsumer s d)"] prod_eqI)
next
  case (12 s d s' er)
  show ?case
  proof (cases "pg_down s = None \<and> valid_encoding (cd_Encoding d)")
    case True
    with 12 pg_Upsert_spec [of s d s' er] show ?thesis by (simp add: pg_ops_def spec_UpsertConsumer_def)
  next
    case False
    obtain tx i where "ensurePackage s (cd_Package d) = (tx, i)" by force
    moreover from this have "pg_pkgSeq s \<le> pg_pkgSeq tx" by (simp add: ensurePackage_seq)
    ultimately show ?thesis
      using 12 False
      by (auto simp: pg_ops_def pg_UpsertConsumer_def valid_encoding_def Let_def rollback_inv split: option.splits)
  qed
next
  case (13 s p n)
  then show ?case by (simp add: pg_ops_def pg_GetConsumer_spec)
qed

end
