(* ===== verification/Registry.thy ===== *)
theory Registry
  imports Service MemStore PGStore
begin

text \<open>
  The registry as a whole: the handlers of the service over the two stores. The lemmas come from
  the locale \<open>registry_store\<close>, through its interpretations on \<open>PGStore\<close> and \<open>MemStore\<close>.
\<close>

subsection \<open>The surroundings of a store\<close>

definition pg_env :: "pgstore \<Rightarrow> pgstore \<Rightarrow> bool" where
  "pg_env s s' \<longleftrightarrow> (\<exists>d down. s' = (pg_tick d s)\<lparr>pg_down := down\<rparr>)"

definition mem_env :: "memstore \<Rightarrow> memstore \<Rightarrow> bool" where
  "mem_env s s' \<longleftrightarrow> (\<exists>d. s' = mem_tick d s)"

lemma pg_env_keeps: "pg_env s s' \<Longrightarrow> pg_inv s \<Longrightarrow> pg_inv s' \<and> pg_abs s' = pg_abs s"
  by (auto simp: pg_env_def pg_tick_def pg_inv_def trans_le_add1 intro: pg_abs_cong)

lemma pg_env_tick: "pg_env s (pg_tick d s)"
proof -
  have "pg_tick d s = (pg_tick d s)\<lparr>pg_down := pg_down s\<rparr>" by (simp add: pg_tick_def)
  then show ?thesis unfolding pg_env_def by blast
qed

lemma mem_env_keeps: "mem_env s s' \<Longrightarrow> mem_inv s \<Longrightarrow> mem_inv s' \<and> mem_abs s' = mem_abs s"
  by (auto simp: mem_env_def)

interpretation pg_service: registry_service pg_ops pg_inv pg_abs pg_clock "\<lambda>s. pg_down s = None" pg_env
  by unfold_locales (rule pg_env_keeps)

lemma mem_service:
  assumes "fair_env e"
  shows "registry_service (mem_ops e) mem_inv mem_abs ms_clock (\<lambda>_. True) mem_env"
  by (intro registry_service.intro mem_store assms, unfold_locales) (rule mem_env_keeps)

interpretation mem_service: registry_service "mem_ops plain_env" mem_inv mem_abs ms_clock "\<lambda>_. True" mem_env
  by (rule mem_service) simp

lemma pg_inv_New: "pg_inv (NewPGStore t)"
  by (simp add: pg_inv_def NewPGStore_def)

lemma mem_inv_New: "mem_inv (NewMemStore t)"
  by (simp add: mem_inv_def NewMemStore_def maps_ok_def inner_def lookup2_def)

subsection \<open>A concrete registry\<close>

definition pay_toolchain :: toolchain where
  "pay_toolchain =
     \<lparr>protocompile = (\<lambda>srcs eps. Inr (map (\<lambda>p. LinkedFile p []
        (no_desc\<lparr>file_Package := (case srcs p of Some c \<Rightarrow> c | None \<Rightarrow> [])\<rparr>)) eps)),
      toFileDescriptorProto = (\<lambda>lf. \<lparr>fdp_Name = lf_Path lf, fdp_Rest = file_Package (lf_Desc lf)\<rparr>),
      marshalFile = (\<lambda>fdp. Inr (fdp_Rest fdp)), sha256 = (\<lambda>s. s),
      marshalSet = (\<lambda>ps. case ps of [p] \<Rightarrow> Inr (fdp_Rest p) | _ \<Rightarrow> Inl ''unsupported''),
      unmarshalSet = (\<lambda>b. Inr [\<lparr>fdp_Name = ''pay.proto'', fdp_Rest = b\<rparr>]),
      newFiles = (\<lambda>ps. case ps of
          [p] \<Rightarrow> if fdp_Rest p = ''v1'' then Inr closure_v1 else if fdp_Rest p = ''v2'' then Inr closure_v2
                else Inl ''corrupt''
        | _ \<Rightarrow> Inl ''corrupt'')\<rparr>"

definition pay_world :: world where
  "pay_world = \<lparr>w_env = plain_env, w_codec = fixed_codec hits, w_tools = pay_toolchain,
     w_formatTime = (\<lambda>t. itoa (int t))\<rparr>"

definition publish :: "string \<Rightarrow> string \<Rightarrow> string \<Rightarrow> bool \<Rightarrow> register_request" where
  "publish ver content base require =
     \<lparr>rq_Package = ''acme.pay'', rq_Version = ver, rq_Files = [\<lparr>sf_Path = ''pay.proto'', sf_Content = content\<rparr>],
      rq_BaseVersion = base, rq_Samples = [], rq_RequireCompatible = require\<rparr>"

definition pg_one :: pgstore where
  "pg_one = fst (RegisterVersion pg_ops pay_world (NewPGStore 5) (publish ''1.0'' ''v1'' '''' True))"

definition pg_two :: pgstore where
  "pg_two = fst (RegisterVersion pg_ops pay_world (pg_tick 1 pg_one) (publish ''2.0'' ''v2'' '''' False))"

lemma pg_one_reached: "(store_step pg_ops pg_env)\<^sup>*\<^sup>* (NewPGStore 5) pg_one"
  unfolding pg_one_def by (rule RegisterVersion_steps) (rule surjective_pairing)

lemma pg_two_reached: "(store_step pg_ops pg_env)\<^sup>*\<^sup>* pg_one pg_two"
proof -
  have "store_step pg_ops pg_env pg_one (pg_tick 1 pg_one)"
    by (rule store_step.env) (rule pg_env_tick)
  also have "(store_step pg_ops pg_env)\<^sup>*\<^sup>* (pg_tick 1 pg_one) pg_two"
    unfolding pg_two_def by (rule RegisterVersion_steps) (rule surjective_pairing)
  finally show ?thesis by simp
qed

lemma pg_one_inv: "pg_inv pg_one" and pg_two_inv: "pg_inv pg_two"
  using pg_service.steps_keep [OF pg_one_reached pg_inv_New] pg_service.steps_keep [OF pg_two_reached] by blast+

definition version_one :: version where
  "version_one = \<lparr>v_Package = ''acme.pay'', v_Version = ''1.0'',
     v_ContentHash = ''pay.proto'' @ [CHR 0x00] @ ''v1'' @ [CHR 0x00], v_DescriptorSet = ''v1'',
     v_OwnedPaths = [''pay.proto''], v_CreatedAt = 5\<rparr>"

lemma pg_one_get: "pg_GetVersion pg_one ''acme.pay'' ''1.0'' = Inr version_one"
  by code_simp

lemma pg_two_down: "pg_down pg_two = None"
  by code_simp

subsection \<open>Registered versions\<close>

lemma known_encodings_step:
  assumes "store_step pg_ops pg_env s s'" and "\<forall>r \<in> set (pg_consumers s). valid_encoding (cr_encoding r)"
  shows "\<forall>r \<in> set (pg_consumers s'). valid_encoding (cr_encoding r)"
  using assms(1)
proof (cases rule: store_step.cases)
  case (upsert d res)
  then show ?thesis using assms(2)
    by (auto simp: pg_ops_def pg_UpsertConsumer_def ensurePackage_def rollback_def valid_encoding_def Let_def
        split: option.splits if_splits)
next
  case env
  then show ?thesis using assms(2) by (auto simp: pg_env_def pg_tick_def)
qed (use assms(2) in \<open>auto simp: pg_ops_def pg_PutVersion_def pg_PutReport_def ensurePackage_def rollback_def Let_def
        split: option.splits if_splits\<close>)

lemma known_encodings_reached:
  assumes "(store_step pg_ops pg_env)\<^sup>*\<^sup>* (NewPGStore t) s"
  shows "\<forall>r \<in> set (pg_consumers s). valid_encoding (cr_encoding r)"
  using assms
proof (induction rule: rtranclp_induct)
  case (step u v)
  from known_encodings_step [OF step(2,3)] show ?case .
qed (simp add: NewPGStore_def)

text \<open>
  C2. Versions are immutable. From any state the PostgreSQL store can reach, after any further
  steps by any interleaving of requests, with time passing and the database going away and
  coming back, a version that could be read is read again unchanged: content hash, descriptor
  set, owned paths and time.
\<close>
theorem versions_immutable_pg:
  assumes "(store_step pg_ops pg_env)\<^sup>*\<^sup>* (NewPGStore t) s" and "(store_step pg_ops pg_env)\<^sup>*\<^sup>* s s'"
    and "pg_GetVersion s p n = Inr v" and "pg_down s' = None"
  shows "pg_GetVersion s' p n = Inr v"
proof -
  have "pg_inv s" using pg_service.steps_keep [OF assms(1) pg_inv_New] by blast
  from pg_service.versions_immutable [OF assms(2) this, of p n v] assms(3,4)
  show ?thesis by (simp add: pg_ops_def)
qed

theorem versions_immutable_pg_witness:
  "pg_GetVersion pg_two ''acme.pay'' ''1.0'' = Inr version_one"
  by (rule versions_immutable_pg [OF pg_one_reached pg_two_reached pg_one_get pg_two_down])

text \<open>
  C16. The constraints of \<open>schema.sql\<close> hold in every state the PostgreSQL store reaches, whatever the
  interleaving of requests: package names, versions within a package and consumers within a
  package are unique, every version, report and consumer row belongs to a package row, no
  version is dated in the future and every encoding is one of the three known ones.
\<close>
theorem pg_tables_consistent:
  assumes "(store_step pg_ops pg_env)\<^sup>*\<^sup>* (NewPGStore t) s"
  shows "distinct (map pk_id (pg_packages s)) \<and> distinct (map pk_name (pg_packages s)) \<and>
    distinct (map (\<lambda>r. (vr_package_id r, vr_version r)) (pg_versions s)) \<and>
    distinct (map (\<lambda>r. (cr_package_id r, cr_consumer r)) (pg_consumers s)) \<and>
    vr_package_id ` set (pg_versions s) \<union> rr_package_id ` set (pg_reports s) \<union> cr_package_id ` set (pg_consumers s)
      \<subseteq> pk_id ` set (pg_packages s) \<and>
    (\<forall>r \<in> set (pg_versions s). vr_created_at r \<le> pg_clock s) \<and>
    (\<forall>r \<in> set (pg_consumers s). valid_encoding (cr_encoding r))"
proof -
  have "pg_inv s" using pg_service.steps_keep [OF assms pg_inv_New] by blast
  moreover have "\<forall>r \<in> set (pg_consumers s). valid_encoding (cr_encoding r)"
    using assms by (rule known_encodings_reached)
  ultimately show ?thesis unfolding pg_inv_def by (intro conjI) auto
qed

theorem pg_tables_consistent_witness:
  "distinct (map (\<lambda>r. (vr_package_id r, vr_version r)) (pg_versions pg_one))"
  using pg_tables_consistent [OF pg_one_reached] by blast






text \<open>
  C10. What a registration that is answered has done: the sources compiled; the version can be read
  back with the hash of the compiled sources, and the reply carries that hash in hexadecimal; if
  the reply says that the version already existed, the very same record was there before and
  nothing changed; otherwise there was none, and the stored record holds exactly the compiled
  descriptor set, the submitted paths and the time of the registration.
\<close>
theorem register_reply_stored:
  assumes "pg_inv s" and "RegisterVersion pg_ops w s r = (s', Reply resp)"
  shows "\<exists>c v. Compile (w_tools w) (rq_Files r) = Inr c \<and>
    pg_GetVersion s' (rq_Package r) (rq_Version r) = Inr v \<and> v_ContentHash v = c_Hash c \<and>
    rs_ContentHash resp = hex_EncodeToString (c_Hash c) \<and>
    (if rs_AlreadyExisted resp then sp_Versions (pg_abs s) (rq_Package r, rq_Version r) = Some v \<and> pg_abs s' = pg_abs s
     else sp_Versions (pg_abs s) (rq_Package r, rq_Version r) = None \<and> v = registered r c (pg_clock s))"
  using assms
proof (rule pg_service.register_replied)
  fix c v
  assume "Compile (w_tools w) (rq_Files r) = Inr c" and s': "pg_inv s'" "pg_down s' = None"
    and v: "sp_Versions (pg_abs s') (rq_Package r, rq_Version r) = Some v" and "v_ContentHash v = c_Hash c"
    and "rs_ContentHash resp = hex_EncodeToString (c_Hash c)"
    and ex: "rs_AlreadyExisted resp = (sp_Versions (pg_abs s) (rq_Package r, rq_Version r) = Some v)"
    and same: "rs_AlreadyExisted resp \<Longrightarrow> pg_abs s' = pg_abs s"
    and new: "\<not> rs_AlreadyExisted resp \<Longrightarrow> sp_Versions (pg_abs s) (rq_Package r, rq_Version r) = None \<and>
       v = registered r c (pg_clock s) \<and>
       sp_Versions (pg_abs s') = (sp_Versions (pg_abs s))((rq_Package r, rq_Version r) \<mapsto> v)"
  moreover have "pg_GetVersion s' (rq_Package r) (rq_Version r) = Inr v"
    using pg_GetVersion_spec [OF s', of "rq_Package r" "rq_Version r"] v by (simp add: spec_lookup_def)
  moreover have "if rs_AlreadyExisted resp
    then sp_Versions (pg_abs s) (rq_Package r, rq_Version r) = Some v \<and> pg_abs s' = pg_abs s
    else sp_Versions (pg_abs s) (rq_Package r, rq_Version r) = None \<and> v = registered r c (pg_clock s)"
  proof (cases "rs_AlreadyExisted resp")
    case True
    from same [OF this] ex True show ?thesis by (simp only: if_True simp_thms)
  next
    case False
    from new [OF this] False show ?thesis by (simp only: if_False simp_thms)
  qed
  ultimately show ?thesis by blast
qed

definition first_reply :: register_response where
  "first_reply = \<lparr>rs_Package = ''acme.pay'', rs_Version = ''1.0'',
     rs_ContentHash = hex_EncodeToString (v_ContentHash version_one), rs_AlreadyExisted = False,
     rs_BaseVersion = '''', rs_Compatibility = None\<rparr>"

lemma first_published:
  "RegisterVersion pg_ops pay_world (NewPGStore 5) (publish ''1.0'' ''v1'' '''' True) = (pg_one, Reply first_reply)"
proof -
  have "snd (RegisterVersion pg_ops pay_world (NewPGStore 5) (publish ''1.0'' ''v1'' '''' True)) = Reply first_reply"
    by code_simp
  then show ?thesis by (metis pg_one_def prod.collapse)
qed

theorem register_reply_stored_witness:
  "\<exists>c. Compile pay_toolchain [\<lparr>sf_Path = ''pay.proto'', sf_Content = ''v1''\<rparr>] = Inr c \<and>
     pg_GetVersion pg_one ''acme.pay'' ''1.0'' = Inr (registered (publish ''1.0'' ''v1'' '''' True) c 5)"
  using register_reply_stored [OF pg_inv_New first_published]
  by (auto simp: first_reply_def publish_def pay_world_def NewPGStore_def)

text \<open>
  C11. A registration that is not answered with success has stored nothing, in either store:
  whatever stopped it (an invalid request, a compilation error, a failed load, a break found
  under \<open>require_compatible\<close>, a conflict, the database), the versions, the consumer
  declarations and the reports are as before. In particular a version that exists with other
  content is never overwritten.
\<close>
theorem refused_registration_stores_nothing:
  assumes "pg_inv s" and "RegisterVersion pg_ops w s r = (s', res)" and "fair_env e" and "mem_inv t"
    and "RegisterVersion (mem_ops e) w t r = (t', res')"
  shows "((\<forall>resp. res \<noteq> Reply resp) \<longrightarrow> pg_abs s' = pg_abs s) \<and>
    ((\<forall>resp. res' \<noteq> Reply resp) \<longrightarrow> mem_abs t' = mem_abs t) \<and>
    (\<forall>c v. Compile (w_tools w) (rq_Files r) = Inr c \<longrightarrow> v_ContentHash v \<noteq> c_Hash c \<longrightarrow>
       (sp_Versions (pg_abs s) (rq_Package r, rq_Version r) = Some v \<longrightarrow> (\<forall>resp. res \<noteq> Reply resp)) \<and>
       (sp_Versions (mem_abs t) (rq_Package r, rq_Version r) = Some v \<longrightarrow> (\<forall>resp. res' \<noteq> Reply resp)))"
  using pg_service.register_refused [OF assms(1,2)] pg_service.register_conflict [OF assms(1,2)]
    registry_service.register_refused [OF mem_service [OF assms(3)] assms(4,5)]
    registry_service.register_conflict [OF mem_service [OF assms(3)] assms(4,5)]
  by blast

theorem refused_registration_stores_nothing_witness:
  "pg_abs (fst (RegisterVersion pg_ops pay_world pg_one (publish ''1.0'' ''v2'' '''' False))) = pg_abs pg_one"
proof -
  let ?r = "publish ''1.0'' ''v2'' '''' False"
  have res: "snd (RegisterVersion pg_ops pay_world pg_one ?r) = Refuse CodeAlreadyExists
     ''version 1.0 of package acme.pay already exists with different content; versions are immutable and cannot be overwritten''"
    by code_simp
  from refused_registration_stores_nothing [OF pg_one_inv surjective_pairing fair_plain_env
      mem_inv_New [of 0] surjective_pairing, of pay_world ?r]
  show ?thesis using res by simp
qed

text \<open>
  \<open>require_compatible\<close> is enforced: if a registration that requires compatibility is answered
  and a base version was found, then the sources were compared with that base and the attached
  report, which is the outcome of that comparison, has no FAIL finding.
\<close>
theorem required_compatibility_enforced:
  assumes "pg_inv s" and "RegisterVersion pg_ops w s r = (s', Reply resp)" and "rq_RequireCompatible r"
    and "resolveBase pg_ops w s (rq_Package r) (rq_Version r) (rq_BaseVersion r) = Inr (Some base)"
  shows "\<exists>c rep. Compile (w_tools w) (rq_Files r) = Inr c \<and> checkAgainst w base c (rq_Samples r) = Reply rep \<and>
    rs_Compatibility resp = Some rep \<and> (\<forall>f \<in> set (rep_Findings rep). f_Severity f \<noteq> SeverityFail)"
proof -
  from pg_service.register_required [OF assms(1-3)] assms(4) obtain c rep
    where c: "Compile (w_tools w) (rq_Files r) = Inr c" "checkAgainst w base c (rq_Samples r) = Reply rep"
      "rs_Compatibility resp = Some rep" "rep_Verdict rep \<noteq> VerdictIncompatible"
    by auto
  from checkAgainst_judged [OF c(2)] c(4) have "no_fail (rep_Findings rep)"
    by (simp add: verdictOf_incompatible)
  with c show ?thesis by (auto simp: no_fail_def)
qed

text \<open>A package that grows: version 1.0 has one field, version 2.0 adds another.\<close>

definition grown :: pgstore where
  "grown = pg_tick 1 (fst (RegisterVersion pg_ops pay_world (NewPGStore 5) (publish ''1.0'' ''v2'' '''' True)))"

lemma grown_inv: "pg_inv grown"
proof -
  have "(store_step pg_ops pg_env)\<^sup>*\<^sup>* (NewPGStore 5)
      (fst (RegisterVersion pg_ops pay_world (NewPGStore 5) (publish ''1.0'' ''v2'' '''' True)))"
    by (rule RegisterVersion_steps) (rule surjective_pairing)
  from pg_service.steps_keep [OF this pg_inv_New] pg_env_keeps [OF pg_env_tick] show ?thesis
    unfolding grown_def by blast
qed

lemma grown_replies:
  "\<exists>resp. snd (RegisterVersion pg_ops pay_world grown (publish ''2.0'' ''v1'' ''1.0'' True)) = Reply resp"
  "\<exists>base. resolveBase pg_ops pay_world grown ''acme.pay'' ''2.0'' ''1.0'' = Inr (Some base)"
proof -
  have "(case snd (RegisterVersion pg_ops pay_world grown (publish ''2.0'' ''v1'' ''1.0'' True)) of
      Reply _ \<Rightarrow> True | _ \<Rightarrow> False)"
    by code_simp
  then show "\<exists>resp. snd (RegisterVersion pg_ops pay_world grown (publish ''2.0'' ''v1'' ''1.0'' True)) = Reply resp"
    by (auto split: outcome.splits)
  have "(case resolveBase pg_ops pay_world grown ''acme.pay'' ''2.0'' ''1.0'' of Inr (Some _) \<Rightarrow> True | _ \<Rightarrow> False)"
    by code_simp
  then show "\<exists>base. resolveBase pg_ops pay_world grown ''acme.pay'' ''2.0'' ''1.0'' = Inr (Some base)"
    by (auto split: sum.splits option.splits)
qed

theorem required_compatibility_enforced_witness:
  "\<exists>resp rep. snd (RegisterVersion pg_ops pay_world grown (publish ''2.0'' ''v1'' ''1.0'' True)) = Reply resp \<and>
     rs_Compatibility resp = Some rep \<and> (\<forall>f \<in> set (rep_Findings rep). f_Severity f \<noteq> SeverityFail)"
proof -
  let ?r = "publish ''2.0'' ''v1'' ''1.0'' True"
  from grown_replies obtain resp base where resp: "snd (RegisterVersion pg_ops pay_world grown ?r) = Reply resp"
    and base: "resolveBase pg_ops pay_world grown ''acme.pay'' ''2.0'' ''1.0'' = Inr (Some base)" by blast
  have "RegisterVersion pg_ops pay_world grown ?r = (fst (RegisterVersion pg_ops pay_world grown ?r), Reply resp)"
    by (simp add: prod_eq_iff resp)
  from required_compatibility_enforced [OF grown_inv this] base resp show ?thesis
    by (auto simp: publish_def)
qed



lemma no_versions_yet: "versions_of (pg_abs (NewPGStore t)) p = {}"
  by (simp add: versions_of_def pg_abs_def NewPGStore_def pkg_id_def)


text \<open>
  A retry is not always accepted: with \<open>require_compatible\<close>, sending an old version again after
  a newer one has been registered is refused, because the old content is compared with the
  newer version as if it were its successor; without the requirement the same request is an
  idempotent success. The package here grows by one field.
\<close>
theorem old_version_retry_refused:
  "\<exists>s2 resp2 text resp3.
     RegisterVersion pg_ops pay_world grown (publish ''2.0'' ''v1'' '''' True) = (s2, Reply resp2) \<and>
     snd (RegisterVersion pg_ops pay_world s2 (publish ''1.0'' ''v2'' '''' True)) = Refuse CodeFailedPrecondition text \<and>
     snd (RegisterVersion pg_ops pay_world s2 (publish ''1.0'' ''v2'' '''' False)) = Reply resp3 \<and>
     rs_AlreadyExisted resp3"
proof -
  define s2 where "s2 = fst (RegisterVersion pg_ops pay_world grown (publish ''2.0'' ''v1'' '''' True))"
  have "(case snd (RegisterVersion pg_ops pay_world grown (publish ''2.0'' ''v1'' '''' True)) of
      Reply _ \<Rightarrow> True | _ \<Rightarrow> False)"
    by code_simp
  moreover have "(case snd (RegisterVersion pg_ops pay_world s2 (publish ''1.0'' ''v2'' '''' True)) of
      Refuse CodeFailedPrecondition _ \<Rightarrow> True | _ \<Rightarrow> False)"
    unfolding s2_def by code_simp
  moreover have "(case snd (RegisterVersion pg_ops pay_world s2 (publish ''1.0'' ''v2'' '''' False)) of
      Reply resp \<Rightarrow> rs_AlreadyExisted resp | _ \<Rightarrow> False)"
    unfolding s2_def by code_simp
  ultimately show ?thesis
    by (intro exI [of _ s2]) (auto simp: s2_def prod_eq_iff split: outcome.splits code.splits)
qed



subsection \<open>Checks and consumers\<close>


definition check_two :: check_request where
  "check_two = \<lparr>ck_Package = ''acme.pay'', ck_BaseVersion = ''1.0'', ck_CandidateVersion = ''2.0'',
     ck_CandidateFiles = [], ck_Samples = [], ck_Consumer = ''''\<rparr>"


text \<open>A second version whose stored descriptor set is damaged.\<close>

definition version_bad :: version where
  "version_bad = version_one\<lparr>v_Version := ''2.0'', v_ContentHash := ''h2'', v_DescriptorSet := ''garbled''\<rparr>"

definition pg_garbled :: pgstore where
  "pg_garbled = fst (pg_PutVersion (fst (pg_PutVersion (NewPGStore 5) version_one)) version_bad)"

definition mem_garbled :: memstore where
  "mem_garbled = fst (mem_PutVersion (fst (mem_PutVersion (NewMemStore 5) version_one)) version_bad)"


text \<open>
  C24. A declaration that is accepted can be read back unchanged, from either store, and replaces
  the one before; a request that is refused while the store is reachable was invalid and
  changes nothing.
\<close>
theorem declare_roundtrip:
  assumes "pg_inv s" and "pg_down s = None" and "DeclareConsumer pg_ops w s r = (s', res)"
    and "fair_env e" and "mem_inv t" and "DeclareConsumer (mem_ops e) w t r = (t', res')"
  shows "(case res of
      Reply b \<Rightarrow> pg_GetConsumer s' (dc_Package r) (dc_Consumer r) = Inr (declared r (pg_clock s))
    | Refuse c text \<Rightarrow> c = CodeInvalidArgument \<and> s' = s
    | Crash p \<Rightarrow> False) \<and>
   (case res' of
      Reply b \<Rightarrow> mem_GetConsumer t' (dc_Package r) (dc_Consumer r) = Inr (declared r (ms_clock t))
    | Refuse c text \<Rightarrow> c = CodeInvalidArgument \<and> t' = t
    | Crash p \<Rightarrow> False)"
  using pg_service.declare_outcome [OF assms(1-3)]
    registry_service.declare_outcome [OF mem_service [OF assms(4)] assms(5) TrueI assms(6)]
  by (auto simp: declared_def pg_ops_def mem_ops_def split: outcome.splits)

definition ledger_request :: declare_request where
  "ledger_request = \<lparr>dc_Package = ''acme.pay'', dc_Consumer = ''ledger'', dc_Encoding = ''wire'',
     dc_Usages = [\<lparr>u_Message = ''pay.Invoice'', u_Fields = [''id'']\<rparr>]\<rparr>"

theorem declare_roundtrip_witness:
  "pg_GetConsumer (fst (DeclareConsumer pg_ops pay_world pg_two ledger_request)) ''acme.pay'' ''ledger'' =
     Inr (declared ledger_request (pg_clock pg_two))"
proof -
  have "snd (DeclareConsumer pg_ops pay_world pg_two ledger_request) = Reply True" by code_simp
  with declare_roundtrip [OF pg_two_inv pg_two_down surjective_pairing fair_plain_env mem_inv_New [of 0]
      surjective_pairing, of pay_world ledger_request]
  show ?thesis by (simp add: ledger_request_def)
qed

lemma entry_of_meta:
  assumes "version_meta ` A = version_meta ` B"
  shows "list_entry w ` A = list_entry w ` B"
proof -
  let ?f = "\<lambda>(p, n, h, t). \<lparr>vm_Version = n, vm_ContentHash = hex_EncodeToString h, vm_CreatedAt = w_formatTime w t\<rparr>"
  have eq: "list_entry w = ?f \<circ> version_meta" by (simp add: fun_eq_iff list_entry_def version_meta_def)
  show ?thesis unfolding eq image_comp [symmetric] assms ..
qed

lemma handler_lists:
  "ListVersions ops u p = Inr us \<Longrightarrow> p \<noteq> '''' \<Longrightarrow>
    ListVersions_handler ops w u p = Reply \<lparr>ls_Package = p, ls_Versions = map (list_entry w) us\<rparr>"
  by (simp add: ListVersions_handler_def list_entry_def)

text \<open>
  C26. Listing shows every version of a package once, oldest first, with its hash in hexadecimal
  and its time, from either store that is reachable; the listing of a package without versions
  is empty.
\<close>
theorem listing_complete:
  assumes "pg_inv s" and "pg_down s = None" and "p \<noteq> ''''" and "fair_env e" and "mem_inv t"
  shows "\<exists>vs ws. ListVersions_handler pg_ops w s p = Reply \<lparr>ls_Package = p, ls_Versions = map (list_entry w) vs\<rparr> \<and>
    ListVersions_handler (mem_ops e) w t p = Reply \<lparr>ls_Package = p, ls_Versions = map (list_entry w) ws\<rparr> \<and>
    distinct (map v_Version vs) \<and> sorted (map v_CreatedAt vs) \<and>
    list_entry w ` set vs = list_entry w ` versions_of (pg_abs s) p \<and>
    distinct (map v_Version ws) \<and> sorted (map v_CreatedAt ws) \<and>
    list_entry w ` set ws = list_entry w ` versions_of (mem_abs t) p"
proof -
  obtain vs where vs: "ListVersions pg_ops s p = Inr vs" "distinct (map v_Version vs)" "sorted (map v_CreatedAt vs)"
    "version_meta ` set vs = version_meta ` versions_of (pg_abs s) p"
    using pg.list_up [OF assms(1,2), of p] by blast
  obtain ws where ws: "ListVersions (mem_ops e) t p = Inr ws" "distinct (map v_Version ws)" "sorted (map v_CreatedAt ws)"
    "version_meta ` set ws = version_meta ` versions_of (mem_abs t) p"
    using registry_store.list_up [OF mem_store [OF assms(4)] assms(5) TrueI, of p] by blast
  show ?thesis
    by (intro exI [of _ vs] exI [of _ ws] conjI handler_lists assms(3) vs(1-3) ws(1-3)
        entry_of_meta [OF vs(4)] entry_of_meta [OF ws(4)])
qed

theorem listing_complete_witness:
  "\<exists>vs. ListVersions_handler pg_ops pay_world pg_two ''acme.pay'' =
     Reply \<lparr>ls_Package = ''acme.pay'', ls_Versions = map (list_entry pay_world) vs\<rparr> \<and> sorted (map v_CreatedAt vs)"
  using listing_complete [OF pg_two_inv pg_two_down _ fair_plain_env mem_inv_New [of 0], of "''acme.pay''" pay_world]
  by auto

text \<open>
  Two versions registered at the same reading of the clock: the store in memory answers
  \<open>LatestVersion\<close> by the iteration order of a Go map, while PostgreSQL breaks the tie by the row
  id, so the base that a later registration is compared with may differ between the two.
\<close>
theorem latest_tie_depends_on_map_order:
  "mem_LatestVersion plain_env mem_garbled ''acme.pay'' \<noteq> mem_LatestVersion reversed_env mem_garbled ''acme.pay'' \<and>
   map_sum id v_Version (pg_LatestVersion pg_garbled ''acme.pay'') = Inr ''2.0''"
  by code_simp

end
