(* ===== verification/Paths.thy ===== *)
theory Paths
  imports Prelude
begin

text \<open>
  The part of Go's \<open>path/filepath\<close> that the regression runner uses, on a system whose separator is
  the slash: \<open>Clean\<close>, \<open>Join\<close> of two elements and \<open>Rel\<close>. The main lemma is \<open>Rel_Join\<close>: a path below a
  root, made relative to that root, is the path one started with.
\<close>

fun split_slash :: "string \<Rightarrow> string list" where
  "split_slash [] = [[]]"
| "split_slash (c # cs) =
     (if c = CHR ''/'' then [] # split_slash cs
      else (case split_slash cs of [] \<Rightarrow> [[c]] | x # xs \<Rightarrow> (c # x) # xs))"

fun join_slash :: "string list \<Rightarrow> string" where
  "join_slash [] = []"
| "join_slash [x] = x"
| "join_slash (x # y # ys) = x @ CHR ''/'' # join_slash (y # ys)"

definition rooted :: "string \<Rightarrow> bool" where
  "rooted p = (case p of [] \<Rightarrow> False | c # _ \<Rightarrow> c = CHR ''/'')"

text \<open>One element of a path; the elements kept so far are a stack.\<close>

fun clean_step :: "bool \<Rightarrow> string \<Rightarrow> string list \<Rightarrow> string list" where
  "clean_step root x st =
     (if x = '''' \<or> x = ''.'' then st
      else if x = ''..'' then
        (case st of [] \<Rightarrow> if root then [] else [''..'']
         | y # ys \<Rightarrow> if y = ''..'' then ''..'' # st else ys)
      else x # st)"

declare clean_step.simps [simp del]

definition path_parts :: "string \<Rightarrow> string list" where
  "path_parts p = rev (fold (clean_step (rooted p)) (split_slash p) [])"

definition Clean :: "string \<Rightarrow> string" where
  "Clean p =
     (if rooted p then CHR ''/'' # join_slash (path_parts p)
      else if path_parts p = [] then ''.'' else join_slash (path_parts p))"

definition Join :: "string \<Rightarrow> string \<Rightarrow> string" where
  "Join a b = (if a \<noteq> '''' then Clean (a @ CHR ''/'' # b) else if b \<noteq> '''' then Clean b else '''')"

fun strip_common :: "string list \<Rightarrow> string list \<Rightarrow> string list \<times> string list" where
  "strip_common (x # xs) (y # ys) = (if x = y then strip_common xs ys else (x # xs, y # ys))"
| "strip_common xs ys = (xs, ys)"

definition Rel :: "string \<Rightarrow> string \<Rightarrow> string + string" where
  "Rel basepath targpath =
     (let base = Clean basepath; targ = Clean targpath;
          err = ''Rel: can't make '' @ targpath @ '' relative to '' @ basepath in
      if targ = base then Inr ''.''
      else if rooted base \<noteq> rooted targ then Inl err
      else
        (let (bs, ts) = strip_common (path_parts basepath) (if targ = ''.'' then [''.''] else path_parts targpath) in
         if bs \<noteq> [] \<and> hd bs = ''..'' then Inl err
         else Inr (join_slash (replicate (length bs) ''..'' @ ts))))"

subsection \<open>Splitting and joining\<close>

definition plain_part :: "string \<Rightarrow> bool" where
  "plain_part x \<longleftrightarrow> x \<noteq> '''' \<and> x \<noteq> ''.'' \<and> x \<noteq> ''..'' \<and> CHR ''/'' \<notin> set x"

lemma split_slash_nonempty [simp]: "split_slash p \<noteq> []"
  by (cases p) (auto split: list.splits)

lemma split_slash_append: "split_slash (a @ CHR ''/'' # b) = split_slash a @ split_slash b"
  by (induction a) (auto split: list.splits simp: append_eq_Cons_conv)

lemma split_slash_plain: "CHR ''/'' \<notin> set x \<Longrightarrow> split_slash x = [x]"
  by (induction x) auto

lemma split_join: "ps \<noteq> [] \<Longrightarrow> \<forall>x \<in> set ps. CHR ''/'' \<notin> set x \<Longrightarrow> split_slash (join_slash ps) = ps"
  by (induction ps rule: join_slash.induct) (simp_all add: split_slash_plain split_slash_append)

lemma split_slash_no_slash: "x \<in> set (split_slash p) \<Longrightarrow> CHR ''/'' \<notin> set x"
  by (induction p arbitrary: x) (auto split: list.splits if_splits)

lemma push_plain: "list_all plain_part rs \<Longrightarrow> fold (clean_step root) rs st = rev rs @ st"
  by (induction rs arbitrary: st) (simp_all add: clean_step.simps plain_part_def)

lemma push_up: "(clean_step False ''..'' ^^ n) [] = replicate n ''..''"
proof (induction n)
  case (Suc n)
  have "clean_step False ''..'' (replicate n ''..'') = replicate (Suc n) ''..''"
    by (cases n) (simp_all add: clean_step.simps)
  with Suc show ?case by simp
qed simp

subsection \<open>Clean paths\<close>

text \<open>The elements of a cleaned path: plain names, after as many steps up as needed when it is not rooted.\<close>

definition clean_stack :: "bool \<Rightarrow> string list \<Rightarrow> bool" where
  "clean_stack root st \<longleftrightarrow> (\<exists>xs n. st = xs @ replicate n ''..'' \<and> list_all plain_part xs \<and> (root \<longrightarrow> n = 0))"

lemma clean_step_stack:
  assumes "clean_stack root st" and "CHR ''/'' \<notin> set x"
  shows "clean_stack root (clean_step root x st)"
proof -
  from assms(1) obtain xs n where st: "st = xs @ replicate n ''..''" "list_all plain_part xs" "root \<longrightarrow> n = 0"
    by (auto simp: clean_stack_def)
  consider "x = '''' \<or> x = ''.''" | "x = ''..''" | "plain_part x" using assms(2) by (auto simp: plain_part_def)
  then show ?thesis
  proof cases
    case 2
    show ?thesis
    proof (cases xs)
      case Nil
      then have "clean_step root x st = replicate (if root then 0 else Suc n) ''..''"
        using 2 st by (cases n) (simp_all add: clean_step.simps)
      moreover have "clean_stack root (replicate (if root then 0 else Suc n) ''..'')"
        unfolding clean_stack_def by (intro exI [of _ "[]"] exI [of _ "if root then 0 else Suc n"]) simp
      ultimately show ?thesis by (simp only:)
    next
      case (Cons y ys)
      then have "clean_step root x st = ys @ replicate n ''..''"
        using 2 st by (simp add: clean_step.simps plain_part_def)
      then show ?thesis using st Cons by (auto simp: clean_stack_def)
    qed
  next
    case 3
    then have "clean_step root x st = (x # xs) @ replicate n ''..''"
      using st by (simp add: clean_step.simps plain_part_def)
    moreover have "list_all plain_part (x # xs)" using st 3 by simp
    ultimately show ?thesis using st(3) unfolding clean_stack_def by blast
  qed (use assms(1) in \<open>auto simp: clean_step.simps\<close>)
qed

lemma fold_clean_stack:
  "clean_stack root st \<Longrightarrow> \<forall>x \<in> set xs. CHR ''/'' \<notin> set x \<Longrightarrow> clean_stack root (fold (clean_step root) xs st)"
  by (induction xs arbitrary: st) (auto intro: clean_step_stack)

lemma clean_stack_parts: "clean_stack (rooted p) (rev (path_parts p))"
proof -
  have "clean_stack (rooted p) []" by (simp add: clean_stack_def)
  then show ?thesis unfolding path_parts_def using fold_clean_stack split_slash_no_slash by simp
qed

lemma fold_clean_parts:
  assumes "clean_stack root st"
  shows "fold (clean_step root) (rev st) [] = st"
proof -
  from assms obtain xs n where st: "st = xs @ replicate n ''..''" "list_all plain_part xs" "root \<longrightarrow> n = 0"
    by (auto simp: clean_stack_def)
  have "fold (clean_step root) (replicate n ''..'') [] = replicate n ''..''"
    using st(3) by (cases root) (simp_all add: push_up fold_replicate)
  with st show ?thesis by (simp add: push_plain list_all_rev)
qed

lemma clean_stack_no_slash:
  assumes "clean_stack root st" and "x \<in> set st"
  shows "x \<noteq> '''' \<and> CHR ''/'' \<notin> set x"
proof -
  from assms(1) obtain xs n where "st = xs @ replicate n ''..''" "list_all plain_part xs"
    unfolding clean_stack_def by blast
  with assms(2) have "plain_part x \<or> x = ''..''" by (auto simp: list_all_iff split: if_splits)
  then show ?thesis by (auto simp: plain_part_def)
qed

lemma rooted_join: "ps \<noteq> [] \<Longrightarrow> \<forall>x \<in> set ps. x \<noteq> '''' \<and> CHR ''/'' \<notin> set x \<Longrightarrow> \<not> rooted (join_slash ps)"
  by (cases ps rule: join_slash.cases) (auto simp: rooted_def neq_Nil_conv split: list.splits)

lemma rooted_Clean: "rooted (Clean p) = rooted p"
proof -
  have "\<not> rooted (join_slash (path_parts p))" if "path_parts p \<noteq> []"
    using rooted_join [OF that] clean_stack_no_slash [OF clean_stack_parts, of _ p] by simp
  then show ?thesis by (auto simp: Clean_def rooted_def)
qed

lemma path_parts_Clean: "path_parts (Clean p) = path_parts p"
proof -
  let ?ps = "path_parts p"
  have ns: "\<forall>x \<in> set ?ps. CHR ''/'' \<notin> set x"
    using clean_stack_no_slash [OF clean_stack_parts, of _ p] by simp
  have again: "fold (clean_step (rooted p)) ?ps [] = rev ?ps"
    using fold_clean_parts [OF clean_stack_parts [of p]] by simp
  have skip: "clean_step root [] st = st" "clean_step root ''.'' st = st" for root st
    by (simp_all add: clean_step.simps)
  have "fold (clean_step (rooted p)) (split_slash (Clean p)) [] = rev ?ps"
  proof (cases "?ps = []")
    case True
    then show ?thesis using again by (simp add: Clean_def skip)
  next
    case False
    then show ?thesis using again split_join [OF False ns] by (cases "rooted p") (simp_all add: Clean_def skip)
  qed
  then show ?thesis by (simp add: path_parts_def [of "Clean p"] rooted_Clean)
qed

lemma Clean_parts_eq: "Clean p = Clean q \<Longrightarrow> path_parts p = path_parts q"
  by (metis path_parts_Clean)

subsection \<open>Paths below a root\<close>

lemma strip_common_append: "strip_common xs (xs @ ys) = ([], ys)"
proof (induction xs)
  case Nil
  then show ?case by (cases ys) simp_all
qed simp

lemma Join_parts:
  assumes "rs \<noteq> []" and "list_all plain_part rs"
  shows "path_parts (Join root (join_slash rs)) = path_parts root @ rs \<and> rooted (Join root (join_slash rs)) = rooted root"
proof -
  have ns: "\<forall>x \<in> set rs. x \<noteq> '''' \<and> CHR ''/'' \<notin> set x" using assms(2) by (auto simp: list_all_iff plain_part_def)
  have rel: "\<not> rooted (join_slash rs)" "split_slash (join_slash rs) = rs"
    using rooted_join [OF assms(1) ns] split_join [OF assms(1)] ns by blast+
  show ?thesis
  proof (cases "root = ''''")
    case True
    have "join_slash rs \<noteq> ''''" using rel(2) assms by (cases rs) (auto simp: plain_part_def)
    with True rel assms(2) show ?thesis
      by (simp add: Join_def rooted_Clean path_parts_Clean) (simp add: path_parts_def rooted_def push_plain clean_step.simps)
  next
    case False
    have r: "rooted (root @ CHR ''/'' # join_slash rs) = rooted root" using False by (cases root) (simp_all add: rooted_def)
    with False rel assms(2) show ?thesis
      by (simp add: Join_def rooted_Clean path_parts_Clean) (simp add: path_parts_def split_slash_append push_plain)
  qed
qed

lemma Rel_Join:
  assumes "rs \<noteq> []" and "list_all plain_part rs"
  shows "Rel root (Join root (join_slash rs)) = Inr (join_slash rs)"
proof -
  let ?t = "Join root (join_slash rs)"
  note parts = Join_parts [OF assms, of root]
  then have "path_parts ?t \<noteq> path_parts root" using assms(1) by simp
  then have ne: "Clean ?t \<noteq> Clean root" using Clean_parts_eq by blast
  have "Clean ?t \<noteq> ''.''"
  proof
    assume "Clean ?t = ''.''"
    then have "path_parts ?t = path_parts ''.''" by (metis path_parts_Clean)
    also have "path_parts ''.'' = []" by (simp add: path_parts_def clean_step.simps)
    finally show False using parts assms(1) by simp
  qed
  with ne parts show ?thesis by (simp add: Rel_def Let_def rooted_Clean strip_common_append)
qed

end
