(* ===== verification/Server.thy ===== *)
theory Server
  imports Registry Paths
begin

text \<open>
  The HTTP side of the registry: the routes of \<open>internal/registry/handler.go\<close> and of the two
  multiplexers of \<open>cmd/server/main.go\<close>. A request is a path and a body, posted as JSON; the record
  \<open>rpc_lib\<close> is what the ConnectRPC library and \<open>encoding/json\<close> make of bodies, replies and errors.
  \<open>ServeMux\<close> redirects a path that is not clean, matches a pattern that ends in a slash by prefix
  and every other pattern exactly. A handler that panics loses its connection, and the server
  goes on.
\<close>

record rpc_lib =
  decode_Register :: "string \<Rightarrow> string + register_request"
  decode_Check :: "string \<Rightarrow> string + check_request"
  decode_Declare :: "string \<Rightarrow> string + declare_request"
  decode_List :: "string \<Rightarrow> string + string"
  encode_Register :: "register_response \<Rightarrow> string"
  encode_Check :: "check_response \<Rightarrow> string"
  encode_Declare :: "bool \<Rightarrow> string"
  encode_List :: "list_response \<Rightarrow> string"
  decode_error :: "string \<Rightarrow> string"
  rpc_error :: "code \<Rightarrow> string \<Rightarrow> string"

datatype http_reply = OK string | ErrorReply string | NotFound | Redirect string | Dropped fault

definition ProcedureRegisterVersion :: string where
  "ProcedureRegisterVersion = ''/registry.v1.Registry/RegisterVersion''"

definition ProcedureCheckCompatibility :: string where
  "ProcedureCheckCompatibility = ''/registry.v1.Registry/CheckCompatibility''"

definition ProcedureDeclareConsumer :: string where
  "ProcedureDeclareConsumer = ''/registry.v1.Registry/DeclareConsumer''"

definition ProcedureListVersions :: string where
  "ProcedureListVersions = ''/registry.v1.Registry/ListVersions''"

text \<open>A unary handler: decode the body, call the handler, encode what it returns.\<close>

definition unary :: "rpc_lib \<Rightarrow> (string \<Rightarrow> string + 'req) \<Rightarrow> ('a \<Rightarrow> string) \<Rightarrow> ('s \<Rightarrow> 'req \<Rightarrow> 's \<times> 'a outcome) \<Rightarrow>
    's \<Rightarrow> string \<Rightarrow> 's \<times> http_reply" where
  "unary lib decode encode handler s body =
     (case decode body of
        Inl err \<Rightarrow> (s, ErrorReply (decode_error lib err))
      | Inr req \<Rightarrow>
          (case handler s req of
             (s', Reply resp) \<Rightarrow> (s', OK (encode resp))
           | (s', Refuse c text) \<Rightarrow> (s', ErrorReply (rpc_error lib c text))
           | (s', Crash p) \<Rightarrow> (s', Dropped p)))"

definition Handler :: "'s store_ops \<Rightarrow> world \<Rightarrow> rpc_lib \<Rightarrow> 's \<Rightarrow> string \<Rightarrow> string \<Rightarrow> 's \<times> http_reply" where
  "Handler ops w lib s path body =
     (if path = ProcedureRegisterVersion then
        unary lib (decode_Register lib) (encode_Register lib) (RegisterVersion ops w) s body
      else if path = ProcedureCheckCompatibility then
        unary lib (decode_Check lib) (encode_Check lib) (CheckCompatibility ops w) s body
      else if path = ProcedureDeclareConsumer then
        unary lib (decode_Declare lib) (encode_Declare lib) (DeclareConsumer ops w) s body
      else if path = ProcedureListVersions then
        unary lib (decode_List lib) (encode_List lib) (\<lambda>s r. (s, ListVersions_handler ops w s r)) s body
      else (s, NotFound))"

definition cleanPath :: "string \<Rightarrow> string" where
  "cleanPath p =
     (let q = (if p = '''' then ''/'' else if hd p \<noteq> CHR ''/'' then CHR ''/'' # p else p); np = Clean q in
      if last q = CHR ''/'' \<and> np \<noteq> ''/'' then np @ ''/'' else np)"

definition server_mux :: "'s store_ops \<Rightarrow> world \<Rightarrow> rpc_lib \<Rightarrow> 's \<Rightarrow> string \<Rightarrow> string \<Rightarrow> 's \<times> http_reply" where
  "server_mux ops w lib s path body =
     (if cleanPath path \<noteq> path then (s, Redirect (cleanPath path))
      else if hasPrefix path ''/registry.v1.Registry/'' then Handler ops w lib s path body
      else if path = ''/healthz'' then (s, OK ''ok'')
      else (s, NotFound))"

text \<open>The server over a list of requests, one after the other, with something happening around it
  (time passes, the database goes away and comes back) before each of them.\<close>

fun serve :: "'s store_ops \<Rightarrow> world \<Rightarrow> rpc_lib \<Rightarrow> (('s \<Rightarrow> 's) \<times> string \<times> string) list \<Rightarrow> 's \<Rightarrow> 's \<times> http_reply list" where
  "serve ops w lib [] s = (s, [])"
| "serve ops w lib ((around, path, body) # rs) s =
     (let (s1, reply) = server_mux ops w lib (around s) path body; (s2, replies) = serve ops w lib rs s1 in
      (s2, reply # replies))"

subsection \<open>Requests are steps of the store\<close>

lemma unary_steps:
  assumes "\<And>s req s' res. handler s req = (s', res) \<Longrightarrow> (store_step ops env)\<^sup>*\<^sup>* s s'"
  shows "(store_step ops env)\<^sup>*\<^sup>* s (fst (unary lib decode encode handler s body))"
proof (cases "decode body")
  case (Inr req)
  obtain s' res where h: "handler s req = (s', res)" by force
  from assms [OF h] show ?thesis using Inr h by (cases res) (simp_all add: unary_def)
qed (simp add: unary_def)

lemma Handler_steps: "(store_step ops env)\<^sup>*\<^sup>* s (fst (Handler ops w lib s path body))"
  unfolding Handler_def
  by (auto intro!: unary_steps intro: RegisterVersion_steps CheckCompatibility_steps DeclareConsumer_steps)

lemma server_mux_steps: "(store_step ops env)\<^sup>*\<^sup>* s (fst (server_mux ops w lib s path body))"
  using Handler_steps by (auto simp: server_mux_def)

lemma serve_steps:
  assumes "\<forall>(around, path, body) \<in> set rs. \<forall>s. env s (around s)"
  shows "(store_step ops env)\<^sup>*\<^sup>* s (fst (serve ops w lib rs s))"
  using assms
proof (induction rs arbitrary: s)
  case (Cons r rs)
  obtain around path body where r: "r = (around, path, body)" by (metis prod_cases3)
  with Cons.prems have "store_step ops env s (around s)" by (auto intro: store_step.env)
  also have "(store_step ops env)\<^sup>*\<^sup>* (around s) (fst (server_mux ops w lib (around s) path body))"
    by (rule server_mux_steps)
  also have "(store_step ops env)\<^sup>*\<^sup>* \<dots> (fst (serve ops w lib rs (fst (server_mux ops w lib (around s) path body))))"
    using Cons by simp
  finally show ?case by (simp add: r Let_def case_prod_beta)
qed simp

text \<open>
  C5. Whatever is sent to the server, over either store: requests to any paths with any bodies, in
  any order, some of them failing or panicking, with time passing and the database going away
  between them, a version that could be read before can be read afterwards, unchanged.
\<close>
theorem server_keeps_versions:
  assumes "pg_inv s" and "\<forall>(around, path, body) \<in> set rs. \<forall>s. pg_env s (around s)"
    and "pg_GetVersion s p n = Inr v" and "pg_down (fst (serve pg_ops w lib rs s)) = None"
    and "fair_env e" and "mem_inv t" and "\<forall>(around, path, body) \<in> set qs. \<forall>t. mem_env t (around t)"
    and "mem_GetVersion t p n = Inr u"
  shows "pg_GetVersion (fst (serve pg_ops w lib rs s)) p n = Inr v \<and>
    mem_GetVersion (fst (serve (mem_ops e) w lib qs t)) p n = Inr u"
proof
  from pg_service.versions_immutable [OF serve_steps [OF assms(2)] assms(1), of p n v] assms(3,4)
  show "pg_GetVersion (fst (serve pg_ops w lib rs s)) p n = Inr v" by (simp add: pg_ops_def)
  from registry_service.versions_immutable [OF mem_service [OF assms(5)] serve_steps [OF assms(7)] assms(6), of p n u] assms(8)
  show "mem_GetVersion (fst (serve (mem_ops e) w lib qs t)) p n = Inr u" by (simp add: mem_ops_def)
qed

definition demo_lib :: rpc_lib where
  "demo_lib = \<lparr>decode_Register = (\<lambda>b. Inr (publish ''1.0'' b '''' False)), decode_Check = (\<lambda>_. Inr check_two),
     decode_Declare = (\<lambda>_. Inr ledger_request), decode_List = (\<lambda>b. Inr b),
     encode_Register = (\<lambda>r. rs_ContentHash r), encode_Check = (\<lambda>_. ''checked''), encode_Declare = show_bool,
     encode_List = (\<lambda>r. ls_Package r), decode_error = (\<lambda>s. s), rpc_error = (\<lambda>_ s. s)\<rparr>"

theorem server_keeps_versions_witness:
  "pg_GetVersion (fst (serve pg_ops pay_world demo_lib [(pg_tick 1, ProcedureRegisterVersion, ''v2'')] pg_one))
     ''acme.pay'' ''1.0'' = Inr version_one"
proof -
  let ?t = "fst (mem_PutVersion (NewMemStore 5) version_one)"
  have up: "pg_down (fst (serve pg_ops pay_world demo_lib [(pg_tick 1, ProcedureRegisterVersion, ''v2'')] pg_one)) = None"
    by code_simp
  have "mem_inv ?t"
    using mem_PutVersion_spec [OF mem_inv_New surjective_pairing, of 5 version_one] by blast
  moreover have "mem_GetVersion ?t ''acme.pay'' ''1.0'' = Inr version_one" by code_simp
  ultimately show ?thesis
    using server_keeps_versions [OF pg_one_inv _ pg_one_get up fair_plain_env, of ?t "[]" version_one]
    by (simp add: pg_env_tick)
qed

text \<open>
  Routing: a request whose path is none of the four procedures changes nothing and is answered
  with the health check, a redirect or not found; every procedure path reaches its handler.
\<close>

lemma server_routes_other:
  assumes "path \<notin> {ProcedureRegisterVersion, ProcedureCheckCompatibility, ProcedureDeclareConsumer, ProcedureListVersions}"
  shows "server_mux ops w lib s path body =
    (s, if cleanPath path \<noteq> path then Redirect (cleanPath path) else if path = ''/healthz'' then OK ''ok'' else NotFound)"
proof -
  have "\<not> hasPrefix ''/healthz'' ''/registry.v1.Registry/''" by code_simp
  with assms show ?thesis by (auto simp: server_mux_def Handler_def)
qed

lemma server_routes_procedure:
  assumes "path \<in> {ProcedureRegisterVersion, ProcedureCheckCompatibility, ProcedureDeclareConsumer, ProcedureListVersions}"
  shows "server_mux ops w lib s path body = Handler ops w lib s path body"
proof -
  have "list_all (\<lambda>q. cleanPath q = q \<and> hasPrefix q ''/registry.v1.Registry/'')
      [ProcedureRegisterVersion, ProcedureCheckCompatibility, ProcedureDeclareConsumer, ProcedureListVersions]"
    by code_simp
  with assms show ?thesis by (auto simp: server_mux_def)
qed

end
