(* ===== verification/Concurrent.thy ===== *)
theory Concurrent
  imports Registry
begin

text \<open>
  Registrations that run at the same time. \<open>net/http\<close> serves every request in a goroutine of its
  own, and \<open>RegisterVersion\<close> in \<open>internal/registry/service.go\<close> calls the store up to three times:
  it reads the base, puts the version and logs the report. Each call is atomic (a mutex, or a
  transaction), and anything may happen between two of them. \<open>advance\<close> takes one client to its
  next store call; \<open>system_step\<close> interleaves any number of clients with each other and with
  every other step of the store. The invariant \<open>system_ok\<close> carries the properties.
  The last part compares a registration with a later check of the stored versions.
\<close>

subsection \<open>Clients and their interleaving\<close>

datatype client =
    Submitted register_request
  | Checked register_request compiled "version option" "report option"
  | Stored register_request compiled "version option" "report option" bool
  | Answered register_request "register_response outcome"

fun advance :: "'s store_ops \<Rightarrow> world \<Rightarrow> 's \<Rightarrow> client \<Rightarrow> 's \<times> client" where
  "advance ops w s (Submitted r) =
     (s, case resolve_and_check ops w s r of
           Crash p \<Rightarrow> Answered r (Crash p)
         | Refuse co text \<Rightarrow> Answered r (Refuse co text)
         | Reply (c, base, rep) \<Rightarrow> Checked r c base rep)"
| "advance ops w s (Checked r c base rep) =
     (case put_version ops w s r c of
        (s', Crash p) \<Rightarrow> (s', Answered r (Crash p))
      | (s', Refuse co text) \<Rightarrow> (s', Answered r (Refuse co text))
      | (s', Reply created) \<Rightarrow> (s', Stored r c base rep created))"
| "advance ops w s (Stored r c base rep created) =
     (let (s', res) = log_and_reply ops s r c base rep created in (s', Answered r res))"
| "advance ops w s (Answered r res) = (s, Answered r res)"

inductive system_step :: "'s store_ops \<Rightarrow> world \<Rightarrow> ('s \<Rightarrow> 's \<Rightarrow> bool) \<Rightarrow>
    's \<times> (nat \<Rightarrow> client) \<Rightarrow> 's \<times> (nat \<Rightarrow> client) \<Rightarrow> bool" for ops w env where
  client: "advance ops w s (cs i) = (s', cl) \<Longrightarrow> system_step ops w env (s, cs) (s', cs(i := cl))"
| other: "store_step ops env s s' \<Longrightarrow> system_step ops w env (s, cs) (s', cs)"

inductive_cases system_stepE: "system_step ops w env (s, cs) y"

text \<open>A run of the clients alone: the schedule names the client of each step.\<close>

fun run_schedule :: "'s store_ops \<Rightarrow> world \<Rightarrow> nat list \<Rightarrow> 's \<times> (nat \<Rightarrow> client) \<Rightarrow> 's \<times> (nat \<Rightarrow> client)" where
  "run_schedule ops w [] y = y"
| "run_schedule ops w (i # is) (s, cs) =
     (let (s', cl) = advance ops w s (cs i) in run_schedule ops w is (s', cs(i := cl)))"

lemma run_schedule_steps: "(system_step ops w env)\<^sup>*\<^sup>* y (run_schedule ops w is y)"
proof (induction "is" arbitrary: y)
  case (Cons i "is")
  obtain s cs where y: "y = (s, cs)" by force
  obtain s' cl where adv: "advance ops w s (cs i) = (s', cl)" by force
  then have "system_step ops w env (s, cs) (s', cs(i := cl))" by (rule system_step.client)
  with Cons [of "(s', cs(i := cl))"] show ?case
    by (simp add: y adv converse_rtranclp_into_rtranclp)
qed simp

text \<open>The handler is a client that is left alone for its three steps.\<close>

lemma RegisterVersion_advance:
  assumes "RegisterVersion ops w s r = (s', res)"
  shows "((\<lambda>(s, cl). advance ops w s cl) ^^ 3) (s, Submitted r) = (s', Answered r res)"
  using assms
  by (auto simp: RegisterVersion_def store_version_def numeral_3_eq_3 split: outcome.splits prod.splits)

lemma run_alone:
  assumes "RegisterVersion ops w s r = (s', res)" and "cs i = Submitted r"
  shows "run_schedule ops w [i, i, i] (s, cs) = (s', cs(i := Answered r res))"
  using RegisterVersion_advance [OF assms(1)] assms(2)
  by (auto simp: numeral_3_eq_3 split: prod.splits)

subsection \<open>What a client relies on\<close>

definition request_key :: "register_request \<Rightarrow> string \<times> string" where
  "request_key r = (rq_Package r, rq_Version r)"

definition decided :: "world \<Rightarrow> spec \<Rightarrow> register_request \<Rightarrow> compiled \<Rightarrow> version option \<Rightarrow> report option \<Rightarrow> bool" where
  "decided w sp r c base rep \<longleftrightarrow> Compile (w_tools w) (rq_Files r) = Inr c \<and>
     (case base of
        None \<Rightarrow> rep = None
      | Some b \<Rightarrow> b \<in> versions_of sp (rq_Package r) \<and>
          (\<exists>report. rep = Some report \<and> checkAgainst w b c (rq_Samples r) = Reply report \<and>
            (rq_RequireCompatible r \<longrightarrow> rep_Verdict report \<noteq> VerdictIncompatible)))"

definition holds :: "spec \<Rightarrow> register_request \<Rightarrow> compiled \<Rightarrow> bool" where
  "holds sp r c \<longleftrightarrow> (\<exists>v. sp_Versions sp (request_key r) = Some v \<and> v_ContentHash v = c_Hash c)"

fun client_ok :: "world \<Rightarrow> spec \<Rightarrow> client \<Rightarrow> bool" where
  "client_ok w sp (Submitted r) = True"
| "client_ok w sp (Checked r c base rep) = decided w sp r c base rep"
| "client_ok w sp (Stored r c base rep created) = (decided w sp r c base rep \<and> holds sp r c)"
| "client_ok w sp (Answered r res) =
     (case res of
        Reply resp \<Rightarrow> \<exists>c base. decided w sp r c base (rs_Compatibility resp) \<and> holds sp r c \<and>
          rs_ContentHash resp = hex_EncodeToString (c_Hash c) \<and>
          rs_BaseVersion resp = (case base of None \<Rightarrow> '''' | Some b \<Rightarrow> v_Version b)
      | _ \<Rightarrow> True)"

text \<open>The version, if any, that a client has created.\<close>

fun creator :: "client \<Rightarrow> (string \<times> string) option" where
  "creator (Stored r c base rep created) = (if created then Some (request_key r) else None)"
| "creator (Answered r (Reply resp)) = (if rs_AlreadyExisted resp then None else Some (request_key r))"
| "creator _ = None"

definition system_ok :: "world \<Rightarrow> spec \<Rightarrow> (nat \<Rightarrow> client) \<Rightarrow> bool" where
  "system_ok w sp cs \<longleftrightarrow> (\<forall>i. client_ok w sp (cs i)) \<and>
     (\<forall>i j k. creator (cs i) = Some k \<longrightarrow> creator (cs j) = Some k \<longrightarrow> i = j)"

lemma map_le_get: "m \<subseteq>\<^sub>m m' \<Longrightarrow> m k = Some v \<Longrightarrow> m' k = Some v"
  by (metis domI map_le_def)

lemma versions_of_grow: "sp_Versions sp \<subseteq>\<^sub>m sp_Versions sp' \<Longrightarrow> versions_of sp p \<subseteq> versions_of sp' p"
  by (auto simp: versions_of_def dest: map_le_get)

lemma decided_grow: "decided w sp r c base rep \<Longrightarrow> sp_Versions sp \<subseteq>\<^sub>m sp_Versions sp' \<Longrightarrow> decided w sp' r c base rep"
  using versions_of_grow [of sp sp' "rq_Package r"] by (auto simp: decided_def split: option.splits)

lemma holds_grow: "holds sp r c \<Longrightarrow> sp_Versions sp \<subseteq>\<^sub>m sp_Versions sp' \<Longrightarrow> holds sp' r c"
  by (auto simp: holds_def dest: map_le_get)

lemma client_ok_grow:
  "client_ok w sp cl \<Longrightarrow> sp_Versions sp \<subseteq>\<^sub>m sp_Versions sp' \<Longrightarrow> client_ok w sp' cl"
  by (cases cl) (auto intro: decided_grow holds_grow split: outcome.splits)

lemma creator_holds: "client_ok w sp cl \<Longrightarrow> creator cl = Some k \<Longrightarrow> sp_Versions sp k \<noteq> None"
  by (cases "(w, sp, cl)" rule: client_ok.cases) (auto simp: holds_def split: if_splits outcome.splits)

context registry_service
begin

lemma resolveBase_stored:
  assumes "inv s" and "resolveBase ops w s p n req = Inr (Some b)"
  shows "b \<in> versions_of (abs s) p"
proof (cases "up s")
  case True
  with assms latest_up [OF assms(1) True, of p] show ?thesis
    by (auto simp: resolveBase_def get_up spec_lookup_def versions_of_def
        split: if_splits sum.splits store_error.splits option.splits)
next
  case False
  obtain m m' where "GetVersion ops s p req = Inl (StoreFailure m)" "LatestVersion ops s p = Inl (StoreFailure m')"
    using get_down [OF assms(1) False] latest_down [OF assms(1) False] by blast
  with assms(2) show ?thesis by (simp add: resolveBase_def split: if_splits)
qed

lemma resolve_and_check_decides:
  assumes "inv s" and "resolve_and_check ops w s r = Reply (c, base, rep)"
  shows "decided w (abs s) r c base rep"
  using resolve_and_check_reply [OF assms(2)] resolveBase_stored [OF assms(1)]
  by (auto simp: decided_def split: sum.splits option.splits)

lemma put_version_reply:
  assumes "inv s" and "put_version ops w s r c = (s', res)"
  shows "inv s'" and "sp_Versions (abs s) \<subseteq>\<^sub>m sp_Versions (abs s')"
    and "\<And>b. res = Reply b \<Longrightarrow> holds (abs s') r c \<and> (b \<longrightarrow> sp_Versions (abs s) (request_key r) = None)"
proof -
  let ?v = "\<lparr>v_Package = rq_Package r, v_Version = rq_Version r, v_ContentHash = c_Hash c,
    v_DescriptorSet = c_DescriptorSet c, v_OwnedPaths = c_OwnedPaths c, v_CreatedAt = 0\<rparr>"
  obtain put where put: "PutVersion ops s ?v = (s', put)" and res: "\<And>b. res = Reply b \<Longrightarrow> put = Inr b"
    using assms(2) by (auto simp: put_version_def split: prod.splits sum.splits store_error.splits)
  show "inv s'" "sp_Versions (abs s) \<subseteq>\<^sub>m sp_Versions (abs s')" using put_frame [OF assms(1) put] by blast+
  fix b
  assume "res = Reply b"
  with put res have p: "PutVersion ops s ?v = (s', Inr b)" by simp
  then have "up s" using put_down [OF assms(1) _ p] by blast
  from put_up [OF assms(1) this p] show "holds (abs s') r c \<and> (b \<longrightarrow> sp_Versions (abs s) (request_key r) = None)"
    by (auto simp: holds_def request_key_def spec_PutVersion_def version_key_def split: option.splits if_splits)
qed

lemma log_and_reply_reply:
  assumes "inv s" and "log_and_reply ops s r c base rep created = (s', res)"
  shows "inv s' \<and> sp_Versions (abs s') = sp_Versions (abs s)"
    and "res = Reply resp \<Longrightarrow> rs_Compatibility resp = rep \<and> rs_AlreadyExisted resp = (\<not> created) \<and>
      rs_ContentHash resp = hex_EncodeToString (c_Hash c) \<and>
      rs_BaseVersion resp = (case base of None \<Rightarrow> '''' | Some b \<Rightarrow> v_Version b)"
  using assms report_frame [OF assms(1)]
  by (auto simp: log_and_reply_def split: sum.splits if_splits prod.splits)

lemma advance_frame:
  assumes "inv s" and "advance ops w s cl = (s', cl')" and "client_ok w (abs s) cl"
  shows "inv s' \<and> sp_Versions (abs s) \<subseteq>\<^sub>m sp_Versions (abs s') \<and> client_ok w (abs s') cl'"
proof (cases cl)
  case (Submitted r)
  then show ?thesis using assms resolve_and_check_decides [OF assms(1)] by (auto split: outcome.splits)
next
  case (Checked r c base rep)
  obtain res where put: "put_version ops w s r c = (s', res)"
    using assms(2) Checked by (cases "put_version ops w s r c") (auto split: outcome.splits)
  note p = put_version_reply [OF assms(1) put]
  from p Checked assms(2,3) put show ?thesis by (auto intro: decided_grow split: outcome.splits)
next
  case (Stored r c base rep created)
  obtain res where log: "log_and_reply ops s r c base rep created = (s', res)" and cl': "cl' = Answered r res"
    using assms(2) Stored by (auto split: prod.splits)
  note frame = log_and_reply_reply [OF assms(1) log]
  then have "sp_Versions (abs s) \<subseteq>\<^sub>m sp_Versions (abs s')" by simp
  moreover from this have "decided w (abs s') r c base rep" "holds (abs s') r c"
    using assms(3) Stored by (auto intro: decided_grow holds_grow)
  ultimately show ?thesis using frame cl' by (auto split: outcome.splits)
qed (use assms in simp)

lemma advance_creator:
  assumes "inv s" and "advance ops w s cl = (s', cl')" and "creator cl' = Some k"
  shows "creator cl = Some k \<or> sp_Versions (abs s) k = None"
proof (cases cl)
  case (Checked r c base rep)
  obtain res where put: "put_version ops w s r c = (s', res)"
    using assms(2) Checked by (cases "put_version ops w s r c") (auto split: outcome.splits)
  from put_version_reply [OF assms(1) put] Checked assms(2,3) put show ?thesis
    by (auto split: outcome.splits if_splits)
next
  case (Stored r c base rep created)
  obtain res where log: "log_and_reply ops s r c base rep created = (s', res)" and cl': "cl' = Answered r res"
    using assms(2) Stored by (auto split: prod.splits)
  from log_and_reply_reply(2) [OF assms(1) log] cl' Stored assms(3) show ?thesis
    by (cases res) (auto split: if_splits)
qed (use assms in \<open>auto split: outcome.splits\<close>)

lemma system_step_ok:
  assumes "system_step ops w env (s, cs) (s', cs')" and "inv s" and "system_ok w (abs s) cs"
  shows "inv s' \<and> sp_Versions (abs s) \<subseteq>\<^sub>m sp_Versions (abs s') \<and> system_ok w (abs s') cs'"
  using assms(1)
proof (rule system_stepE)
  fix i cl t
  assume "(s', cs') = (t, cs(i := cl))" and adv: "advance ops w s (cs i) = (t, cl)"
  then have eq: "s' = t" "cs' = cs(i := cl)" by simp_all
  have ok: "client_ok w (abs s) (cs j)" for j using assms(3) by (simp add: system_ok_def)
  note frame = advance_frame [OF assms(2) adv ok]
  have "creator cl = Some k \<Longrightarrow> creator (cs j) = Some k \<Longrightarrow> j = i" for j k
    using advance_creator [OF assms(2) adv] creator_holds [OF ok, of j k] assms(3) unfolding system_ok_def by metis
  with frame assms(3) show ?thesis
    unfolding eq system_ok_def by (auto intro: client_ok_grow)
next
  fix t
  assume "(s', cs') = (t, cs)" and "store_step ops env s t"
  with step_keeps [OF _ assms(2)] assms(3) show ?thesis
    by (auto simp: system_ok_def intro: client_ok_grow)
qed

lemma system_steps_ok:
  assumes "(system_step ops w env)\<^sup>*\<^sup>* (s, cs) (s', cs')" and "inv s" and "\<forall>i. \<exists>r. cs i = Submitted r"
  shows "inv s' \<and> sp_Versions (abs s) \<subseteq>\<^sub>m sp_Versions (abs s') \<and> system_ok w (abs s') cs'"
  using assms(1)
proof (induction rule: rtranclp_induct2)
  case refl
  have "client_ok w (abs s) (cs i)" "creator (cs i) = None" for i using assms(3) [THEN spec, of i] by auto
  then show ?case using assms(2) by (simp add: system_ok_def)
next
  case (step s1 cs1 s2 cs2)
  then show ?case using system_step_ok map_le_trans by metis
qed

end

subsection \<open>Concurrent registrations over PostgreSQL\<close>

lemma pg_abs_named: "b \<in> versions_of (pg_abs s) p \<Longrightarrow> sp_Versions (pg_abs s) (p, v_Version b) = Some b"
proof -
  assume "b \<in> versions_of (pg_abs s) p"
  then obtain n where b: "sp_Versions (pg_abs s) (p, n) = Some b" by (auto simp: versions_of_def)
  then obtain i z where "find (\<lambda>r. vr_package_id r = i \<and> vr_version r = n) (pg_versions s) = Some z" "b = row_version p z"
    by (auto simp: pg_abs_def split: option.splits)
  then have "v_Version b = n" by (auto simp: row_version_def dest: find_memD)
  with b show ?thesis by simp
qed

lemma pg_get_stored:
  assumes "pg_inv s" and "pg_down s = None" and "sp_Versions (pg_abs s) (p, n) = Some v"
  shows "pg_GetVersion s p n = Inr v"
  using pg.get_up [OF assms(1,2), of p n] assms(3) by (simp add: pg_ops_def spec_lookup_def)

text \<open>
  C4. Any number of registrations run at the same time, their store calls interleaved in any way
  with each other and with all other traffic, time passing and the database going away and coming
  back. Every registration that has been answered with success can be read back with the hash of
  its own sources and was told that hash; two successes for the same version had the same
  content, and at most one of them was told that it created the version.
\<close>
theorem concurrent_registrations:
  assumes "pg_inv s" and "\<forall>i. \<exists>r. cs i = Submitted r"
    and "(system_step pg_ops w pg_env)\<^sup>*\<^sup>* (s, cs) (s', cs')" and "pg_down s' = None"
    and "cs' i = Answered r (Reply resp)"
  shows "(\<exists>c v. Compile (w_tools w) (rq_Files r) = Inr c \<and> rs_ContentHash resp = hex_EncodeToString (c_Hash c) \<and>
      pg_GetVersion s' (rq_Package r) (rq_Version r) = Inr v \<and> v_ContentHash v = c_Hash c) \<and>
    (\<forall>j r' resp'. j \<noteq> i \<and> cs' j = Answered r' (Reply resp') \<and> rq_Package r' = rq_Package r \<and>
       rq_Version r' = rq_Version r \<longrightarrow>
         rs_ContentHash resp' = rs_ContentHash resp \<and> (rs_AlreadyExisted resp \<or> rs_AlreadyExisted resp'))"
proof -
  from pg_service.system_steps_ok [OF assms(3,1,2)] have inv: "pg_inv s'"
    and ok: "client_ok w (pg_abs s') (cs' j)"
    and one: "creator (cs' j) = Some k \<Longrightarrow> creator (cs' l) = Some k \<Longrightarrow> j = l" for j l k
    unfolding system_ok_def by blast+
  have held: "\<exists>c v. Compile (w_tools w) (rq_Files q) = Inr c \<and> rs_ContentHash a = hex_EncodeToString (c_Hash c) \<and>
      sp_Versions (pg_abs s') (rq_Package q, rq_Version q) = Some v \<and> v_ContentHash v = c_Hash c"
    if "cs' j = Answered q (Reply a)" for j q a
    using ok [of j] that by (auto simp: holds_def decided_def request_key_def)
  from held [OF assms(5)] pg_get_stored [OF inv assms(4)]
  have first: "\<exists>c v. Compile (w_tools w) (rq_Files r) = Inr c \<and> rs_ContentHash resp = hex_EncodeToString (c_Hash c) \<and>
      pg_GetVersion s' (rq_Package r) (rq_Version r) = Inr v \<and> v_ContentHash v = c_Hash c" by blast
  have "rs_ContentHash resp' = rs_ContentHash resp \<and> (rs_AlreadyExisted resp \<or> rs_AlreadyExisted resp')"
    if "j \<noteq> i" "cs' j = Answered r' (Reply resp')" "rq_Package r' = rq_Package r" "rq_Version r' = rq_Version r"
    for j r' resp'
  proof
    show "rs_ContentHash resp' = rs_ContentHash resp" using held [OF assms(5)] held [OF that(2)] that by auto
    have "request_key r' = request_key r" using that by (simp add: request_key_def)
    with one [of i "request_key r" j] assms(5) that(1,2) show "rs_AlreadyExisted resp \<or> rs_AlreadyExisted resp'"
      by (cases "rs_AlreadyExisted resp"; cases "rs_AlreadyExisted resp'"; simp)
  qed
  with first show ?thesis by blast
qed

definition race :: "nat \<Rightarrow> client" where
  "race = (\<lambda>_. Submitted (publish ''3.0'' ''v2'' '''' True))(0 := Submitted (publish ''2.0'' ''v1'' '''' True))"

text \<open>Client 1 reads its base before client 0 stores, and stores after it.\<close>

definition race_end :: "pgstore \<times> (nat \<Rightarrow> client)" where
  "race_end = run_schedule pg_ops pay_world [0, 1, 0, 0, 1, 1] (grown, race)"

lemma race_steps: "(system_step pg_ops pay_world pg_env)\<^sup>*\<^sup>* (grown, race) (fst race_end, snd race_end)"
  unfolding race_end_def prod.collapse by (rule run_schedule_steps)

lemma race_submitted: "\<forall>i. \<exists>r. race i = Submitted r"
  by (simp add: race_def)

lemma race_up: "pg_down (fst race_end) = None"
  by code_simp

lemma race_answers:
  "\<exists>resp. snd race_end 0 = Answered (publish ''2.0'' ''v1'' '''' True) (Reply resp) \<and>
     rs_BaseVersion resp = ''1.0'' \<and> \<not> rs_AlreadyExisted resp"
  "\<exists>resp. snd race_end 1 = Answered (publish ''3.0'' ''v2'' '''' True) (Reply resp) \<and>
     rs_BaseVersion resp = ''1.0'' \<and> \<not> rs_AlreadyExisted resp"
proof -
  have "(case snd race_end 0 of Answered r (Reply resp) \<Rightarrow> r = publish ''2.0'' ''v1'' '''' True \<and>
      rs_BaseVersion resp = ''1.0'' \<and> \<not> rs_AlreadyExisted resp | _ \<Rightarrow> False)"
    by code_simp
  then show "\<exists>resp. snd race_end 0 = Answered (publish ''2.0'' ''v1'' '''' True) (Reply resp) \<and>
     rs_BaseVersion resp = ''1.0'' \<and> \<not> rs_AlreadyExisted resp"
    by (auto split: client.splits outcome.splits)
  have "(case snd race_end 1 of Answered r (Reply resp) \<Rightarrow> r = publish ''3.0'' ''v2'' '''' True \<and>
      rs_BaseVersion resp = ''1.0'' \<and> \<not> rs_AlreadyExisted resp | _ \<Rightarrow> False)"
    by code_simp
  then show "\<exists>resp. snd race_end 1 = Answered (publish ''3.0'' ''v2'' '''' True) (Reply resp) \<and>
     rs_BaseVersion resp = ''1.0'' \<and> \<not> rs_AlreadyExisted resp"
    by (auto split: client.splits outcome.splits)
qed

theorem concurrent_registrations_witness:
  "\<exists>c v. Compile pay_toolchain [\<lparr>sf_Path = ''pay.proto'', sf_Content = ''v1''\<rparr>] = Inr c \<and>
     pg_GetVersion (fst race_end) ''acme.pay'' ''2.0'' = Inr v \<and> v_ContentHash v = c_Hash c"
proof -
  from race_answers(1) obtain resp
    where "snd race_end 0 = Answered (publish ''2.0'' ''v1'' '''' True) (Reply resp)" by blast
  from concurrent_registrations [OF grown_inv race_submitted race_steps race_up this]
  show ?thesis by (auto simp: publish_def pay_world_def)
qed

text \<open>
  C3. \<open>require_compatible\<close> is enforced, also among concurrent registrations: if a registration that
  requires compatibility has been answered and names a base version, then, whatever ran in
  between, that base is still stored as it was read, the attached report is the outcome of
  comparing the sources with it, and this report has no FAIL finding.
\<close>
theorem concurrent_compatibility_enforced:
  assumes "pg_inv s" and "\<forall>i. \<exists>r. cs i = Submitted r"
    and "(system_step pg_ops w pg_env)\<^sup>*\<^sup>* (s, cs) (s', cs')" and "pg_down s' = None"
    and "cs' i = Answered r (Reply resp)" and "rq_RequireCompatible r" and "rs_BaseVersion resp \<noteq> ''''"
  shows "\<exists>base c rep. pg_GetVersion s' (rq_Package r) (rs_BaseVersion resp) = Inr base \<and>
    Compile (w_tools w) (rq_Files r) = Inr c \<and> checkAgainst w base c (rq_Samples r) = Reply rep \<and>
    rs_Compatibility resp = Some rep \<and> (\<forall>f \<in> set (rep_Findings rep). f_Severity f \<noteq> SeverityFail)"
proof -
  from pg_service.system_steps_ok [OF assms(3,1,2)] have inv: "pg_inv s'" and "client_ok w (pg_abs s') (cs' i)"
    by (auto simp: system_ok_def)
  with assms(5-7) obtain b c rep where b: "b \<in> versions_of (pg_abs s') (rq_Package r)" "rs_BaseVersion resp = v_Version b"
    and c: "Compile (w_tools w) (rq_Files r) = Inr c" "checkAgainst w b c (rq_Samples r) = Reply rep"
      "rs_Compatibility resp = Some rep" "rep_Verdict rep \<noteq> VerdictIncompatible"
    by (auto simp: decided_def split: option.splits)
  have "pg_GetVersion s' (rq_Package r) (rs_BaseVersion resp) = Inr b"
    unfolding b(2) by (rule pg_get_stored [OF inv assms(4) pg_abs_named [OF b(1)]])
  moreover from checkAgainst_judged [OF c(2)] c(4) have "no_fail (rep_Findings rep)"
    by (simp add: verdictOf_incompatible)
  ultimately show ?thesis using c by (auto simp: no_fail_def)
qed

theorem concurrent_compatibility_enforced_witness:
  "\<exists>base c rep. pg_GetVersion (fst race_end) ''acme.pay'' ''1.0'' = Inr base \<and>
     Compile pay_toolchain [\<lparr>sf_Path = ''pay.proto'', sf_Content = ''v2''\<rparr>] = Inr c \<and>
     checkAgainst pay_world base c [] = Reply rep \<and> (\<forall>f \<in> set (rep_Findings rep). f_Severity f \<noteq> SeverityFail)"
proof -
  from race_answers(2) obtain resp where "rs_BaseVersion resp = ''1.0''"
    "snd race_end 1 = Answered (publish ''3.0'' ''v2'' '''' True) (Reply resp)" by blast
  with concurrent_compatibility_enforced [OF grown_inv race_submitted race_steps race_up this(2)]
  show ?thesis by (auto simp: publish_def pay_world_def)
qed


subsection \<open>A check repeats a registration\<close>

text \<open>The request that compares a registered version with the base its registration was compared with.\<close>

definition recheck :: "register_request \<Rightarrow> register_response \<Rightarrow> check_request" where
  "recheck r resp = \<lparr>ck_Package = rq_Package r, ck_BaseVersion = rs_BaseVersion resp, ck_CandidateVersion = rq_Version r,
     ck_CandidateFiles = [], ck_Samples = rq_Samples r, ck_Consumer = ''''\<rparr>"

lemma checkVersions_registered:
  assumes "Compile (w_tools w) fs = Inr c" and "v_DescriptorSet v = c_DescriptorSet c" and "v_OwnedPaths v = c_OwnedPaths c"
    and "checkAgainst w b c ss = Reply rep"
  shows "checkVersions w b v ss = Reply rep"
  using assms(1)
proof (rule Compile_Inr)
  assume "Load (w_tools w) (c_DescriptorSet c) = Inr (c_Files c)"
  with assms(2-4) show ?thesis by (auto simp: checkVersions_def checkAgainst_def split: sum.splits)
qed

context registry_service
begin

lemma recheck_same:
  assumes "inv s" and "up s" and "sp_Versions (abs s) (ck_Package q, ck_BaseVersion q) = Some b"
    and "sp_Versions (abs s) (ck_Package q, ck_CandidateVersion q) = Some v"
    and "checkVersions w b v (ck_Samples q) = Reply rep"
    and "ck_Package q \<noteq> ''''" "ck_BaseVersion q \<noteq> ''''" "ck_CandidateVersion q \<noteq> ''''" "ck_Consumer q = ''''"
  shows "\<exists>resp. snd (CheckCompatibility ops w s q) = Reply resp \<and> cp_Report resp = Some rep"
proof -
  have "GetVersion ops s (ck_Package q) (ck_BaseVersion q) = Inr b"
    "GetVersion ops s (ck_Package q) (ck_CandidateVersion q) = Inr v"
    using assms(1-4) by (simp_all add: get_up spec_lookup_def)
  moreover obtain s' where "PutReport ops s \<lparr>st_Package = ck_Package q, st_BaseVersion = v_Version b,
      st_HeadVersion = v_Version v, st_Report = Some rep, st_CreatedAt = 0\<rparr> = Inr (s', None)"
    using report_up [OF assms(1,2), of "\<lparr>st_Package = ck_Package q, st_BaseVersion = v_Version b,
      st_HeadVersion = v_Version v, st_Report = Some rep, st_CreatedAt = 0\<rparr>"] by auto
  ultimately show ?thesis
    using assms(5-9) by (simp add: CheckCompatibility_def candidate_report_def Let_def)
qed

lemma register_created:
  assumes "inv s" and "RegisterVersion ops w s r = (s', Reply resp)" and "\<not> rs_AlreadyExisted resp"
    and "rs_BaseVersion resp \<noteq> ''''"
  obtains c b rep where "Compile (w_tools w) (rq_Files r) = Inr c" "inv s'" "b \<in> versions_of (abs s') (rq_Package r)"
    "rs_BaseVersion resp = v_Version b" "checkAgainst w b c (rq_Samples r) = Reply rep" "rs_Compatibility resp = Some rep"
    "sp_Versions (abs s') (rq_Package r, rq_Version r) = Some (registered r c (now s))"
    "rq_Package r \<noteq> ''''" "rq_Version r \<noteq> ''''"
proof -
  obtain c base rep where check: "resolve_and_check ops w s r = Reply (c, base, rep)"
    and store: "store_version ops w s r c base rep = (s', Reply resp)"
    using assms(2) by (auto simp: RegisterVersion_def split: outcome.splits)
  have reply: "rs_BaseVersion resp = (case base of None \<Rightarrow> '''' | Some b \<Rightarrow> v_Version b)"
    using store by (auto simp: store_version_defs split: prod.splits sum.splits outcome.splits if_splits store_error.splits)
  from store_version_outcome [OF assms(1) store] have out: "inv s'" "rs_Compatibility resp = rep"
    "sp_Versions (abs s') = (sp_Versions (abs s))((rq_Package r, rq_Version r) \<mapsto> registered r c (now s))"
    "sp_Versions (abs s) (rq_Package r, rq_Version r) = None"
    using assms(3) by auto
  have "decided w (abs s) r c base rep" by (rule resolve_and_check_decides [OF assms(1) check])
  then have dec: "decided w (abs s') r c base rep"
    by (rule decided_grow) (use out(3,4) in \<open>auto simp: map_le_def\<close>)
  from reply assms(4) obtain b where b: "base = Some b" by (auto split: option.splits)
  with dec obtain report where d: "Compile (w_tools w) (rq_Files r) = Inr c" "b \<in> versions_of (abs s') (rq_Package r)"
    "rep = Some report" "checkAgainst w b c (rq_Samples r) = Reply report"
    by (auto simp: decided_def)
  have "rq_Package r \<noteq> ''''" "rq_Version r \<noteq> ''''"
    using check by (auto simp: resolve_and_check_def split: if_splits)
  with d reply b out show thesis by (intro that [of c b report]) simp_all
qed

end




end
