(* ===== verification/Regress.thy ===== *)
theory Regress
  imports Check Schema Paths
begin

text \<open>
  The regression runner, \<open>internal/regress/regress.go\<close>. The file system and the decoding of
  \<open>case.json\<close> are the record \<open>host\<close>: what reading a file, asking whether one exists, listing a
  directory and walking a tree answer. A walk is the list of the calls that \<open>filepath.WalkDir\<close>
  makes to its callback, in order. Verdicts and severities in \<open>case.json\<close> are any strings.
\<close>

record expected_finding =
  xf_Code :: string
  xf_Path :: string
  xf_Severity :: string

record expectation =
  ex_Verdict :: string
  ex_Findings :: "expected_finding list"

record kase =
  k_Name :: string
  k_Description :: string
  k_Samples :: "sample list"
  k_Expect :: expectation

record result =
  r_Case :: kase
  r_Dir :: string
  r_Passed :: bool
  r_Problems :: "string list"
  r_Report :: report

record walk_entry =
  we_Path :: string
  we_IsDir :: bool
  we_Err :: "string option"

record host =
  h_ReadFile :: "string \<Rightarrow> string + string"
  h_Stat :: "string \<Rightarrow> bool"
  h_ReadDir :: "string \<Rightarrow> string + (string \<times> bool) list"
  h_WalkDir :: "string \<Rightarrow> walk_entry list"
  h_parseCase :: "string \<Rightarrow> string + kase"

datatype 'a progress = Done 'a | Failed string | Panicked fault

subsection \<open>Matching findings\<close>

definition pathMatches :: "string \<Rightarrow> finding \<Rightarrow> bool" where
  "pathMatches want f \<longleftrightarrow>
     want = f_Path f \<or> want = f_Message f \<or>
     (f_Message f \<noteq> '''' \<and> f_Path f \<noteq> '''' \<and> want = f_Message f @ ''.'' @ f_Path f)"

definition displayPath :: "finding \<Rightarrow> string" where
  "displayPath f =
     (if f_Message f = '''' then f_Path f
      else if f_Path f = '''' then f_Message f
      else f_Message f @ ''.'' @ f_Path f)"

fun find_loop :: "expected_finding \<Rightarrow> finding list \<Rightarrow> bool" where
  "find_loop want [] = False"
| "find_loop want (f # fs) =
     (if f_Code f \<noteq> xf_Code want then find_loop want fs
      else if xf_Path want \<noteq> '''' \<and> \<not> pathMatches (xf_Path want) f then find_loop want fs
      else if xf_Severity want \<noteq> '''' \<and> severity_str (f_Severity f) \<noteq> xf_Severity want then find_loop want fs
      else True)"

definition hasFinding :: "result \<Rightarrow> expected_finding \<Rightarrow> bool" where
  "hasFinding r want = find_loop want (rep_Findings (r_Report r))"

fun expect_loop :: "expected_finding list \<Rightarrow> finding \<Rightarrow> bool" where
  "expect_loop [] f = False"
| "expect_loop (want # wants) f =
     (if xf_Code want \<noteq> f_Code f then expect_loop wants f
      else if xf_Path want \<noteq> '''' \<and> \<not> pathMatches (xf_Path want) f then expect_loop wants f
      else True)"

definition expected :: "result \<Rightarrow> finding \<Rightarrow> bool" where
  "expected r f = expect_loop (ex_Findings (k_Expect (r_Case r))) f"

definition evaluate :: "go_env \<Rightarrow> result \<Rightarrow> result" where
  "evaluate e r =
     (let want = k_Expect (r_Case r);
          verdict = verdict_str (rep_Verdict (r_Report r));
          problems = r_Problems r @
            (if verdict \<noteq> ex_Verdict want
             then [sprintf e ''verdict: got %s, want %s'' [AStr verdict, AStr (ex_Verdict want)]] else []) @
            concat (map (\<lambda>x. if \<not> hasFinding r x
              then [sprintf e ''missing expected finding: code=%s path=%q severity=%s''
                      [AStr (xf_Code x), AStr (xf_Path x), AStr (xf_Severity x)]] else []) (ex_Findings want)) @
            concat (map (\<lambda>f. if f_Severity f = SeverityInfo then []
              else if \<not> expected r f
              then [sprintf e ''unexpected %s finding: %s at %s (%s)''
                      [AStr (severity_str (f_Severity f)), AStr (f_Code f), AStr (displayPath f), AStr (f_Detail f)]]
              else []) (rep_Findings (r_Report r))) in
      r\<lparr>r_Problems := problems, r_Passed := (problems = [])\<rparr>)"

subsection \<open>Loading a tree\<close>

definition HasSuffix :: "string \<Rightarrow> string \<Rightarrow> bool" where
  "HasSuffix s suffix \<longleftrightarrow> length s \<ge> length suffix \<and> drop (length s - length suffix) s = suffix"

fun load_loop :: "host \<Rightarrow> string \<Rightarrow> walk_entry list \<Rightarrow> source_file list \<Rightarrow> string + source_file list" where
  "load_loop h root [] files = Inr files"
| "load_loop h root (d # ds) files =
     (case we_Err d of
        Some err \<Rightarrow> Inl err
      | None \<Rightarrow>
          if we_IsDir d \<or> \<not> HasSuffix (we_Path d) ''.proto'' then load_loop h root ds files
          else
            (case h_ReadFile h (we_Path d) of
               Inl err \<Rightarrow> Inl err
             | Inr content \<Rightarrow>
                 (case Rel root (we_Path d) of
                    Inl err \<Rightarrow> Inl err
                  | Inr rel \<Rightarrow> load_loop h root ds (files @ [\<lparr>sf_Path = rel, sf_Content = content\<rparr>]))))"

definition LoadTree :: "go_env \<Rightarrow> host \<Rightarrow> string \<Rightarrow> string + source_file list" where
  "LoadTree e h root =
     (case load_loop h root (h_WalkDir h root) [] of
        Inl err \<Rightarrow> Inl err
      | Inr files \<Rightarrow>
          if files = [] then Inl (sprintf e ''no .proto files under %s'' [AStr root])
          else Inr (sort_key sf_Path files))"

subsection \<open>Running cases\<close>

definition RunCase :: "go_env \<Rightarrow> codec \<Rightarrow> toolchain \<Rightarrow> host \<Rightarrow> string \<Rightarrow> result progress" where
  "RunCase e cd tc h dir =
     (case h_ReadFile h (Join dir ''case.json'') of
        Inl err \<Rightarrow> Failed (sprintf e ''read case.json: %w'' [AStr err])
      | Inr raw \<Rightarrow>
     (case h_parseCase h raw of
        Inl err \<Rightarrow> Failed (sprintf e ''parse case.json: %w'' [AStr err])
      | Inr k \<Rightarrow>
     (case LoadTree e h (Join dir ''old'') of
        Inl err \<Rightarrow> Failed (sprintf e ''load old tree: %w'' [AStr err])
      | Inr oldFiles \<Rightarrow>
     (case LoadTree e h (Join dir ''new'') of
        Inl err \<Rightarrow> Failed (sprintf e ''load new tree: %w'' [AStr err])
      | Inr newTree \<Rightarrow>
     (case Compile tc oldFiles of
        Inl err \<Rightarrow> Failed (sprintf e ''compile old schema: %w'' [AStr (schema_Error e err)])
      | Inr oldCompiled \<Rightarrow>
     (case Compile tc newTree of
        Inl err \<Rightarrow> Failed (sprintf e ''compile new schema: %w'' [AStr (schema_Error e err)])
      | Inr newCompiled \<Rightarrow>
     (case Check e cd \<lparr>in_Old = c_Files oldCompiled, in_New = c_Files newCompiled,
          in_OwnedPaths = c_OwnedPaths oldCompiled @ c_OwnedPaths newCompiled, in_Samples = k_Samples k\<rparr> of
        Inl p \<Rightarrow> Panicked p
      | Inr report \<Rightarrow>
          Done (evaluate e \<lparr>r_Case = k, r_Dir = dir, r_Passed = False, r_Problems = [], r_Report = report\<rparr>))))))))"

fun run_loop :: "go_env \<Rightarrow> codec \<Rightarrow> toolchain \<Rightarrow> host \<Rightarrow> string \<Rightarrow> (string \<times> bool) list \<Rightarrow> result list \<Rightarrow>
    result list progress" where
  "run_loop e cd tc h root [] results = Done results"
| "run_loop e cd tc h root ((name, isDir) # entries) results =
     (if \<not> isDir then run_loop e cd tc h root entries results
      else if \<not> h_Stat h (Join (Join root name) ''case.json'') then run_loop e cd tc h root entries results
      else
        (case RunCase e cd tc h (Join root name) of
           Panicked p \<Rightarrow> Panicked p
         | Failed err \<Rightarrow> Failed (sprintf e ''case %s: %w'' [AStr name, AStr err])
         | Done res \<Rightarrow> run_loop e cd tc h root entries (results @ [res])))"

definition RunDir :: "go_env \<Rightarrow> codec \<Rightarrow> toolchain \<Rightarrow> host \<Rightarrow> string \<Rightarrow> result list progress" where
  "RunDir e cd tc h root =
     (if h_Stat h (Join root ''case.json'') then
        (case RunCase e cd tc h root of
           Panicked p \<Rightarrow> Panicked p | Failed err \<Rightarrow> Failed err | Done res \<Rightarrow> Done [res])
      else
        (case h_ReadDir h root of
           Inl err \<Rightarrow> Failed err
         | Inr entries \<Rightarrow>
             (case run_loop e cd tc h root entries [] of
                Panicked p \<Rightarrow> Panicked p
              | Failed err \<Rightarrow> Failed err
              | Done results \<Rightarrow>
                  if results = [] then Failed (sprintf e ''no cases found under %s'' [AStr root])
                  else Done results)))"


subsection \<open>What passing means\<close>

text \<open>An expectation and a finding agree on code and path; the path may be left out.\<close>

definition names_finding :: "expected_finding \<Rightarrow> finding \<Rightarrow> bool" where
  "names_finding want f \<longleftrightarrow> xf_Code want = f_Code f \<and> (xf_Path want = '''' \<or> pathMatches (xf_Path want) f)"

lemma hasFinding_iff:
  "hasFinding r want \<longleftrightarrow> (\<exists>f \<in> set (rep_Findings (r_Report r)). names_finding want f \<and>
     (xf_Severity want = '''' \<or> xf_Severity want = severity_str (f_Severity f)))"
proof -
  have "find_loop want fs \<longleftrightarrow> (\<exists>f \<in> set fs. names_finding want f \<and>
      (xf_Severity want = '''' \<or> xf_Severity want = severity_str (f_Severity f)))" for fs
    by (induction fs) (auto simp: names_finding_def)
  then show ?thesis by (simp add: hasFinding_def)
qed

lemma expected_iff: "expected r f \<longleftrightarrow> (\<exists>want \<in> set (ex_Findings (k_Expect (r_Case r))). names_finding want f)"
proof -
  have "expect_loop wants f \<longleftrightarrow> (\<exists>want \<in> set wants. names_finding want f)" for wants
    by (induction wants) (auto simp: names_finding_def)
  then show ?thesis by (simp add: expected_def)
qed

lemma no_problem: "concat (map (\<lambda>x. if \<not> P x then [g x] else []) xs) = [] \<longleftrightarrow> (\<forall>x \<in> set xs. P x)"
  by (induction xs) auto

lemma no_problem_unless:
  "concat (map (\<lambda>x. if Q x then [] else if \<not> P x then [g x] else []) xs) = [] \<longleftrightarrow> (\<forall>x \<in> set xs. \<not> Q x \<longrightarrow> P x)"
  by (induction xs) auto

lemma evaluate_passed:
  assumes "r_Problems r = []"
  shows "r_Passed (evaluate e r) \<longleftrightarrow>
    verdict_str (rep_Verdict (r_Report r)) = ex_Verdict (k_Expect (r_Case r)) \<and>
    (\<forall>want \<in> set (ex_Findings (k_Expect (r_Case r))). hasFinding r want) \<and>
    (\<forall>f \<in> set (rep_Findings (r_Report r)). f_Severity f \<noteq> SeverityInfo \<longrightarrow> expected r f)"
  using assms by (simp add: evaluate_def Let_def no_problem no_problem_unless del: concat_eq_Nil_conv)

lemma RunCase_Done:
  assumes "RunCase e cd tc h dir = Done res"
  obtains r where "res = evaluate e r" "r_Problems r = []"
proof -
  from assms have "\<exists>k report. res = evaluate e \<lparr>r_Case = k, r_Dir = dir, r_Passed = False, r_Problems = [],
      r_Report = report\<rparr>"
    unfolding RunCase_def by (simp split: sum.split_asm) blast
  then show thesis using that by force
qed

lemma evaluate_frame: "r_Report (evaluate e r) = r_Report r" "r_Case (evaluate e r) = r_Case r"
  by (simp_all add: evaluate_def Let_def)

text \<open>
  C33. A case that ran passed exactly when the verdict is the expected one, every expected finding
  was reported (with the expected severity where one is given), and every WARN or FAIL finding
  of the report is named by some expectation: silence about a finding is not a pass.
\<close>
theorem case_passed_iff:
  assumes "RunCase e cd tc h dir = Done res"
  shows "r_Passed res \<longleftrightarrow>
    verdict_str (rep_Verdict (r_Report res)) = ex_Verdict (k_Expect (r_Case res)) \<and>
    (\<forall>want \<in> set (ex_Findings (k_Expect (r_Case res))). \<exists>f \<in> set (rep_Findings (r_Report res)).
       names_finding want f \<and> (xf_Severity want = '''' \<or> xf_Severity want = severity_str (f_Severity f))) \<and>
    (\<forall>f \<in> set (rep_Findings (r_Report res)). f_Severity f \<noteq> SeverityInfo \<longrightarrow>
       (\<exists>want \<in> set (ex_Findings (k_Expect (r_Case res))). names_finding want f))"
  using assms
proof (rule RunCase_Done)
  fix r
  assume "res = evaluate e r" and "r_Problems r = []"
  then show ?thesis by (simp only: evaluate_passed evaluate_frame hasFinding_iff expected_iff)
qed

subsection \<open>What a loaded tree holds\<close>

definition kept :: "walk_entry \<Rightarrow> bool" where
  "kept d \<longleftrightarrow> \<not> we_IsDir d \<and> HasSuffix (we_Path d) ''.proto''"

definition entry_file :: "host \<Rightarrow> string \<Rightarrow> walk_entry \<Rightarrow> source_file" where
  "entry_file h root d = \<lparr>sf_Path = projr (Rel root (we_Path d)), sf_Content = projr (h_ReadFile h (we_Path d))\<rparr>"

lemma load_loop_files:
  "load_loop h root ds files = Inr fs \<Longrightarrow> fs = files @ map (entry_file h root) (filter kept ds)"
proof (induction ds arbitrary: files)
  case (Cons d ds)
  show ?case
  proof (cases "kept d")
    case True
    with Cons.prems obtain content p where "h_ReadFile h (we_Path d) = Inr content" "Rel root (we_Path d) = Inr p"
      "load_loop h root ds (files @ [\<lparr>sf_Path = p, sf_Content = content\<rparr>]) = Inr fs"
      by (auto simp: kept_def split: option.splits sum.splits)
    then show ?thesis using Cons.IH True by (fastforce simp: entry_file_def)
  next
    case False
    with Cons.prems have "load_loop h root ds files = Inr fs"
      by (auto simp: kept_def split: option.splits if_splits sum.splits)
    with Cons.IH False show ?thesis by simp
  qed
qed simp

lemma load_loop_read:
  "load_loop h root ds files = Inr fs \<Longrightarrow> d \<in> set ds \<Longrightarrow> kept d \<Longrightarrow> \<exists>content. h_ReadFile h (we_Path d) = Inr content"
proof (induction ds arbitrary: files)
  case (Cons a ds)
  then show ?case by (auto simp: kept_def split: option.splits if_splits sum.splits)
qed simp

text \<open>What \<open>WalkDir\<close> promises for a directory: the files it visits are distinct paths below the root.\<close>

definition walks_below :: "host \<Rightarrow> string \<Rightarrow> bool" where
  "walks_below h root \<longleftrightarrow>
     (let files = filter (\<lambda>d. \<not> we_IsDir d) (h_WalkDir h root) in
      distinct (map we_Path files) \<and>
      (\<forall>d \<in> set files. \<exists>ps. ps \<noteq> [] \<and> list_all plain_part ps \<and> we_Path d = Join root (join_slash ps)))"

lemma walks_below_rel:
  assumes "walks_below h root" and "d \<in> set (filter kept (h_WalkDir h root))"
  shows "sf_Path (entry_file h root d) \<noteq> '''' \<and> we_Path d = Join root (sf_Path (entry_file h root d)) \<and>
    Rel root (we_Path d) = Inr (sf_Path (entry_file h root d))"
proof -
  from assms obtain ps where ps: "ps \<noteq> []" "list_all plain_part ps" "we_Path d = Join root (join_slash ps)"
    by (auto simp: walks_below_def Let_def kept_def)
  have "join_slash ps \<noteq> ''''"
    using ps(1,2) by (cases ps rule: join_slash.cases) (auto simp: plain_part_def)
  with Rel_Join [OF ps(1,2), of root] ps(3) show ?thesis by (simp add: entry_file_def)
qed

text \<open>
  C34. What loading a tree returns: the files are sorted by path, the paths are not empty and
  distinct, so the list passes the validation of \<open>Compile\<close>; and it has one entry for every file
  below the root whose name ends in \<open>.proto\<close>, under its path relative to the root and with its
  content, and no other. The walk is assumed to visit distinct files below the root.
\<close>
theorem LoadTree_holds_the_tree:
  assumes "LoadTree e h root = Inr files" and "walks_below h root"
  shows "sorted (map sf_Path files) \<and> valid_sources files \<and>
    (\<forall>p c. \<lparr>sf_Path = p, sf_Content = c\<rparr> \<in> set files \<longleftrightarrow>
       (\<exists>d \<in> set (h_WalkDir h root). kept d \<and> Rel root (we_Path d) = Inr p \<and> we_Path d = Join root p \<and>
          h_ReadFile h (we_Path d) = Inr c))"
proof -
  let ?ds = "filter kept (h_WalkDir h root)"
  from assms(1) obtain fs where loop: "load_loop h root (h_WalkDir h root) [] = Inr fs"
    and fs: "fs \<noteq> []" "files = sort_key sf_Path fs"
    by (auto simp: LoadTree_def split: sum.splits if_splits)
  have map: "fs = map (entry_file h root) ?ds" using load_loop_files [OF loop] by simp
  have rel: "sf_Path (entry_file h root d) \<noteq> ''''" "we_Path d = Join root (sf_Path (entry_file h root d))"
    "Rel root (we_Path d) = Inr (sf_Path (entry_file h root d))"
    if "d \<in> set ?ds" for d
    using walks_below_rel [OF assms(2) that] by blast+
  have "?ds = filter kept (filter (\<lambda>d. \<not> we_IsDir d) (h_WalkDir h root))"
    by (auto simp: kept_def intro: filter_cong)
  then have "distinct (map we_Path ?ds)"
    using assms(2) by (metis distinct_map_filter walks_below_def)
  then have "distinct (map sf_Path fs)"
    unfolding map using rel(2) by (auto simp: distinct_map inj_on_def)
  moreover have "\<forall>f \<in> set fs. sf_Path f \<noteq> ''''" unfolding map using rel(1) by auto
  moreover have "files \<noteq> []" using fs by (metis set_empty set_sort)
  ultimately have "valid_sources files" using fs(2) by (simp add: valid_sources_def distinct_map)
  moreover have "\<lparr>sf_Path = p, sf_Content = c\<rparr> \<in> set files \<longleftrightarrow>
       (\<exists>d \<in> set (h_WalkDir h root). kept d \<and> Rel root (we_Path d) = Inr p \<and> we_Path d = Join root p \<and>
          h_ReadFile h (we_Path d) = Inr c)" for p c
  proof
    assume "\<lparr>sf_Path = p, sf_Content = c\<rparr> \<in> set files"
    then obtain d where d: "d \<in> set ?ds" "entry_file h root d = \<lparr>sf_Path = p, sf_Content = c\<rparr>"
      unfolding fs(2) map by auto
    have "we_Path d = Join root p" "Rel root (we_Path d) = Inr p"
      using rel(2,3) [OF d(1)] unfolding d(2) by simp_all
    moreover obtain content where "h_ReadFile h (we_Path d) = Inr content" using load_loop_read [OF loop, of d] d(1) by auto
    moreover from this d(2) have "content = c" by (simp add: entry_file_def)
    ultimately show "\<exists>d \<in> set (h_WalkDir h root). kept d \<and>
        Rel root (we_Path d) = Inr p \<and> we_Path d = Join root p \<and> h_ReadFile h (we_Path d) = Inr c"
      using d(1) by auto
  next
    assume "\<exists>d \<in> set (h_WalkDir h root). kept d \<and> Rel root (we_Path d) = Inr p \<and> we_Path d = Join root p \<and>
      h_ReadFile h (we_Path d) = Inr c"
    then obtain d where "d \<in> set ?ds" "entry_file h root d = \<lparr>sf_Path = p, sf_Content = c\<rparr>"
      by (auto simp: entry_file_def)
    then show "\<lparr>sf_Path = p, sf_Content = c\<rparr> \<in> set files" unfolding fs(2) map by force
  qed
  ultimately show ?thesis using fs by simp
qed

subsection \<open>A concrete case\<close>

text \<open>A directory with two trees of one file each; the removal of a field is expected to break.\<close>

definition tree_entry :: "string \<Rightarrow> bool \<Rightarrow> walk_entry" where
  "tree_entry p d = \<lparr>we_Path = p, we_IsDir = d, we_Err = None\<rparr>"

definition removal_case :: kase where
  "removal_case = \<lparr>k_Name = ''field removed'', k_Description = [], k_Samples = [],
     k_Expect = \<lparr>ex_Verdict = ''INCOMPATIBLE'', ex_Findings = [\<lparr>xf_Code = ''FIELD_REMOVED_UNRESERVED'',
       xf_Path = ''pay.Invoice.note'', xf_Severity = ''FAIL''\<rparr>]\<rparr>\<rparr>"

definition case_host :: host where
  "case_host =
     \<lparr>h_ReadFile = (\<lambda>p. if p = ''cases/rm/case.json'' then Inr ''{}''
        else if p = ''cases/rm/old/pay.proto'' then Inr ''v1''
        else if p = ''cases/rm/new/pay.proto'' then Inr ''v2'' else Inl ''no such file''),
      h_Stat = (\<lambda>p. p = ''cases/rm/case.json''),
      h_ReadDir = (\<lambda>p. if p = ''cases'' then Inr [(''README'', False), (''rm'', True)] else Inl ''no such directory''),
      h_WalkDir = (\<lambda>p. [tree_entry p True, tree_entry (p @ ''/notes.txt'') False, tree_entry (p @ ''/pay.proto'') False]),
      h_parseCase = (\<lambda>_. Inr removal_case)\<rparr>"

definition case_toolchain :: toolchain where
  "case_toolchain =
     \<lparr>protocompile = (\<lambda>srcs eps. Inr (map (\<lambda>p. LinkedFile p []
        (no_desc\<lparr>file_Package := (case srcs p of Some c \<Rightarrow> c | None \<Rightarrow> [])\<rparr>)) eps)),
      toFileDescriptorProto = (\<lambda>lf. \<lparr>fdp_Name = lf_Path lf, fdp_Rest = file_Package (lf_Desc lf)\<rparr>),
      marshalFile = (\<lambda>fdp. Inr (fdp_Rest fdp)), sha256 = (\<lambda>s. s),
      marshalSet = (\<lambda>ps. Inr (concat (map fdp_Rest ps))),
      unmarshalSet = (\<lambda>b. Inr [\<lparr>fdp_Name = ''pay.proto'', fdp_Rest = b\<rparr>]),
      newFiles = (\<lambda>ps. if map fdp_Rest ps = [''v1''] then Inr closure_v1 else Inr closure_v2)\<rparr>"

lemma case_runs:
  "(case RunCase plain_env (fixed_codec hits) case_toolchain case_host ''cases/rm'' of
      Done res \<Rightarrow> r_Passed res \<and> r_Problems res = [] | _ \<Rightarrow> False)"
  by code_simp

theorem case_passed_iff_witness:
  "\<exists>res. RunCase plain_env (fixed_codec hits) case_toolchain case_host ''cases/rm'' = Done res \<and> r_Passed res \<and>
     verdict_str (rep_Verdict (r_Report res)) = ex_Verdict (k_Expect (r_Case res))"
proof -
  from case_runs obtain res where run: "RunCase plain_env (fixed_codec hits) case_toolchain case_host ''cases/rm'' = Done res"
    and "r_Passed res" by (auto split: progress.splits)
  with case_passed_iff [OF run] show ?thesis by blast
qed

theorem LoadTree_holds_the_tree_witness:
  "valid_sources [\<lparr>sf_Path = ''pay.proto'', sf_Content = ''v1''\<rparr>]"
proof -
  have load: "LoadTree plain_env case_host ''cases/rm/old'' = Inr [\<lparr>sf_Path = ''pay.proto'', sf_Content = ''v1''\<rparr>]"
    by code_simp
  have join: "Join ''cases/rm/old'' (join_slash [''pay.proto'']) = ''cases/rm/old/pay.proto''"
    "Join ''cases/rm/old'' (join_slash [''notes.txt'']) = ''cases/rm/old/notes.txt''"
    by code_simp+
  have "walks_below case_host ''cases/rm/old''"
  proof -
    have "\<exists>ps. ps \<noteq> [] \<and> list_all plain_part ps \<and> ''cases/rm/old/'' @ f = Join ''cases/rm/old'' (join_slash ps)"
      if "f = ''pay.proto'' \<or> f = ''notes.txt''" for f
      using that join by (intro exI [of _ "[f]"]) (auto simp: plain_part_def)
    from this [of "''pay.proto''"] this [of "''notes.txt''"] show ?thesis
      by (simp add: walks_below_def Let_def case_host_def tree_entry_def)
  qed
  from LoadTree_holds_the_tree [OF load this] show ?thesis by blast
qed

end
