(* ===== verification/CLI.thy ===== *)
theory CLI
  imports Regress
begin

text \<open>
  The command \<open>compatcheck\<close>, \<open>cmd/compatcheck/main.go\<close>: the arguments, the two subcommands, what they
  print to the standard output and the exit status. Parsing follows Go's \<open>flag\<close> package with
  \<open>ExitOnError\<close>: a malformed or unknown flag ends the process with status 2 and \<open>-h\<close> with status
  0. Messages on the standard error are left out. A panic is \<open>Inl\<close>. JSON is a parameter:
  decoding the file of samples and printing a report with indentation.
\<close>

subsection \<open>Flags\<close>

datatype parsed = Parsed "(string \<times> string) list" "string list" | ExitWith nat

definition ParseBool :: "string \<Rightarrow> bool option" where
  "ParseBool s =
     (if s \<in> {''1'', ''t'', ''T'', ''TRUE'', ''true'', ''True''} then Some True
      else if s \<in> {''0'', ''f'', ''F'', ''FALSE'', ''false'', ''False''} then Some False else None)"

definition split_value :: "string \<Rightarrow> string \<times> string option" where
  "split_value s =
     (if CHR ''='' \<in> set s
      then (takeWhile (\<lambda>c. c \<noteq> CHR ''='') s, Some (tl (dropWhile (\<lambda>c. c \<noteq> CHR ''='') s)))
      else (s, None))"

text \<open>The specification of a flag set says which flags are Boolean; values are kept as strings.\<close>

fun parse_flags :: "(string \<times> bool) list \<Rightarrow> string list \<Rightarrow> (string \<times> string) list \<Rightarrow> parsed" where
  "parse_flags spec [] vals = Parsed vals []"
| "parse_flags spec (s # args) vals =
     (if length s < 2 \<or> hd s \<noteq> CHR ''-'' then Parsed vals (s # args)
      else if s = ''--'' then Parsed vals args
      else
        (let body = (if s ! 1 = CHR ''-'' then drop 2 s else drop 1 s) in
         if body = '''' \<or> hd body = CHR ''-'' \<or> hd body = CHR ''='' then ExitWith 2
         else
           (let (name, value) = split_value body in
            case map_of spec name of
              None \<Rightarrow> if name = ''help'' \<or> name = ''h'' then ExitWith 0 else ExitWith 2
            | Some isBool \<Rightarrow>
                if isBool then
                  (case value of
                     None \<Rightarrow> parse_flags spec args (AList.update name ''true'' vals)
                   | Some v \<Rightarrow>
                       (case ParseBool v of
                          None \<Rightarrow> ExitWith 2
                        | Some b \<Rightarrow> parse_flags spec args (AList.update name (show_bool b) vals)))
                else
                  (case value of
                     Some v \<Rightarrow> parse_flags spec args (AList.update name v vals)
                   | None \<Rightarrow>
                       (case args of
                          [] \<Rightarrow> ExitWith 2
                        | v # args' \<Rightarrow> parse_flags spec args' (AList.update name v vals))))))"

definition flag_value :: "(string \<times> string) list \<Rightarrow> string \<Rightarrow> string" where
  "flag_value vals name = (case map_of vals name of None \<Rightarrow> '''' | Some v \<Rightarrow> v)"

subsection \<open>compatcheck run\<close>

record json_codec =
  js_Indent :: "string \<Rightarrow> string \<Rightarrow> report \<Rightarrow> string"
  js_Samples :: "string \<Rightarrow> string + sample list"

definition nl :: string where "nl = [CHR 0x0A]"

definition run_spec :: "(string \<times> bool) list" where
  "run_spec = [(''v'', True)]"

definition run_line :: "go_env \<Rightarrow> json_codec \<Rightarrow> bool \<Rightarrow> result \<Rightarrow> string" where
  "run_line e js verbose res =
     (if r_Passed res then
        sprintf e (''PASS %s (verdict=%s)'' @ nl) [AStr (k_Name (r_Case res)), AStr (verdict_str (rep_Verdict (r_Report res)))]
      else
        sprintf e (''FAIL %s'' @ nl) [AStr (k_Name (r_Case res))] @
        concat (map (\<lambda>p. sprintf e (''     - %s'' @ nl) [AStr p]) (r_Problems res)) @
        (if verbose then sprintf e (''     report: %s'' @ nl) [AStr (js_Indent js ''     '' ''  '' (r_Report res))] else ''''))"

fun run_results :: "go_env \<Rightarrow> json_codec \<Rightarrow> bool \<Rightarrow> result list \<Rightarrow> nat \<times> nat \<times> string \<Rightarrow> nat \<times> nat \<times> string" where
  "run_results e js verbose [] st = st"
| "run_results e js verbose (res # rs) (passed, failed, stdout) =
     run_results e js verbose rs
       (if r_Passed res then (passed + 1, failed, stdout @ run_line e js verbose res)
        else (passed, failed + 1, stdout @ run_line e js verbose res))"

definition runCases :: "go_env \<Rightarrow> codec \<Rightarrow> toolchain \<Rightarrow> host \<Rightarrow> json_codec \<Rightarrow> string list \<Rightarrow> fault + nat \<times> string" where
  "runCases e cd tc h js args =
     (case parse_flags run_spec args [(''v'', ''false'')] of
        ExitWith n \<Rightarrow> Inr (n, '''')
      | Parsed vals rest \<Rightarrow>
          if length rest \<noteq> 1 then Inr (2, '''')
          else
            (case RunDir e cd tc h (hd rest) of
               Panicked p \<Rightarrow> Inl p
             | Failed err \<Rightarrow> Inr (2, '''')
             | Done results \<Rightarrow>
                 (let (passed, failed, stdout) = run_results e js (flag_value vals ''v'' = ''true'') results (0, 0, '''');
                      stdout = stdout @ sprintf e (''%d passed, %d failed'' @ nl) [AInt (int passed), AInt (int failed)] in
                  if failed > 0 then Inr (1, stdout) else Inr (0, stdout))))"

subsection \<open>compatcheck check\<close>

definition check_spec :: "(string \<times> bool) list" where
  "check_spec = [(''old'', False), (''new'', False), (''samples'', False), (''format'', False)]"

definition check_defaults :: "(string \<times> string) list" where
  "check_defaults = [(''old'', ''''), (''new'', ''''), (''samples'', ''''), (''format'', ''json'')]"

text \<open>The report of the comparison, or the reason there is none.\<close>

definition tree_report :: "go_env \<Rightarrow> codec \<Rightarrow> toolchain \<Rightarrow> host \<Rightarrow> json_codec \<Rightarrow> (string \<times> string) list \<Rightarrow>
    report progress" where
  "tree_report e cd tc h js vals =
     (if flag_value vals ''old'' = '''' \<or> flag_value vals ''new'' = '''' then Failed ''usage''
      else
     (case LoadTree e h (flag_value vals ''old'') of
        Inl err \<Rightarrow> Failed err
      | Inr oldFiles \<Rightarrow>
     (case LoadTree e h (flag_value vals ''new'') of
        Inl err \<Rightarrow> Failed err
      | Inr newTree \<Rightarrow>
     (case (if flag_value vals ''samples'' = '''' then Inr []
            else (case h_ReadFile h (flag_value vals ''samples'') of
                    Inl err \<Rightarrow> Inl err | Inr raw \<Rightarrow> js_Samples js raw)) of
        Inl err \<Rightarrow> Failed err
      | Inr samples \<Rightarrow>
     (case Compile tc oldFiles of
        Inl err \<Rightarrow> Failed (schema_Error e err)
      | Inr oldC \<Rightarrow>
     (case Compile tc newTree of
        Inl err \<Rightarrow> Failed (schema_Error e err)
      | Inr newC \<Rightarrow>
     (case Check e cd \<lparr>in_Old = c_Files oldC, in_New = c_Files newC,
          in_OwnedPaths = c_OwnedPaths oldC @ c_OwnedPaths newC, in_Samples = samples\<rparr> of
        Inl p \<Rightarrow> Panicked p
      | Inr report \<Rightarrow> Done report)))))))"

definition location :: "finding \<Rightarrow> string" where
  "location f =
     (if f_Path f \<noteq> '''' then (if f_Message f \<noteq> '''' then f_Message f @ ''.'' else f_Message f) @ f_Path f
      else f_Message f)"

definition pad32 :: "string \<Rightarrow> string" where
  "pad32 s = s @ replicate (32 - length s) (CHR '' '')"

definition text_report :: "go_env \<Rightarrow> report \<Rightarrow> string" where
  "text_report e report =
     sprintf e (''verdict: %s'' @ nl) [AStr (verdict_str (rep_Verdict report))] @
     concat (map (\<lambda>f. sprintf e (''  [%s/%s] %s %s'' @ nl)
         [AStr (severity_str (f_Severity f)), AStr (dimension_str (f_Dimension f)), AStr (pad32 (f_Code f)),
          AStr (location f)] @
       sprintf e (''      %s'' @ nl) [AStr (f_Detail f)]) (rep_Findings report)) @
     concat (map (\<lambda>s. sprintf e (''  sample %s (%s, %s): %s'' @ nl)
         [AStr (sr_Name s), AStr (sr_Message s), AStr (sr_Encoding s), AStr (sr_Status s)] @
       concat (map (\<lambda>d. sprintf e (''      %s: %s -> %s'' @ nl) [AStr (d_Path d), AStr (d_Old d), AStr (d_New d)])
         (sr_Diffs s))) (rep_Samples report))"

definition checkTrees :: "go_env \<Rightarrow> codec \<Rightarrow> toolchain \<Rightarrow> host \<Rightarrow> json_codec \<Rightarrow> string list \<Rightarrow> fault + nat \<times> string" where
  "checkTrees e cd tc h js args =
     (case parse_flags check_spec args check_defaults of
        ExitWith n \<Rightarrow> Inr (n, '''')
      | Parsed vals _ \<Rightarrow>
          (case tree_report e cd tc h js vals of
             Panicked p \<Rightarrow> Inl p
           | Failed err \<Rightarrow> Inr (2, '''')
           | Done report \<Rightarrow>
               (let stdout = (if flag_value vals ''format'' = ''json'' then js_Indent js '''' ''  '' report @ nl
                           else if flag_value vals ''format'' = ''text'' then text_report e report
                           else '''') in
                if rep_Verdict report = VerdictIncompatible then Inr (1, stdout) else Inr (0, stdout))))"

definition compatcheck_main :: "go_env \<Rightarrow> codec \<Rightarrow> toolchain \<Rightarrow> host \<Rightarrow> json_codec \<Rightarrow> string list \<Rightarrow> fault + nat \<times> string" where
  "compatcheck_main e cd tc h js os_Args =
     (case os_Args of
        prog # sub # args \<Rightarrow>
          if sub = ''run'' then runCases e cd tc h js args
          else if sub = ''check'' then checkTrees e cd tc h js args
          else Inr (2, '''')
      | _ \<Rightarrow> Inr (2, ''''))"

subsection \<open>Exit statuses\<close>

lemma run_results_counts:
  "run_results e js b rs (p, f, stdout) = (p', f', stdout') \<Longrightarrow>
    p' = p + length (filter r_Passed rs) \<and> f' = f + length (filter (\<lambda>r. \<not> r_Passed r) rs)"
  by (induction e js b rs "(p, f, stdout)" arbitrary: p f stdout rule: run_results.induct) (auto split: if_splits)



definition plain_json :: json_codec where
  "plain_json = \<lparr>js_Indent = (\<lambda>_ _ rep. verdict_str (rep_Verdict rep)), js_Samples = (\<lambda>_. Inr [])\<rparr>"



end
