(* ===== verification/Chain.thy ===== *)
theory Chain
  imports Walk
begin

text \<open>
  Chains of releases. The registry compares a version only with the one before it, so what
  matters to a reader of old payloads is whether a chain of COMPATIBLE steps can add up to a
  break. The locale \<open>release_chain\<close> is the argument that it cannot: what a COMPATIBLE step keeps
  carries over from step to step and excludes every break. It is interpreted for messages
  (\<open>stays\<close>), enums (\<open>enum_stays\<close>) and whole descriptor closures (\<open>closure_stays\<close>). What does not
  carry over, the reserved names and members that move out of the owned files, is shown by
  concrete chains.
\<close>

locale release_chain =
  fixes compatible :: "'a \<Rightarrow> 'a \<Rightarrow> bool"
    and keeps :: "'a \<Rightarrow> 'a \<Rightarrow> bool"
    and breaks :: "'a \<Rightarrow> 'a \<Rightarrow> bool"
  assumes step_keeps: "compatible a b \<Longrightarrow> keeps a b"
    and keeps_trans: "keeps a b \<Longrightarrow> keeps b c \<Longrightarrow> keeps a c"
    and keeps_unbroken: "keeps a b \<Longrightarrow> \<not> breaks a b"
begin

lemma chain_keeps: "successively compatible (a # b # as) \<Longrightarrow> keeps a (last (b # as))"
proof (induction as arbitrary: a b)
  case (Cons c as)
  from Cons.prems have "compatible a b" "keeps b (last (c # as))" using Cons.IH by simp_all
  then show ?case using step_keeps keeps_trans by fastforce
qed (simp add: step_keeps)

lemma chain_unbroken: "successively compatible (a # b # as) \<Longrightarrow> \<not> breaks a (last (b # as))"
  using chain_keeps keeps_unbroken by blast

end

subsection \<open>Messages\<close>

definition field_agrees :: "field_desc \<Rightarrow> field_desc \<Rightarrow> bool" where
  "field_agrees ofd nfd \<longleftrightarrow>
     fd_Name ofd = fd_Name nfd \<and> fd_JSONName ofd = fd_JSONName nfd \<and> type_safe ofd nfd \<and>
     IsList ofd = IsList nfd \<and> (fd_Cardinality nfd = Required \<longrightarrow> fd_Cardinality ofd = Required)"

definition stays :: "message_desc \<Rightarrow> message_desc \<Rightarrow> bool" where
  "stays old new \<longleftrightarrow>
     (\<forall>num ofd. map_of (fieldsByNumber old) num = Some ofd \<longrightarrow>
        (case map_of (fieldsByNumber new) num of
           Some nfd \<Rightarrow> field_agrees ofd nfd
         | None \<Rightarrow> hasNumber (md_ReservedRanges new) num)) \<and>
     (\<forall>num. hasNumber (md_ReservedRanges old) num \<longrightarrow>
        hasNumber (md_ReservedRanges new) num \<and>
        (map_of (fieldsByNumber new) num \<noteq> None \<longrightarrow> map_of (fieldsByNumber old) num \<noteq> None))"

lemma staysD:
  assumes "stays old new"
  shows "map_of (fieldsByNumber old) num = Some ofd \<Longrightarrow> map_of (fieldsByNumber new) num = Some nfd \<Longrightarrow> field_agrees ofd nfd"
    and "map_of (fieldsByNumber old) num = Some ofd \<Longrightarrow> map_of (fieldsByNumber new) num = None \<Longrightarrow>
      hasNumber (md_ReservedRanges new) num"
    and "hasNumber (md_ReservedRanges old) num \<Longrightarrow> hasNumber (md_ReservedRanges new) num"
    and "hasNumber (md_ReservedRanges old) num \<Longrightarrow> map_of (fieldsByNumber old) num = None \<Longrightarrow>
      map_of (fieldsByNumber new) num = None"
  using assms unfolding stays_def by (force split: option.splits)+

lemma isFixedPair_trans: "isFixedPair a b \<Longrightarrow> isFixedPair b c \<Longrightarrow> a = c"
  by (auto simp: isFixedPair_cases)

lemma type_safe_trans:
  assumes "type_safe a b" and "type_safe b c"
  shows "type_safe a c"
proof (cases "IsMap a \<or> IsMap b \<or> IsMap c")
  case True
  with assms show ?thesis by (auto simp: type_safe_def split: if_splits)
next
  case False
  have "fd_Kind a = fd_Kind c \<or> isFixedPair (fd_Kind a) (fd_Kind c)"
    using assms False isFixedPair_trans by (auto simp: type_safe_def split: if_splits)
  moreover have "isFixedPair j k \<Longrightarrow> j \<notin> {MessageKind, GroupKind, EnumKind} \<and> k \<notin> {MessageKind, GroupKind, EnumKind}" for j k
    by (auto simp: isFixedPair_cases)
  ultimately show ?thesis using assms False by (auto simp: type_safe_def split: if_splits)
qed

lemma field_agrees_trans: "field_agrees a b \<Longrightarrow> field_agrees b c \<Longrightarrow> field_agrees a c"
  using type_safe_trans [of a b c] by (auto simp: field_agrees_def)

lemma stays_trans:
  assumes "stays a b" and "stays b c"
  shows "stays a c"
  unfolding stays_def
proof (intro conjI allI impI)
  fix num ofd
  assume a: "map_of (fieldsByNumber a) num = Some ofd"
  show "case map_of (fieldsByNumber c) num of
      Some nfd \<Rightarrow> field_agrees ofd nfd | None \<Rightarrow> hasNumber (md_ReservedRanges c) num"
  proof (cases "map_of (fieldsByNumber b) num")
    case None
    from staysD(2) [OF assms(1) a this] staysD(3,4) [OF assms(2) _, of num] None show ?thesis by simp
  next
    case (Some bfd)
    with staysD(1) [OF assms(1) a Some] staysD(1,2) [OF assms(2) Some] show ?thesis
      by (auto intro: field_agrees_trans split: option.splits)
  qed
next
  fix num
  assume r: "hasNumber (md_ReservedRanges a) num"
  show "hasNumber (md_ReservedRanges c) num"
    using staysD(3) [OF assms(2) staysD(3) [OF assms(1) r]] .
  assume "map_of (fieldsByNumber c) num \<noteq> None"
  with staysD(3) [OF assms(1) r] staysD(4) [OF assms(2), of num] have "map_of (fieldsByNumber b) num \<noteq> None" by metis
  with staysD(4) [OF assms(1) r] show "map_of (fieldsByNumber a) num \<noteq> None" by metis
qed

lemma stays_refl: "stays m m"
  by (auto simp: stays_def field_agrees_def type_safe_def)

lemma message_safe_stays:
  assumes "message_safe old new"
  shows "stays old new"
  unfolding stays_def
proof (intro conjI allI impI)
  fix num ofd
  assume "map_of (fieldsByNumber old) num = Some ofd"
  then have "field_kept new num ofd"
    using assms by (auto simp: message_safe_def dest: map_of_SomeD)
  then show "case map_of (fieldsByNumber new) num of
      Some nfd \<Rightarrow> field_agrees ofd nfd | None \<Rightarrow> hasNumber (md_ReservedRanges new) num"
    by (auto simp: field_kept_def field_agrees_def field_safe_def split: option.splits)
next
  fix num
  assume r: "hasNumber (md_ReservedRanges old) num"
  have "hasNumber (md_ReservedRanges new) n" if "q \<in> set (md_ReservedRanges old)" "n \<in> field_range q" for q n
    using assms that by (simp add: message_safe_def rangeCovered_iff)
  then show "hasNumber (md_ReservedRanges new) num" using r by (rule fr.has_cover)
  assume "map_of (fieldsByNumber new) num \<noteq> None"
  then show "map_of (fieldsByNumber old) num \<noteq> None"
    using assms r by (fastforce simp: message_safe_def dest: map_of_SomeD)
qed

lemma agrees_not_breaks:
  assumes "field_agrees ofd nfd"
  shows "\<not> field_breaks ofd nfd"
proof -
  have "isFixedPair j k \<Longrightarrow> categoryOf j = categoryOf k \<and> jsonRep j = jsonRep k" for j k
    by (auto simp: isFixedPair_cases)
  then have "\<not> type_breaks ofd nfd"
    using assms by (auto simp: field_agrees_def type_safe_def type_breaks_def split: if_splits)
  then show ?thesis
    using assms by (auto simp: field_agrees_def field_breaks_def cardinality_breaks_def)
qed

lemma stays_not_lost:
  assumes "stays old new" and "(num, ofd) \<in> set (fieldsByNumber old)"
  shows "\<not> field_lost new num ofd"
  using fields_Some [OF assms(2)] staysD(1,2) [OF assms(1)]
  by (auto simp: field_lost_def agrees_not_breaks split: option.splits)

definition judged :: "go_env \<Rightarrow> verdict \<Rightarrow> message_desc \<Rightarrow> message_desc \<Rightarrow> bool" where
  "judged e v old new \<longleftrightarrow> (\<exists>fs. compareMessages e old new = Inr fs \<and> verdictOf fs = v)"

lemma judged_unfold:
  "judged e VerdictCompatible old new \<longleftrightarrow> run_ok (compareMessages e old new) \<and> all_info (out (compareMessages e old new))"
  "judged e VerdictIncompatible old new \<longleftrightarrow> run_ok (compareMessages e old new) \<and> \<not> no_fail (out (compareMessages e old new))"
  by (auto simp: judged_def verdictOf_compatible verdictOf_incompatible dest: run_okE)

lemma message_chain:
  assumes "fair_env e"
  shows "release_chain (judged e VerdictCompatible) stays (judged e VerdictIncompatible)"
proof
  fix a b c
  show "judged e VerdictCompatible a b \<Longrightarrow> stays a b"
    using all_info_compareMessages [OF assms] by (auto simp: judged_unfold intro: message_safe_stays)
  show "stays a b \<Longrightarrow> stays b c \<Longrightarrow> stays a c" by (rule stays_trans)
  show "stays a b \<Longrightarrow> \<not> judged e VerdictIncompatible a b"
    using no_fail_compareMessages [OF assms] stays_not_lost by (fastforce simp: judged_unfold)
qed

interpretation message_chain: release_chain "judged plain_env VerdictCompatible" stays "judged plain_env VerdictIncompatible"
  by (rule message_chain) simp

text \<open>
  A chain of COMPATIBLE releases never adds up to a proven break: if each version of a message
  compares as COMPATIBLE with the next one, then the first compared with the last is not
  INCOMPATIBLE, however long the chain is. Comparing with the version before is enough to keep
  every reader of old wire payloads safe.
\<close>
theorem compatible_chain_never_breaks:
  assumes "fair_env e" and "successively (judged e VerdictCompatible) (m # ms)"
  shows "\<not> judged e VerdictIncompatible m (last (m # ms))"
proof (cases ms)
  case Nil
  then show ?thesis using release_chain.keeps_unbroken [OF message_chain [OF assms(1)] stays_refl [of m]] by simp
next
  case (Cons n ns)
  with release_chain.chain_unbroken [OF message_chain [OF assms(1)]] assms(2) show ?thesis by simp
qed

text \<open>The invoice again: the note is deleted and reserved; then its name is no longer reserved; then the
  name comes back under another number and with another type.\<close>

definition invoice_v3 :: message_desc where
  "invoice_v3 = msg ''pay.Invoice'' [plain_field ''id'' 1 StringKind] [(3, 4)] []"

definition invoice_v4 :: message_desc where
  "invoice_v4 = msg ''pay.Invoice'' [plain_field ''id'' 1 StringKind, plain_field ''note'' 4 Int64Kind] [(3, 4)] []"

lemma invoice_chain: "successively (judged plain_env VerdictCompatible) [invoice_v1, invoice_v2, invoice_v3, invoice_v4]"
proof -
  have judge: "judged e v old new"
    if "(case compareMessages e old new of Inr fs \<Rightarrow> verdictOf fs = v | Inl _ \<Rightarrow> False)" for e v old new
    using that by (auto simp: judged_def split: sum.splits)
  have "(case compareMessages plain_env invoice_v1 invoice_v2 of Inr fs \<Rightarrow> verdictOf fs = VerdictCompatible | Inl _ \<Rightarrow> False)"
    "(case compareMessages plain_env invoice_v2 invoice_v3 of Inr fs \<Rightarrow> verdictOf fs = VerdictCompatible | Inl _ \<Rightarrow> False)"
    "(case compareMessages plain_env invoice_v3 invoice_v4 of Inr fs \<Rightarrow> verdictOf fs = VerdictCompatible | Inl _ \<Rightarrow> False)"
    by code_simp+
  from this [THEN judge] show ?thesis by simp
qed

theorem compatible_chain_never_breaks_witness: "\<not> judged plain_env VerdictIncompatible invoice_v1 invoice_v4"
  using compatible_chain_never_breaks [OF fair_plain_env invoice_chain] by simp

text \<open>
  Compatibility does not carry over a chain for JSON names: withdrawing the reservation of a
  name is not reported, so three COMPATIBLE releases can delete a field and bring its name back
  with another type, although a direct comparison of the first with the last asks for a review.
\<close>
theorem reserved_name_withdrawn_unreported:
  "judged plain_env VerdictCompatible invoice_v1 invoice_v2 \<and>
   judged plain_env VerdictCompatible invoice_v2 invoice_v3 \<and>
   judged plain_env VerdictCompatible invoice_v3 invoice_v4 \<and>
   judged plain_env VerdictNeedsReview invoice_v1 invoice_v4"
proof -
  have "(case compareMessages plain_env invoice_v1 invoice_v4 of Inr fs \<Rightarrow> verdictOf fs = VerdictNeedsReview | Inl _ \<Rightarrow> False)"
    by code_simp
  then have "judged plain_env VerdictNeedsReview invoice_v1 invoice_v4"
    by (auto simp: judged_def split: sum.splits)
  with invoice_chain show ?thesis by simp
qed

subsection \<open>Enums\<close>

text \<open>The numbers of a reserved range are 32-bit integers in Go.\<close>

definition ranges32 :: "enum_desc \<Rightarrow> bool" where
  "ranges32 ed \<longleftrightarrow> (\<forall>r \<in> set (ed_ReservedRanges ed). int32 (fst r) \<and> int32 (snd r))"

definition enum_stays :: "enum_desc \<Rightarrow> enum_desc \<Rightarrow> bool" where
  "enum_stays old new \<longleftrightarrow>
     (\<forall>num ov. map_of (enumValuesByNumber old) num = Some ov \<longrightarrow> \<not> enum_value_broken new num ov) \<and>
     (\<forall>num. hasEnumNumber (ed_ReservedRanges old) num \<longrightarrow>
        hasEnumNumber (ed_ReservedRanges new) num \<and>
        (map_of (enumValuesByNumber new) num \<noteq> None \<longrightarrow> map_of (enumValuesByNumber old) num \<noteq> None))"

lemma enum_staysD:
  assumes "enum_stays old new"
  shows "map_of (enumValuesByNumber old) num = Some ov \<Longrightarrow> \<not> enum_value_broken new num ov"
    and "hasEnumNumber (ed_ReservedRanges old) num \<Longrightarrow> hasEnumNumber (ed_ReservedRanges new) num"
    and "hasEnumNumber (ed_ReservedRanges old) num \<Longrightarrow> map_of (enumValuesByNumber old) num = None \<Longrightarrow>
      map_of (enumValuesByNumber new) num = None"
  using assms unfolding enum_stays_def by metis+

lemma enum_stays_trans:
  assumes "enum_stays a b" and "enum_stays b c"
  shows "enum_stays a c"
  unfolding enum_stays_def
proof (intro conjI allI impI)
  fix num ov
  assume a: "map_of (enumValuesByNumber a) num = Some ov"
  note ab = enum_staysD(1) [OF assms(1) a]
  show "\<not> enum_value_broken c num ov"
  proof (cases "map_of (enumValuesByNumber b) num")
    case None
    with ab have "num \<noteq> 0" "hasEnumNumber (ed_ReservedRanges b) num" by (auto simp: enum_value_broken_def)
    with None enum_staysD(2,3) [OF assms(2)] show ?thesis by (simp add: enum_value_broken_def)
  next
    case (Some bv)
    with ab enum_staysD(1) [OF assms(2) Some] show ?thesis
      by (auto simp: enum_value_broken_def split: option.splits)
  qed
next
  fix num
  assume r: "hasEnumNumber (ed_ReservedRanges a) num"
  note b = enum_staysD(2) [OF assms(1) r]
  show "hasEnumNumber (ed_ReservedRanges c) num" by (rule enum_staysD(2) [OF assms(2) b])
  assume "map_of (enumValuesByNumber c) num \<noteq> None"
  with enum_staysD(3) [OF assms(2) b] enum_staysD(3) [OF assms(1) r]
  show "map_of (enumValuesByNumber a) num \<noteq> None" by metis
qed

lemma enumRangeCovered_covers:
  assumes "int32 (fst r)" and "int32 (snd r)" and "enumRangeCovered rs r = Some True" and "n \<in> enum_range r"
  shows "hasEnumNumber rs n"
proof (cases "snd r = maxInt32")
  case True
  with enumRangeCovered_max_gap [OF assms(1), of _ rs] enumRangeCovered_max_hang [OF assms(1), of rs] assms(3)
  show ?thesis by (fastforce simp: enumRangeCovered_def)
next
  case False
  with assms(2) have "snd r < maxInt32" using int32_le_max [of "snd r"] by simp
  from enumRangeCovered_from_below [OF assms(1) this, of rs] assms(3,4) show ?thesis
    by (simp add: enumRangeCovered_def enum_range_def)
qed

lemma enum_safe_stays:
  assumes "enum_safe old new" and "ranges32 old"
  shows "enum_stays old new"
  unfolding enum_stays_def
proof (intro conjI allI impI)
  fix num ov
  assume "map_of (enumValuesByNumber old) num = Some ov"
  with assms(1) have "enum_value_kept new num ov" by (auto simp: enum_safe_def dest: map_of_SomeD)
  then show "\<not> enum_value_broken new num ov"
    by (auto simp: enum_value_kept_def enum_value_broken_def split: option.splits)
next
  fix num
  assume r: "hasEnumNumber (ed_ReservedRanges old) num"
  have "hasEnumNumber (ed_ReservedRanges new) n" if "q \<in> set (ed_ReservedRanges old)" "n \<in> enum_range q" for q n
    using assms that enumRangeCovered_covers by (auto simp: enum_safe_def enum_ranges_kept_def ranges32_def)
  then show "hasEnumNumber (ed_ReservedRanges new) num" using r by (rule er.has_cover)
  assume "map_of (enumValuesByNumber new) num \<noteq> None"
  then show "map_of (enumValuesByNumber old) num \<noteq> None"
    using assms(1) r by (fastforce simp: enum_safe_def dest: map_of_SomeD)
qed

definition judged_enum :: "go_env \<Rightarrow> verdict \<Rightarrow> enum_desc \<Rightarrow> enum_desc \<Rightarrow> bool" where
  "judged_enum e v old new \<longleftrightarrow> ranges32 old \<and> (\<exists>fs. compareEnums e old new = Inr fs \<and> verdictOf fs = v)"

lemma enum_chain:
  assumes "fair_env e"
  shows "release_chain (judged_enum e VerdictCompatible) enum_stays (judged_enum e VerdictIncompatible)"
proof
  fix a b c
  show "judged_enum e VerdictCompatible a b \<Longrightarrow> enum_stays a b"
    using all_info_compareEnums [OF assms, of a b] enum_safe_stays [of a b]
    by (auto simp: judged_enum_def verdictOf_compatible enum_safe_def)
  show "enum_stays a b \<Longrightarrow> enum_stays b c \<Longrightarrow> enum_stays a c" by (rule enum_stays_trans)
  show "enum_stays a b \<Longrightarrow> \<not> judged_enum e VerdictIncompatible a b"
    using no_fail_compareEnums [OF assms, of a b] enum_staysD(1) [of a b] enumValues_Some
    by (fastforce simp: judged_enum_def verdictOf_incompatible)
qed

interpretation enum_chain: release_chain "judged_enum plain_env VerdictCompatible" enum_stays
    "judged_enum plain_env VerdictIncompatible"
  by (rule enum_chain) simp

subsection \<open>Whole closures\<close>

definition owned_messages :: "string list \<Rightarrow> files \<Rightarrow> message_desc list" where
  "owned_messages owned F = concat (map walked_messages (filter (\<lambda>fd. isOwned owned (file_Path fd)) (RangeFiles F)))"

definition owned_enums :: "string list \<Rightarrow> files \<Rightarrow> enum_desc list" where
  "owned_enums owned F = concat (map walked_enums (filter (\<lambda>fd. isOwned owned (file_Path fd)) (RangeFiles F)))"

text \<open>
  What is compared stays compared: a message or an enum of an owned file that the next release
  still has is found under its own name in an owned file.
\<close>

definition keeps_owned :: "string list \<Rightarrow> files \<Rightarrow> files \<Rightarrow> bool" where
  "keeps_owned owned old new \<longleftrightarrow>
     (\<forall>md \<in> set (owned_messages owned old).
        case findMessage new (md_FullName md) of
          None \<Rightarrow> True | Some nmd \<Rightarrow> md_FullName nmd = md_FullName md \<and> nmd \<in> set (owned_messages owned new)) \<and>
     (\<forall>ed \<in> set (owned_enums owned old).
        case findEnum new (ed_FullName ed) of
          None \<Rightarrow> True | Some ned \<Rightarrow> ed_FullName ned = ed_FullName ed \<and> ned \<in> set (owned_enums owned new))"

definition closure_stays :: "string list \<Rightarrow> files \<Rightarrow> files \<Rightarrow> bool" where
  "closure_stays owned old new \<longleftrightarrow>
     (\<forall>md \<in> set (owned_messages owned old). \<exists>nmd \<in> set (owned_messages owned new).
        findMessage new (md_FullName md) = Some nmd \<and> md_FullName nmd = md_FullName md \<and> stays md nmd) \<and>
     (\<forall>ed \<in> set (owned_enums owned old). \<exists>ned \<in> set (owned_enums owned new).
        findEnum new (ed_FullName ed) = Some ned \<and> ed_FullName ned = ed_FullName ed \<and> enum_stays ed ned)"

lemma closure_stays_trans: "closure_stays owned a b \<Longrightarrow> closure_stays owned b c \<Longrightarrow> closure_stays owned a c"
proof -
  assume ab: "closure_stays owned a b" and bc: "closure_stays owned b c"
  have "\<exists>nmd \<in> set (owned_messages owned c). findMessage c (md_FullName md) = Some nmd \<and>
      md_FullName nmd = md_FullName md \<and> stays md nmd" if "md \<in> set (owned_messages owned a)" for md
  proof -
    from ab that obtain m where m: "m \<in> set (owned_messages owned b)" "md_FullName m = md_FullName md" "stays md m"
      unfolding closure_stays_def by blast
    with bc obtain n where "n \<in> set (owned_messages owned c)" "findMessage c (md_FullName m) = Some n"
      "md_FullName n = md_FullName m" "stays m n"
      unfolding closure_stays_def by blast
    with m show ?thesis by (auto intro: stays_trans)
  qed
  moreover have "\<exists>ned \<in> set (owned_enums owned c). findEnum c (ed_FullName ed) = Some ned \<and>
      ed_FullName ned = ed_FullName ed \<and> enum_stays ed ned" if "ed \<in> set (owned_enums owned a)" for ed
  proof -
    from ab that obtain m where m: "m \<in> set (owned_enums owned b)" "ed_FullName m = ed_FullName ed" "enum_stays ed m"
      unfolding closure_stays_def by blast
    with bc obtain n where "n \<in> set (owned_enums owned c)" "findEnum c (ed_FullName m) = Some n"
      "ed_FullName n = ed_FullName m" "enum_stays m n"
      unfolding closure_stays_def by blast
    with m show ?thesis by (auto intro: enum_stays_trans)
  qed
  ultimately show ?thesis unfolding closure_stays_def by blast
qed

lemma owned_found:
  assumes "closure_safe owned old new"
  shows "md \<in> set (owned_messages owned old) \<Longrightarrow> \<exists>nmd. findMessage new (md_FullName md) = Some nmd \<and> message_safe md nmd"
    and "ed \<in> set (owned_enums owned old) \<Longrightarrow> \<exists>ned. findEnum new (ed_FullName ed) = Some ned \<and> enum_safe ed ned"
proof -
  assume "md \<in> set (owned_messages owned old)"
  then obtain fd where "fd \<in> set (RangeFiles old)" "isOwned owned (file_Path fd)" "md \<in> set (walked_messages fd)"
    by (auto simp: owned_messages_def)
  with assms show "\<exists>nmd. findMessage new (md_FullName md) = Some nmd \<and> message_safe md nmd"
    unfolding closure_safe_def by blast
next
  assume "ed \<in> set (owned_enums owned old)"
  then obtain fd where "fd \<in> set (RangeFiles old)" "isOwned owned (file_Path fd)" "ed \<in> set (walked_enums fd)"
    by (auto simp: owned_enums_def)
  with assms show "\<exists>ned. findEnum new (ed_FullName ed) = Some ned \<and> enum_safe ed ned"
    unfolding closure_safe_def by blast
qed

lemma closure_safe_stays:
  assumes "closure_safe owned old new" and "keeps_owned owned old new"
    and "\<forall>ed \<in> set (owned_enums owned old). ranges32 ed"
  shows "closure_stays owned old new"
  unfolding closure_stays_def
proof (intro conjI ballI)
  fix md
  assume md: "md \<in> set (owned_messages owned old)"
  with owned_found(1) [OF assms(1)] obtain nmd where "findMessage new (md_FullName md) = Some nmd" "message_safe md nmd"
    by blast
  with md assms(2) message_safe_stays show "\<exists>nmd \<in> set (owned_messages owned new).
      findMessage new (md_FullName md) = Some nmd \<and> md_FullName nmd = md_FullName md \<and> stays md nmd"
    by (fastforce simp: keeps_owned_def)
next
  fix ed
  assume ed: "ed \<in> set (owned_enums owned old)"
  with owned_found(2) [OF assms(1)] obtain ned where "findEnum new (ed_FullName ed) = Some ned" "enum_safe ed ned"
    by blast
  with ed assms(2,3) enum_safe_stays show "\<exists>ned \<in> set (owned_enums owned new).
      findEnum new (ed_FullName ed) = Some ned \<and> ed_FullName ned = ed_FullName ed \<and> enum_stays ed ned"
    by (fastforce simp: keeps_owned_def)
qed

lemma closure_stays_unbroken:
  assumes "closure_stays owned old new"
  shows "\<not> closure_broken owned old new"
proof -
  have "\<not> field_lost nmd num ofd"
    if "md \<in> set (owned_messages owned old)" "findMessage new (md_FullName md) = Some nmd"
      "(num, ofd) \<in> set (fieldsByNumber md)" for md nmd num ofd
    using assms that stays_not_lost by (fastforce simp: closure_stays_def)
  moreover have "\<not> enum_value_broken ned num ov"
    if "ed \<in> set (owned_enums owned old)" "findEnum new (ed_FullName ed) = Some ned"
      "(num, ov) \<in> set (enumValuesByNumber ed)" for ed ned num ov
    using assms that enum_staysD(1) enumValues_Some by (fastforce simp: closure_stays_def)
  ultimately show ?thesis
    by (fastforce simp: closure_broken_def owned_messages_def owned_enums_def)
qed

definition judged_files :: "go_env \<Rightarrow> string list \<Rightarrow> verdict \<Rightarrow> files \<Rightarrow> files \<Rightarrow> bool" where
  "judged_files e owned v old new \<longleftrightarrow> (\<exists>fs. compareFiles e owned old new = Inr fs \<and> verdictOf fs = v)"

definition release_step :: "go_env \<Rightarrow> string list \<Rightarrow> files \<Rightarrow> files \<Rightarrow> bool" where
  "release_step e owned old new \<longleftrightarrow> judged_files e owned VerdictCompatible old new \<and>
     keeps_owned owned old new \<and> (\<forall>ed \<in> set (owned_enums owned old). ranges32 ed)"

lemma closure_chain:
  assumes "fair_env e"
  shows "release_chain (release_step e owned) (closure_stays owned) (judged_files e owned VerdictIncompatible)"
proof
  fix a b c
  show "release_step e owned a b \<Longrightarrow> closure_stays owned a b"
    using compareFiles_judged(1) [OF assms, of owned a b]
    by (auto simp: release_step_def judged_files_def verdictOf_compatible intro: closure_safe_stays)
  show "closure_stays owned a b \<Longrightarrow> closure_stays owned b c \<Longrightarrow> closure_stays owned a c" by (rule closure_stays_trans)
  show "closure_stays owned a b \<Longrightarrow> \<not> judged_files e owned VerdictIncompatible a b"
    using compareFiles_judged(2) [OF assms, of owned a b] closure_stays_unbroken [of owned a b]
    by (auto simp: judged_files_def verdictOf_incompatible)
qed

interpretation closure_chain: release_chain "release_step plain_env owned" "closure_stays owned"
    "judged_files plain_env owned VerdictIncompatible"
  by (rule closure_chain) simp


definition closure_grown :: files where
  "closure_grown = mk_files
     [\<lparr>file_Path = ''pay.proto'', file_Package = ''pay'',
       file_Messages = [msg ''pay.Invoice'' [plain_field ''id'' 1 StringKind, plain_field ''note'' 3 StringKind] [] []],
       file_Enums = [job_status [enum_val ''UNKNOWN'' 0, enum_val ''PAUSED'' 2] [] []]\<rparr>]"

definition closure_shrunk :: files where
  "closure_shrunk = mk_files
     [\<lparr>file_Path = ''pay.proto'', file_Package = ''pay'',
       file_Messages = [msg ''pay.Invoice'' [plain_field ''id'' 1 StringKind] [(3, 4)] [''note'']],
       file_Enums = [job_status [enum_val ''UNKNOWN'' 0, enum_val ''PAUSED'' 2] [] []]\<rparr>]"


text \<open>
  The first condition is needed: a message that moves from an owned file to an imported file is
  found there by its name, so the move is COMPATIBLE, but from then on it is no longer compared.
  Two COMPATIBLE releases add up to an INCOMPATIBLE one.
\<close>

definition moved_v1 :: files where
  "moved_v1 = mk_files [pay_file ''pay.proto'' [msg ''pay.Invoice'' [plain_field ''id'' 1 StringKind] [] []]]"

definition moved_v2 :: files where
  "moved_v2 = mk_files [pay_file ''pay.proto'' [],
     pay_file ''common.proto'' [msg ''pay.Invoice'' [plain_field ''id'' 1 StringKind] [] []]]"

definition moved_v3 :: files where
  "moved_v3 = mk_files [pay_file ''pay.proto'' [],
     pay_file ''common.proto'' [msg ''pay.Invoice'' [plain_field ''id'' 1 DoubleKind] [] []]]"

theorem moved_message_escapes_comparison:
  "judged_files plain_env [''pay.proto''] VerdictCompatible moved_v1 moved_v2 \<and>
   judged_files plain_env [''pay.proto''] VerdictCompatible moved_v2 moved_v3 \<and>
   judged_files plain_env [''pay.proto''] VerdictIncompatible moved_v1 moved_v3 \<and>
   \<not> keeps_owned [''pay.proto''] moved_v1 moved_v2"
proof -
  have judge: "judged_files e owned v old new"
    if "(case compareFiles e owned old new of Inr fs \<Rightarrow> verdictOf fs = v | Inl _ \<Rightarrow> False)" for e owned v old new
    using that by (auto simp: judged_files_def split: sum.splits)
  have "(case compareFiles plain_env [''pay.proto''] moved_v1 moved_v2 of Inr fs \<Rightarrow> verdictOf fs = VerdictCompatible | Inl _ \<Rightarrow> False)"
    "(case compareFiles plain_env [''pay.proto''] moved_v2 moved_v3 of Inr fs \<Rightarrow> verdictOf fs = VerdictCompatible | Inl _ \<Rightarrow> False)"
    "(case compareFiles plain_env [''pay.proto''] moved_v1 moved_v3 of Inr fs \<Rightarrow> verdictOf fs = VerdictIncompatible | Inl _ \<Rightarrow> False)"
    by code_simp+
  note verdicts = this [THEN judge]
  have "\<not> keeps_owned [''pay.proto''] moved_v1 moved_v2" by code_simp
  with verdicts show ?thesis by blast
qed


end
